theory Spec2Isabelle
  imports Main "HOL-Library.Char_ord" "HOL-Library.List_Lexorder"
    "HOL-Library.Product_Lexorder" "HOL-Library.Multiset"
begin

section \<open>The graph model (package model)\<close>

text \<open>
  Rooms live in the map \<open>Graph.Rooms\<close>, keyed by name; every \<open>*Room\<close> pointer of the
  source (the entries of \<open>Links\<close>, \<open>Graph.Start\<close>, \<open>Graph.End\<close>) is created by
  \<open>AddRoom\<close> and stored under its own name, so a pointer is modelled by the name of the
  room it points to, and the nil pointer by \<open>None\<close>. The Go map is an association list
  with at most one entry per key; its order is an artefact of the model (Go iterates a map
  in no fixed order), and the code sorts the keys before it uses them.
  Go's \<open>int\<close> has 64 bits. The parser only lets through coordinates and an ant count
  within that range. The pre-allocation of the scheduler counts up from the ant count, so
  its arithmetic is modelled with the wrap-around of the 64-bit \<open>int\<close> written out
  (\<open>wrap64\<close>). The other integers (indices, lengths, positions on a path, ant ids from 1 to
  the ant count) are bounded by the size of the input or by the ant count and are modelled
  by the unbounded \<open>int\<close> or by \<open>nat\<close>.
\<close>

record Room =
  Name :: string
  X :: int
  Y :: int
  Links :: "string list"

record Graph =
  Rooms :: "(string \<times> Room) list"
  Start :: "string option"
  End :: "string option"

record Path =
  PRooms :: "string list"
  Length :: int

definition NewGraph :: Graph where
  "NewGraph = \<lparr>Rooms = [], Start = None, End = None\<rparr>"

definition put_room :: "string \<Rightarrow> Room \<Rightarrow> (string \<times> Room) list \<Rightarrow> (string \<times> Room) list" where
  "put_room k r al =
     (if k \<in> set (map fst al) then map (\<lambda>(k', r'). if k' = k then (k', r) else (k', r')) al
      else al @ [(k, r)])"

definition AddRoom :: "Graph \<Rightarrow> string \<Rightarrow> int \<Rightarrow> int \<Rightarrow> Graph \<times> string" where
  "AddRoom g name x y =
     (case map_of (Rooms g) name of
        Some r \<Rightarrow> (g, name)
      | None \<Rightarrow>
          (g\<lparr>Rooms := put_room name \<lparr>Name = name, X = x, Y = y, Links = []\<rparr> (Rooms g)\<rparr>, name))"

definition AddLink :: "Graph \<Rightarrow> string \<Rightarrow> string \<Rightarrow> Graph \<times> bool" where
  "AddLink g a b =
     (case (map_of (Rooms g) a, map_of (Rooms g) b) of
        (Some ra, Some rb) \<Rightarrow>
          if a = b then (g, False)
          else if b \<in> set (Links ra) then (g, False)
          else
            (g\<lparr>Rooms := put_room b (rb\<lparr>Links := Links rb @ [a]\<rparr>)
                            (put_room a (ra\<lparr>Links := Links ra @ [b]\<rparr>) (Rooms g))\<rparr>, True)
      | _ \<Rightarrow> (g, False))"

section \<open>The parser (package parser)\<close>

record Result =
  Ants :: int
  RGraph :: Graph
  OriginalLines :: "string list"

definition errInvalid :: string where
  "errInvalid = ''ERROR: invalid data format''"

text \<open>The character classes of the two regular expressions: \<open>\s\<close> is \<open>[\t\n\f\r ]\<close>,
  \<open>\d\<close> is \<open>[0-9]\<close>.\<close>

definition is_space :: "char \<Rightarrow> bool" where
  "is_space c = (c \<in> set [CHR 0x09, CHR 0x0A, CHR 0x0C, CHR 0x0D, CHR '' ''])"

definition is_digit :: "char \<Rightarrow> bool" where
  "is_digit c = (c \<in> set ''0123456789'')"

text \<open>\<open>[^\s#L][^\s]*\<close>: a room name.\<close>

definition name_ok :: "string \<Rightarrow> bool" where
  "name_ok s = (case s of [] \<Rightarrow> False
                | c # cs \<Rightarrow> \<not> is_space c \<and> c \<noteq> CHR ''#'' \<and> c \<noteq> CHR ''L'' \<and> (\<forall>d \<in> set cs. \<not> is_space d))"

text \<open>\<open>-?\d+\<close>: the text of a coordinate.\<close>

definition num_ok :: "string \<Rightarrow> bool" where
  "num_ok s = (case s of [] \<Rightarrow> False
               | c # cs \<Rightarrow> if c = CHR ''-'' then cs \<noteq> [] \<and> (\<forall>d \<in> set cs. is_digit d)
                           else (\<forall>d \<in> set s. is_digit d))"

definition digit_val :: "char \<Rightarrow> int" where
  "digit_val c = int (of_char c) - 48"

definition digits_val :: "string \<Rightarrow> int" where
  "digits_val s = foldl (\<lambda>acc c. acc * 10 + digit_val c) 0 s"

definition maxInt :: int where "maxInt = 2 ^ 63 - 1"
definition minInt :: int where "minInt = - (2 ^ 63)"

text \<open>\<open>strconv.Atoi\<close>: an optional sign and decimal digits; a value outside the 64-bit range
  is an error, returned together with the nearest bound.\<close>

definition Atoi :: "string \<Rightarrow> int \<times> bool" where
  "Atoi s =
     (let (neg, ds) = (case s of c # cs \<Rightarrow> if c = CHR ''-'' then (True, cs)
                                          else if c = CHR ''+'' then (False, cs) else (False, s)
                       | [] \<Rightarrow> (False, []))
      in if ds = [] \<or> \<not> (\<forall>d \<in> set ds. is_digit d) then (0, False)
         else let v = (if neg then - digits_val ds else digits_val ds)
              in if v > maxInt then (maxInt, False)
                 else if v < minInt then (minInt, False)
                 else (v, True))"

text \<open>\<open>roomLineRe = ^([^\s#L][^\s]*)\s+(-?\d+)\s+(-?\d+)$\<close>. The name is the run of
  non-space characters at the front, each \<open>\s+\<close> a maximal run of spaces, so the match is
  unique.\<close>

definition roomLineRe :: "string \<Rightarrow> (string \<times> string \<times> string) option" where
  "roomLineRe line =
     (let nm = takeWhile (\<lambda>c. \<not> is_space c) line;
          r1 = dropWhile (\<lambda>c. \<not> is_space c) line;
          r2 = dropWhile is_space r1;
          xs = takeWhile (\<lambda>c. \<not> is_space c) r2;
          r3 = dropWhile (\<lambda>c. \<not> is_space c) r2;
          ys = dropWhile is_space r3
      in if name_ok nm \<and> r1 \<noteq> [] \<and> num_ok xs \<and> r3 \<noteq> [] \<and> num_ok ys
         then Some (nm, xs, ys) else None)"

text \<open>\<open>linkLineRe = ^([^\s#L][^\s]*)-([^\s#L][^\s]*)$\<close>. The first group is greedy: the
  split is at the last dash that leaves a name on both sides.\<close>

definition linkLineRe :: "string \<Rightarrow> (string \<times> string) option" where
  "linkLineRe line =
     (case filter (\<lambda>(a, b). name_ok a \<and> name_ok b)
             (map (\<lambda>i. (take i line, drop (Suc i) line))
                (filter (\<lambda>i. line ! i = CHR ''-'') (rev [0..<length line]))) of
        [] \<Rightarrow> None
      | m # _ \<Rightarrow> Some m)"

record pstate =
  res_Ants :: int
  res_Graph :: Graph
  lines :: "string list"
  phase :: string
  pendingCommand :: string

definition HasPrefix :: "string \<Rightarrow> string \<Rightarrow> bool" where
  "HasPrefix s p = (take (length p) s = p)"

text \<open>One iteration of the scanner loop of \<open>Parse\<close>: \<open>Inl\<close> is the error returned,
  \<open>Inr\<close> the state after the line (every \<open>continue\<close> of the source).\<close>

definition parse_line :: "pstate \<Rightarrow> string \<Rightarrow> string + pstate" where
  "parse_line st line =
     (if line = [] then Inl (errInvalid @ '', empty line'')
      else if HasPrefix line ''#'' then
        (if HasPrefix line ''##'' then
           (if line = ''##start'' \<or> line = ''##end''
            then Inr (st\<lparr>pendingCommand := line, lines := lines st @ [line]\<rparr>)
            else Inr (st\<lparr>lines := lines st @ [line]\<rparr>))
         else Inr st)
      else if phase st = ''ants'' then
        (let (ants, ok) = Atoi line
         in if \<not> ok \<or> ants \<le> 0 then Inl errInvalid
            else Inr (st\<lparr>res_Ants := ants, lines := lines st @ [line], phase := ''rooms''\<rparr>))
      else if roomLineRe line \<noteq> None \<and> phase st = ''rooms'' then
        (case roomLineRe line of
           None \<Rightarrow> Inl errInvalid
         | Some (name, xs, ys) \<Rightarrow>
             let x = fst (Atoi xs); y = fst (Atoi ys)
             in if map_of (Rooms (res_Graph st)) name \<noteq> None
                then Inl (errInvalid @ '', duplicate room'')
                else
                  let (g, r) = AddRoom (res_Graph st) name x y
                  in if pendingCommand st = ''##start'' then
                       (if Start g \<noteq> None then Inl (errInvalid @ '', multiple start'')
                        else Inr (st\<lparr>res_Graph := g\<lparr>Start := Some r\<rparr>, pendingCommand := [],
                                     lines := lines st @ [line]\<rparr>))
                     else if pendingCommand st = ''##end'' then
                       (if End g \<noteq> None then Inl (errInvalid @ '', multiple end'')
                        else Inr (st\<lparr>res_Graph := g\<lparr>End := Some r\<rparr>, pendingCommand := [],
                                     lines := lines st @ [line]\<rparr>))
                     else Inr (st\<lparr>res_Graph := g, pendingCommand := [],
                                  lines := lines st @ [line]\<rparr>))
      else
        (case linkLineRe line of
           Some (a, b) \<Rightarrow>
             if Start (res_Graph st) = None \<or> End (res_Graph st) = None
             then Inl (errInvalid @ '', missing start or end'')
             else
               let (g, ok) = AddLink (res_Graph st) a b
               in if \<not> ok then Inl (errInvalid @ '', invalid link'')
                  else Inr (st\<lparr>res_Graph := g, phase := ''links'', lines := lines st @ [line]\<rparr>)
         | None \<Rightarrow>
             if phase st = ''links'' then Inl (errInvalid @ '', expected link'')
             else Inl (errInvalid @ '', unrecognized line'')))"

fun parse_loop :: "pstate \<Rightarrow> string list \<Rightarrow> string + pstate" where
  "parse_loop st [] = Inr st"
| "parse_loop st (l # ls) = (case parse_line st l of Inl e \<Rightarrow> Inl e | Inr st' \<Rightarrow> parse_loop st' ls)"

definition init_pstate :: pstate where
  "init_pstate = \<lparr>res_Ants = 0, res_Graph = NewGraph, lines = [], phase = ''ants'',
                   pendingCommand = []\<rparr>"

text \<open>\<open>Parse\<close>, on the lines the scanner yields.\<close>

definition Parse :: "string list \<Rightarrow> string + Result" where
  "Parse input =
     (case parse_loop init_pstate input of
        Inl e \<Rightarrow> Inl e
      | Inr st \<Rightarrow>
          if res_Ants st = 0 \<or> Start (res_Graph st) = None \<or> End (res_Graph st) = None
          then Inl (errInvalid @ '', missing essential data'')
          else Inr \<lparr>Ants = res_Ants st, RGraph = res_Graph st, OriginalLines = lines st\<rparr>)"

text \<open>A comment line begins with \<open>#\<close> but not with \<open>##\<close>.\<close>

definition is_comment :: "string \<Rightarrow> bool" where
  "is_comment l = (HasPrefix l ''#'' \<and> \<not> HasPrefix l ''##'')"


section \<open>The scheduler (package scheduler)\<close>

subsection \<open>The (L-1) pre-allocation\<close>

text \<open>Go's \<open>int\<close> arithmetic: the result of \<open>+\<close>, \<open>-\<close> and \<open>++\<close> on 64-bit integers, which wraps
  around (two's complement).\<close>

definition wrap64 :: "int \<Rightarrow> int" where
  "wrap64 i = (i + 2 ^ 63) mod 2 ^ 64 - 2 ^ 63"

text \<open>The inner loop of the search for \<open>T\<close>: the sum of \<open>T - (L - 1)\<close> over the paths
  with \<open>T > L - 1\<close>.\<close>

definition sum_over :: "int \<Rightarrow> int list \<Rightarrow> int" where
  "sum_over T lens =
     foldl (\<lambda>sum L. let base = wrap64 (L - 1)
                     in if T > base then wrap64 (sum + wrap64 (T - base)) else sum) 0 lens"

text \<open>The outer loop \<open>for { ...; if sum >= ants { break }; T++ }\<close>. It has no bound of its
  own, so it is a partial function: \<open>None\<close> is a run that never leaves the loop.\<close>

partial_function (option) find_T :: "int \<Rightarrow> int list \<Rightarrow> int \<Rightarrow> int option" where
  "find_T ants lens T =
     (if sum_over T lens \<ge> ants then Some T else find_T ants lens (wrap64 (T + 1)))"

declare find_T.simps [code]

text \<open>The first allocation loop: each path takes \<open>max 0 (T - (L - 1))\<close> ants, cut down to
  what remains; the result is the counts and the remainder.\<close>

fun take_counts :: "int \<Rightarrow> int \<Rightarrow> int list \<Rightarrow> int list \<times> int" where
  "take_counts T remain [] = ([], remain)"
| "take_counts T remain (L # Ls) =
     (let base = wrap64 (L - 1);
          take = (if T > base then wrap64 (T - base) else 0);
          take = (if take > remain then remain else take);
          (cs, r) = take_counts T (wrap64 (remain - take)) Ls
      in (take # cs, r))"

text \<open>The second loop hands any remainder out one by one from the left.\<close>

fun leftovers :: "int list \<Rightarrow> int \<Rightarrow> int list" where
  "leftovers [] remain = []"
| "leftovers (c # cs) remain =
     (if remain > 0 then wrap64 (c + 1) # leftovers cs (wrap64 (remain - 1)) else c # cs)"

text \<open>The pre-allocation as a whole: the turn count \<open>T\<close> and \<open>counts\<close>. Reading
  \<open>lens[0]\<close> of an empty slice panics (\<open>None\<close>); \<open>Run\<close> returns before that.\<close>

definition preallocate :: "int \<Rightarrow> int list \<Rightarrow> (int \<times> int list) option" where
  "preallocate ants lens =
     (case lens of
        [] \<Rightarrow> None
      | L0 # _ \<Rightarrow>
          (case find_T ants lens (if wrap64 (L0 - 1) < 0 then 0 else wrap64 (L0 - 1)) of
             None \<Rightarrow> None
           | Some T \<Rightarrow>
               let (cs, remain) = take_counts T ants lens in Some (T, leftovers cs remain)))"

text \<open>The queues: ant ids from \<open>id\<close> on (here \<open>nid\<close>), \<open>counts[i]\<close> of them for
  path \<open>i\<close>.\<close>

fun materialise :: "int list \<Rightarrow> int \<Rightarrow> int list list" where
  "materialise [] nid = []"
| "materialise (c # cs) nid =
     [nid..nid + c - 1] # materialise cs (if c > 0 then nid + c else nid)"

subsection \<open>The simulation\<close>

text \<open>\<open>fmt.Sprintf("%d", n)\<close>.\<close>

fun nat_str :: "nat \<Rightarrow> string" where
  "nat_str n = (if n < 10 then [char_of (48 + n)]
                else nat_str (n div 10) @ [char_of (48 + n mod 10)])"

definition int_str :: "int \<Rightarrow> string" where
  "int_str i = (if i < 0 then CHR ''-'' # nat_str (nat (- i)) else nat_str (nat i))"

definition move_str :: "int \<Rightarrow> string \<Rightarrow> string" where
  "move_str antID room = ''L'' @ int_str antID @ ''-'' @ room"

text \<open>\<open>strings.Join(moves, " ")\<close>.\<close>

fun Join :: "string list \<Rightarrow> string" where
  "Join [] = []"
| "Join [m] = m"
| "Join (m # ms) = m @ '' '' @ Join ms"

record AntState =
  ID :: int
  PathIdx :: nat
  Pos :: int

text \<open>
  The state of the simulation. \<open>occupied\<close> is the Go map from room names to ant ids; a
  missing key reads as 0. \<open>antsState\<close> is the Go map from ant ids to (pointers to) ant
  states, held as an association list with one entry per key.
\<close>

record sim =
  occupied :: "string \<rightharpoonup> int"
  antsState :: "(int \<times> AntState) list"
  waitQueues :: "int list list"
  finished :: int
  moves :: "string list"

definition occ :: "sim \<Rightarrow> string \<Rightarrow> int" where
  "occ s r = (case occupied s r of None \<Rightarrow> 0 | Some a \<Rightarrow> a)"

definition set_ant :: "int \<Rightarrow> AntState \<Rightarrow> (int \<times> AntState) list \<Rightarrow> (int \<times> AntState) list" where
  "set_ant k a al =
     (if k \<in> set (map fst al) then map (\<lambda>(k', a'). if k' = k then (k', a) else (k', a')) al
      else al @ [(k, a)])"

fun fold_opt :: "('a \<Rightarrow> 's \<Rightarrow> 's option) \<Rightarrow> 'a list \<Rightarrow> 's \<Rightarrow> 's option" where
  "fold_opt f [] s = Some s"
| "fold_opt f (x # xs) s = (case f x s of None \<Rightarrow> None | Some s' \<Rightarrow> fold_opt f xs s')"

text \<open>
  The map \<open>posToAnt\<close> of one path, filled by a loop over \<open>antsState\<close>. Go visits a map in
  an order of its own choosing; \<open>as\<close> is the list of ant states in the order visited.
\<close>

definition build_posToAnt :: "nat \<Rightarrow> AntState list \<Rightarrow> (int \<rightharpoonup> int)" where
  "build_posToAnt pi as =
     fold (\<lambda>a m. if PathIdx a = pi \<and> Pos a > 0 then m(Pos a \<mapsto> ID a) else m) as Map.empty"

text \<open>The body of the loop over positions in phase 1. \<open>None\<close> is a panic: the nil
  dereference of a missing ant state or an index outside \<open>p.Rooms\<close>.\<close>

definition advance ::
  "string \<Rightarrow> string \<Rightarrow> Path \<Rightarrow> (int \<rightharpoonup> int) \<Rightarrow> int \<Rightarrow> sim \<Rightarrow> sim option" where
  "advance startName endName p posToAnt pos s =
     (case posToAnt pos of
        None \<Rightarrow> Some s
      | Some antID \<Rightarrow>
          (case map_of (antsState s) antID of
             None \<Rightarrow> None
           | Some as \<Rightarrow>
               if Pos as < 0 \<or> int (length (PRooms p)) \<le> Pos as + 1 then None
               else
                 let curRoom = PRooms p ! nat (Pos as);
                     nextRoom = PRooms p ! nat (Pos as + 1);
                     nextFree = (nextRoom = endName \<or> occ s nextRoom = 0)
                 in if nextFree then
                      let s1 = (if curRoom \<noteq> startName \<and> curRoom \<noteq> endName
                                then s\<lparr>occupied := (occupied s)(curRoom \<mapsto> 0)\<rparr> else s);
                          s2 = (if nextRoom \<noteq> startName \<and> nextRoom \<noteq> endName
                                then s1\<lparr>occupied := (occupied s1)(nextRoom \<mapsto> antID)\<rparr> else s1);
                          s3 = s2\<lparr>antsState := set_ant antID (as\<lparr>Pos := Pos as + 1\<rparr>) (antsState s2),
                                  moves := moves s2 @ [move_str antID nextRoom]\<rparr>
                      in Some (if nextRoom = endName then s3\<lparr>finished := finished s3 + 1\<rparr> else s3)
                    else Some s))"

text \<open>Phase 1 for one path: positions \<open>Length - 1\<close> down to \<open>0\<close>. \<open>visit\<close> gives the
  order in which the map \<open>antsState\<close> is visited.\<close>

definition positions :: "Path \<Rightarrow> int list" where
  "positions p = map int (rev [0..<nat (Length p)])"

definition move_path ::
  "((int \<times> AntState) list \<Rightarrow> (int \<times> AntState) list) \<Rightarrow> string \<Rightarrow> string
     \<Rightarrow> nat \<times> Path \<Rightarrow> sim \<Rightarrow> sim option" where
  "move_path visit startName endName ip s =
     (case ip of (pi, p) \<Rightarrow>
        fold_opt (advance startName endName p (build_posToAnt pi (map snd (visit (antsState s)))))
          (positions p) s)"

text \<open>The body of the loop of phase 2.\<close>

definition dispatch :: "string \<Rightarrow> string \<Rightarrow> nat \<times> Path \<Rightarrow> sim \<Rightarrow> sim option" where
  "dispatch startName endName ip s =
     (case ip of (pi, p) \<Rightarrow>
        if length (waitQueues s) \<le> pi then None
        else
          (case waitQueues s ! pi of
             [] \<Rightarrow> Some s
           | antID # rest \<Rightarrow>
               if length (PRooms p) = 2 then
                 Some (s\<lparr>waitQueues := (waitQueues s)[pi := rest],
                         moves := moves s @ [move_str antID endName],
                         finished := finished s + 1\<rparr>)
               else if length (PRooms p) < 2 then None
               else
                 let first = PRooms p ! 1
                 in if first = endName \<or> occ s first = 0 then
                      let s1 = s\<lparr>waitQueues := (waitQueues s)[pi := rest],
                                 antsState := set_ant antID \<lparr>ID = antID, PathIdx = pi, Pos = 1\<rparr>
                                                (antsState s)\<rparr>;
                          s2 = (if first \<noteq> startName \<and> first \<noteq> endName
                                then s1\<lparr>occupied := (occupied s1)(first \<mapsto> antID)\<rparr> else s1);
                          s3 = s2\<lparr>moves := moves s2 @ [move_str antID first]\<rparr>
                      in Some (if first = endName then s3\<lparr>finished := finished s3 + 1\<rparr> else s3)
                    else Some s))"

text \<open>
  One turn: phase 1 over the paths in order, then phase 2 over the paths in order. The
  order in which Go visits \<open>antsState\<close> may differ from one loop to the next; \<open>visit t pi\<close>
  is the order taken in turn \<open>t\<close> for path \<open>pi\<close>.
\<close>

type_synonym visit_order = "nat \<Rightarrow> nat \<Rightarrow> (int \<times> AntState) list \<Rightarrow> (int \<times> AntState) list"

definition turn :: "visit_order \<Rightarrow> string \<Rightarrow> string \<Rightarrow> Path list \<Rightarrow> nat \<Rightarrow> sim \<Rightarrow> sim option" where
  "turn visit startName endName paths t s =
     (case fold_opt (\<lambda>ip. move_path (visit t (fst ip)) startName endName ip)
             (enumerate 0 paths) (s\<lparr>moves := []\<rparr>) of
        None \<Rightarrow> None
      | Some s1 \<Rightarrow> fold_opt (dispatch startName endName) (enumerate 0 paths) s1)"

text \<open>The loop \<open>for finished < ants\<close>; the result is the lines printed. \<open>None\<close> is a
  panic or a run that never ends.\<close>

partial_function (option) run_loop ::
  "visit_order \<Rightarrow> string \<Rightarrow> string \<Rightarrow> Path list \<Rightarrow> int \<Rightarrow> nat \<Rightarrow> sim \<Rightarrow> string list
     \<Rightarrow> string list option" where
  "run_loop visit startName endName paths ants t s out =
     (if finished s < ants then
        (case turn visit startName endName paths t s of
           None \<Rightarrow> None
         | Some s' \<Rightarrow>
             if moves s' \<noteq> [] then
               run_loop visit startName endName paths ants (Suc t) s' (out @ [Join (moves s')])
             else Some out)
      else Some out)"

declare run_loop.simps [code]

definition init_sim :: "int list list \<Rightarrow> sim" where
  "init_sim assigned =
     \<lparr>occupied = Map.empty, antsState = [], waitQueues = assigned, finished = 0, moves = []\<rparr>"

text \<open>
  The state at the end of turn \<open>k\<close> (\<open>k = 0\<close>: before the first turn), if the loop gets
  that far: the loop goes on while \<open>finished < ants\<close> and the turn before made a move.
\<close>

fun sim_after ::
  "visit_order \<Rightarrow> string \<Rightarrow> string \<Rightarrow> Path list \<Rightarrow> int \<Rightarrow> sim \<Rightarrow> nat \<Rightarrow> sim option" where
  "sim_after visit startName endName paths ants s0 0 = Some s0"
| "sim_after visit startName endName paths ants s0 (Suc k) =
     (case sim_after visit startName endName paths ants s0 k of
        None \<Rightarrow> None
      | Some s \<Rightarrow>
          if finished s < ants \<and> (k = 0 \<or> moves s \<noteq> [])
          then turn visit startName endName paths k s else None)"

text \<open>
  \<open>Run\<close>. \<open>sort.Slice\<close> belongs to the Go library and is not stable; it is the parameter
  \<open>sortSlice\<close>, of which the proofs assume that it sorts by \<open>Length\<close>. The result is the
  list of lines printed.
\<close>

definition Run_setup ::
  "(Path list \<Rightarrow> Path list) \<Rightarrow> int \<Rightarrow> Path list \<Rightarrow> Graph
     \<Rightarrow> (string \<times> string \<times> Path list \<times> sim) option" where
  "Run_setup sortSlice ants paths g =
     (let paths = sortSlice paths;
          lens = map Length paths
      in case preallocate ants lens of
           None \<Rightarrow> None
         | Some (T, counts) \<Rightarrow>
             (case (Start g, End g) of
                (Some startName, Some endName) \<Rightarrow>
                  Some (startName, endName, paths, init_sim (materialise counts 1))
              | _ \<Rightarrow> None))"

definition Run ::
  "(Path list \<Rightarrow> Path list) \<Rightarrow> visit_order \<Rightarrow> int \<Rightarrow> Path list \<Rightarrow> Graph
     \<Rightarrow> string list option" where
  "Run sortSlice visit ants paths g =
     (if ants \<le> 0 \<or> paths = [] then Some []
      else
        (case Run_setup sortSlice ants paths g of
           None \<Rightarrow> None
         | Some (startName, endName, paths, s0) \<Rightarrow>
             run_loop visit startName endName paths ants 0 s0 []))"

text \<open>The states of \<open>Run\<close> at the turn boundaries.\<close>

definition Run_after ::
  "(Path list \<Rightarrow> Path list) \<Rightarrow> visit_order \<Rightarrow> int \<Rightarrow> Path list \<Rightarrow> Graph \<Rightarrow> nat
     \<Rightarrow> sim option" where
  "Run_after sortSlice visit ants paths g k =
     (if ants \<le> 0 \<or> paths = [] then None
      else
        (case Run_setup sortSlice ants paths g of
           None \<Rightarrow> None
         | Some (startName, endName, paths, s0) \<Rightarrow>
             sim_after visit startName endName paths ants s0 k))"


section \<open>The path extractor (package path)\<close>

subsection \<open>The residual graph\<close>

text \<open>
  A half-edge of the residual graph; \<open>rev\<close> of the source is \<open>rev_e\<close> here. Nodes and
  positions in adjacency lists are indices, hence natural numbers.
\<close>

record edge =
  to :: nat
  rev_e :: nat
  cap :: int
  flow :: int

type_synonym rgraph = "edge list list"

definition INF_cap :: int where
  "INF_cap = 1000000"

text \<open>\<open>addEdge\<close>: the forward half-edge at \<open>u\<close> and the reverse half-edge at \<open>v\<close>, each
  holding the position of the other. (Its callers pass nodes below \<open>2 * N\<close> only.)\<close>

definition addEdge :: "nat \<Rightarrow> nat \<Rightarrow> int \<Rightarrow> rgraph \<Rightarrow> rgraph" where
  "addEdge u v c graph =
     (let g1 = graph[u := graph ! u @ [\<lparr>to = v, rev_e = length (graph ! v), cap = c, flow = 0\<rparr>]]
      in g1[v := g1 ! v @ [\<lparr>to = u, rev_e = length (g1 ! u) - 1, cap = 0, flow = 0\<rparr>]])"

text \<open>The map \<open>idOf\<close>, filled by a loop over the sorted names; a name that is not a key
  reads as 0.\<close>

definition idOf_map :: "string list \<Rightarrow> (string \<rightharpoonup> nat)" where
  "idOf_map names = fold (\<lambda>(i, nm) m. m(nm \<mapsto> i)) (enumerate 0 names) Map.empty"

definition idOf :: "string list \<Rightarrow> string \<Rightarrow> nat" where
  "idOf names name = (case idOf_map names name of None \<Rightarrow> 0 | Some i \<Rightarrow> i)"

definition inIdx :: "string list \<Rightarrow> string \<Rightarrow> nat" where
  "inIdx names name = 2 * idOf names name"

definition outIdx :: "string list \<Rightarrow> string \<Rightarrow> nat" where
  "outIdx names name = 2 * idOf names name + 1"

text \<open>The keys of \<open>g.Rooms\<close>, sorted.\<close>

definition room_names :: "Graph \<Rightarrow> string list" where
  "room_names g = sort (map fst (Rooms g))"

text \<open>The first loop: one edge \<open>v_in \<rightarrow> v_out\<close> per room, of capacity 1, or \<open>INF\<close> (here \<open>INF_cap\<close>) for the
  start and the end room.\<close>

definition add_room_edges :: "string list \<Rightarrow> string \<Rightarrow> string \<Rightarrow> rgraph \<Rightarrow> rgraph" where
  "add_room_edges names startName endName graph =
     fold (\<lambda>nm gr.
             let capacity = (if nm = startName \<or> nm = endName then INF_cap else 1)
             in addEdge (inIdx names nm) (outIdx names nm) capacity gr)
       names graph"

text \<open>The second loop: for each room, in name order, one edge \<open>u_out \<rightarrow> v_in\<close> of capacity 1
  per neighbour, the neighbours in name order. A name that is not a key of \<open>g.Rooms\<close> would
  be a nil dereference; \<open>names\<close> holds keys only, so the room is always found.\<close>

definition links_of :: "Graph \<Rightarrow> string \<Rightarrow> string list" where
  "links_of g nm = (case map_of (Rooms g) nm of None \<Rightarrow> [] | Some u \<Rightarrow> Links u)"

definition add_link_edges :: "Graph \<Rightarrow> string list \<Rightarrow> rgraph \<Rightarrow> rgraph" where
  "add_link_edges g names graph =
     fold (\<lambda>nm gr.
             let nbs = sort (links_of g nm)
             in fold (\<lambda>vn gr'. addEdge (outIdx names nm) (inIdx names vn) 1 gr') nbs gr)
       names graph"

definition build_residual :: "Graph \<Rightarrow> string list \<Rightarrow> string \<Rightarrow> string \<Rightarrow> rgraph" where
  "build_residual g names startName endName =
     add_link_edges g names
       (add_room_edges names startName endName (replicate (2 * length names) []))"

subsection \<open>Edmonds-Karp\<close>

text \<open>
  The array \<open>par\<close>: \<open>parentInfo{-1, -1}\<close> is \<open>None\<close>, \<open>parentInfo{u, ei}\<close> is
  \<open>Some (u, ei)\<close>. The entry of the source is \<open>parentInfo{source, -1}\<close>; both walks along
  \<open>par\<close> stop at the source before they read its entry, and the search only tests entries
  against \<open>-1\<close>, so its \<open>ei\<close> is never read and is given as 0.

  In every function below \<open>None\<close> is a panic (an index out of range, a nil dereference)
  or, for the loops without a bound, a run that does not end.
\<close>

type_synonym parents = "(nat \<times> nat) option list"

text \<open>The loop over the half-edges of the node \<open>u\<close> taken from the queue.\<close>

definition scan_step :: "nat \<Rightarrow> nat \<times> edge \<Rightarrow> parents \<times> nat list \<Rightarrow> (parents \<times> nat list) option" where
  "scan_step u ie pq =
     (case ie of (ei, e) \<Rightarrow> case pq of (par, q) \<Rightarrow>
        if length par \<le> to e then None
        else if par ! to e = None \<and> cap e - flow e > 0
             then Some (par[to e := Some (u, ei)], q @ [to e])
             else Some (par, q))"

definition scan_edges :: "rgraph \<Rightarrow> nat \<Rightarrow> parents \<times> nat list \<Rightarrow> (parents \<times> nat list) option" where
  "scan_edges graph u pq = fold_opt (scan_step u) (enumerate 0 (graph ! u)) pq"

text \<open>The loop \<open>for q.Len() > 0\<close>: the queue is a list, its front the head.\<close>

partial_function (option) bfs_loop :: "rgraph \<Rightarrow> nat \<Rightarrow> nat list \<Rightarrow> parents \<Rightarrow> parents option" where
  "bfs_loop graph sink q par =
     (case q of
        [] \<Rightarrow> Some par
      | u # q' \<Rightarrow>
          if u = sink then Some par
          else if length graph \<le> u then None
          else (case scan_edges graph u (par, q') of
                  None \<Rightarrow> None
                | Some (par', q'') \<Rightarrow> bfs_loop graph sink q'' par'))"

declare bfs_loop.simps [code]

definition bfs_search :: "rgraph \<Rightarrow> nat \<Rightarrow> nat \<Rightarrow> parents option" where
  "bfs_search graph source sink =
     (if length graph \<le> source then None
      else bfs_loop graph sink [source] ((replicate (length graph) None)[source := Some (source, 0)]))"

text \<open>The walk from the sink back to the source that computes the bottleneck.\<close>

partial_function (option) bneck_loop :: "rgraph \<Rightarrow> parents \<Rightarrow> nat \<Rightarrow> nat \<Rightarrow> int \<Rightarrow> int option" where
  "bneck_loop graph par source v bneck =
     (if v = source then Some bneck
      else if length par \<le> v then None
      else (case par ! v of
              None \<Rightarrow> None
            | Some (u, ei) \<Rightarrow>
                if length graph \<le> u \<or> length (graph ! u) \<le> ei then None
                else
                  let e = graph ! u ! ei
                  in bneck_loop graph par source u
                       (if cap e - flow e < bneck then cap e - flow e else bneck)))"

declare bneck_loop.simps [code]

text \<open>The walk that applies the augmentation.\<close>

definition push_flow :: "nat \<Rightarrow> nat \<Rightarrow> int \<Rightarrow> rgraph \<Rightarrow> rgraph option" where
  "push_flow u ei d graph =
     (if length graph \<le> u \<or> length (graph ! u) \<le> ei then None
      else
        let fe = graph ! u ! ei;
            g1 = graph[u := (graph ! u)[ei := fe\<lparr>flow := flow fe + d\<rparr>]]
        in if length g1 \<le> to fe \<or> length (g1 ! to fe) \<le> rev_e fe then None
           else
             let re = g1 ! to fe ! rev_e fe
             in Some (g1[to fe := (g1 ! to fe)[rev_e fe := re\<lparr>flow := flow re - d\<rparr>]]))"

partial_function (option) augment_loop :: "parents \<Rightarrow> nat \<Rightarrow> int \<Rightarrow> nat \<Rightarrow> rgraph \<Rightarrow> rgraph option" where
  "augment_loop par source bneck v graph =
     (if v = source then Some graph
      else if length par \<le> v then None
      else (case par ! v of
              None \<Rightarrow> None
            | Some (u, ei) \<Rightarrow>
                (case push_flow u ei bneck graph of
                   None \<Rightarrow> None
                 | Some graph' \<Rightarrow> augment_loop par source bneck u graph')))"

declare augment_loop.simps [code]

text \<open>The closure \<open>bfs\<close>: the graph after the augmentation and the flow pushed (0 when the
  sink was not reached).\<close>

definition bfs :: "rgraph \<Rightarrow> nat \<Rightarrow> nat \<Rightarrow> (rgraph \<times> int) option" where
  "bfs graph source sink =
     (case bfs_search graph source sink of
        None \<Rightarrow> None
      | Some par \<Rightarrow>
          if length par \<le> sink then None
          else if par ! sink = None then Some (graph, 0)
          else
            (case bneck_loop graph par source sink INF_cap of
               None \<Rightarrow> None
             | Some bneck \<Rightarrow>
                 if bneck \<le> 0 then Some (graph, 0)
                 else
                   (case augment_loop par source bneck sink graph of
                      None \<Rightarrow> None
                    | Some graph' \<Rightarrow> Some (graph', bneck))))"

text \<open>The main loop.\<close>

partial_function (option) ek_loop :: "nat \<Rightarrow> nat \<Rightarrow> int \<Rightarrow> rgraph \<Rightarrow> int \<Rightarrow> (rgraph \<times> int) option" where
  "ek_loop source sink maxPaths graph totalFlow =
     (case bfs graph source sink of
        None \<Rightarrow> None
      | Some (graph', pushed) \<Rightarrow>
          if pushed = 0 then Some (graph', totalFlow)
          else if maxPaths > 0 \<and> totalFlow + pushed \<ge> maxPaths then Some (graph', totalFlow + pushed)
          else ek_loop source sink maxPaths graph' (totalFlow + pushed))"

declare ek_loop.simps [code]

text \<open>The state of the main loop after \<open>k\<close> augmentations, if it gets that far.\<close>

fun ek_after :: "nat \<Rightarrow> nat \<Rightarrow> int \<Rightarrow> rgraph \<Rightarrow> nat \<Rightarrow> (rgraph \<times> int) option" where
  "ek_after source sink maxPaths graph 0 = Some (graph, 0)"
| "ek_after source sink maxPaths graph (Suc k) =
     (case ek_after source sink maxPaths graph k of
        None \<Rightarrow> None
      | Some (gr, tot) \<Rightarrow>
          if maxPaths > 0 \<and> tot \<ge> maxPaths \<and> 0 < k then None
          else (case bfs gr source sink of
                  None \<Rightarrow> None
                | Some (gr', pushed) \<Rightarrow> if pushed = 0 then None else Some (gr', tot + pushed)))"

subsection \<open>Reading the paths off the flow\<close>

definition roomNameOf :: "string list \<Rightarrow> nat \<Rightarrow> string" where
  "roomNameOf names idx = names ! (idx div 2)"

text \<open>\<open>sortedOuts[u]\<close>: the positions of the half-edges of \<open>u\<close>, ordered by the name of the
  room they lead to, then by position. The order is total on these pairs, so the result
  does not depend on how \<open>sort.Slice\<close> sorts. (Every \<open>e.to\<close> is a node \<open>addEdge\<close> was given,
  below \<open>2 * N\<close>, so \<open>names[idx/2]\<close> is in range.)\<close>

definition sortedOuts :: "string list \<Rightarrow> rgraph \<Rightarrow> nat \<Rightarrow> nat list" where
  "sortedOuts names graph u =
     map snd (sort (map (\<lambda>(ei, e). (roomNameOf names (to e), ei)) (enumerate 0 (graph ! u))))"

text \<open>\<open>consumeFlowAlong\<close>: \<open>Some (graph, None)\<close> is the result \<open>(-1, false)\<close>.\<close>

fun consume_first :: "nat \<Rightarrow> nat list \<Rightarrow> rgraph \<Rightarrow> (rgraph \<times> nat option) option" where
  "consume_first u [] graph = Some (graph, None)"
| "consume_first u (ei # eis) graph =
     (if length graph \<le> u \<or> length (graph ! u) \<le> ei then None
      else if flow (graph ! u ! ei) > 0 then
        (case push_flow u ei (- 1) graph of
           None \<Rightarrow> None
         | Some graph' \<Rightarrow> Some (graph', Some (to (graph ! u ! ei))))
      else consume_first u eis graph)"

definition consumeFlowAlong :: "(nat \<Rightarrow> nat list) \<Rightarrow> nat \<Rightarrow> rgraph \<Rightarrow> (rgraph \<times> nat option) option" where
  "consumeFlowAlong outs u graph = consume_first u (outs u) graph"

text \<open>The inner loop \<open>for cur != Ein\<close>; the result is the names gathered and the graph.\<close>

partial_function (option) trace_loop ::
  "string list \<Rightarrow> (nat \<Rightarrow> nat list) \<Rightarrow> string \<Rightarrow> nat \<Rightarrow> nat \<Rightarrow> string list \<Rightarrow> rgraph
     \<Rightarrow> (string list \<times> rgraph) option" where
  "trace_loop names outs endName Ein cur namePath graph =
     (if cur = Ein then Some (namePath, graph)
      else if length names \<le> cur div 2 then None
      else
        let vName = roomNameOf names cur;
            namePath = (if vName \<noteq> endName then namePath @ [vName] else namePath)
        in case consumeFlowAlong outs cur graph of
             None \<Rightarrow> None
           | Some (g1, None) \<Rightarrow> Some (namePath, g1)
           | Some (g1, Some next) \<Rightarrow>
               (case consumeFlowAlong outs next g1 of
                  None \<Rightarrow> None
                | Some (g2, None) \<Rightarrow> Some (namePath, g2)
                | Some (g2, Some next') \<Rightarrow> trace_loop names outs endName Ein next' namePath g2))"

declare trace_loop.simps [code]

text \<open>The outer loop. A path holds the names of its rooms (the pointers
  \<open>g.Rooms[nm]\<close>).\<close>

partial_function (option) trace_paths ::
  "string list \<Rightarrow> (nat \<Rightarrow> nat list) \<Rightarrow> string \<Rightarrow> string \<Rightarrow> nat \<Rightarrow> nat \<Rightarrow> int \<Rightarrow> rgraph
     \<Rightarrow> Path list \<Rightarrow> Path list option" where
  "trace_paths names outs startName endName source Ein maxPaths graph paths =
     (case consumeFlowAlong outs source graph of
        None \<Rightarrow> None
      | Some (g1, None) \<Rightarrow> Some paths
      | Some (g1, Some nextFromSource) \<Rightarrow>
          (case trace_loop names outs endName Ein nextFromSource [startName] g1 of
             None \<Rightarrow> None
           | Some (namePath, g2) \<Rightarrow>
               let roomPath = namePath @ [endName];
                   paths' = paths @ [\<lparr>PRooms = roomPath, Length = int (length roomPath) - 1\<rparr>]
               in if maxPaths > 0 \<and> int (length paths') \<ge> maxPaths then Some paths'
                  else trace_paths names outs startName endName source Ein maxPaths g2 paths'))"

declare trace_paths.simps [code]

text \<open>The first half of \<open>MultiPath\<close>: the residual graph after the main loop, and the
  total flow.\<close>

definition max_flow :: "Graph \<Rightarrow> int \<Rightarrow> (rgraph \<times> int) option" where
  "max_flow g maxPaths =
     (case (Start g, End g) of
        (Some startName, Some endName) \<Rightarrow>
          let names = room_names g
          in ek_loop (outIdx names startName) (inIdx names endName) maxPaths
               (build_residual g names startName endName) 0
      | _ \<Rightarrow> None)"

text \<open>\<open>MultiPath\<close>; the empty list is the nil slice.\<close>

definition MultiPath :: "Graph \<Rightarrow> int \<Rightarrow> Path list option" where
  "MultiPath g maxPaths =
     (case (Start g, End g) of
        (Some startName, Some endName) \<Rightarrow>
          if Rooms g = [] then Some []
          else
            (case max_flow g maxPaths of
               None \<Rightarrow> None
             | Some (graph, totalFlow) \<Rightarrow>
                 if totalFlow = 0 then Some []
                 else
                   let names = room_names g
                   in trace_paths names (sortedOuts names graph) startName endName
                        (outIdx names startName) (inIdx names endName) maxPaths graph [])
      | _ \<Rightarrow> Some [])"

section \<open>The program (package main)\<close>

text \<open>
  \<open>main\<close> from the lines of the input file on: the lines printed and the exit code. The
  scheduler is given the order in which Go visits its map of ant states and the library
  sort as parameters.
\<close>

definition noPathMsg :: string where
  "noPathMsg = ''ERROR: invalid data format, no path found''"

definition main_prog ::
  "(Path list \<Rightarrow> Path list) \<Rightarrow> visit_order \<Rightarrow> string list \<Rightarrow> (string list \<times> int) option" where
  "main_prog sortSlice visit input =
     (case Parse input of
        Inl err \<Rightarrow> Some ([err], 0)
      | Inr res \<Rightarrow>
          let echo = OriginalLines res @ [[]]
          in case MultiPath (RGraph res) 0 of
               None \<Rightarrow> None
             | Some paths \<Rightarrow>
                 if length paths = 0 then Some (echo @ [noPathMsg], 0)
                 else (case Run sortSlice visit (Ants res) paths (RGraph res) of
                         None \<Rightarrow> None
                       | Some printed \<Rightarrow> Some (echo @ printed, 0)))"


section \<open>Notions used to state the properties\<close>

text \<open>The number of ants a path of length \<open>L\<close> can take within \<open>T\<close> turns.\<close>

definition ants_within :: "int \<Rightarrow> int \<Rightarrow> int" where "ants_within T L = max 0 (T - (L - 1))"

text \<open>The room an ant is in: the room at its position on its path.\<close>

definition room_of :: "Path list \<Rightarrow> AntState \<Rightarrow> string" where
  "room_of paths a = PRooms (paths ! PathIdx a) ! nat (Pos a)"

text \<open>
  The invariant of the simulation: the ants under way have distinct, non-zero ids (each
  stored under its own id) and stand at a position of their path; an ant in an intermediate room is the one the occupancy
  table records there; the table has no entry for the start or the end room; the ants
  still waiting have distinct non-zero ids and are not under way.
\<close>

definition sim_inv :: "string \<Rightarrow> string \<Rightarrow> Path list \<Rightarrow> sim \<Rightarrow> bool" where
  "sim_inv sn en paths s =
     (distinct (map fst (antsState s))
      \<and> (\<forall>(i, a) \<in> set (antsState s).
            ID a = i \<and> i \<noteq> 0 \<and> PathIdx a < length paths \<and> 0 \<le> Pos a
            \<and> nat (Pos a) < length (PRooms (paths ! PathIdx a))
            \<and> (room_of paths a \<noteq> sn \<and> room_of paths a \<noteq> en
                 \<longrightarrow> occupied s (room_of paths a) = Some i))
      \<and> occupied s sn = None \<and> occupied s en = None
      \<and> distinct (concat (waitQueues s))
      \<and> (\<forall>i \<in> set (concat (waitQueues s)). i \<noteq> 0 \<and> i \<notin> fst ` set (antsState s)))"


text \<open>An order of visiting a Go map: each entry once.\<close>

definition visits_all :: "visit_order \<Rightarrow> bool" where
  "visits_all visit = (\<forall>t pi xs. mset (visit t pi xs) = mset xs)"


subsection \<open>Residual graphs\<close>

text \<open>The positions of the half-edges of a residual graph, the half-edge at a position,
  and the position \<open>graph[e.to][e.rev]\<close> of its partner.\<close>

definition half_edges :: "rgraph \<Rightarrow> (nat \<times> nat) set" where
  "half_edges gr = {(u, i). u < length gr \<and> i < length (gr ! u)}"

definition edge_at :: "rgraph \<Rightarrow> nat \<times> nat \<Rightarrow> edge" where
  "edge_at gr h = gr ! fst h ! snd h"

definition partner :: "rgraph \<Rightarrow> nat \<times> nat \<Rightarrow> nat \<times> nat" where
  "partner gr h = (to (edge_at gr h), rev_e (edge_at gr h))"

text \<open>A residual graph is well formed when the partner of every half-edge is a half-edge
  that leads back, the two point at each other, and no half-edge is a loop.\<close>

definition wf_graph :: "rgraph \<Rightarrow> bool" where
  "wf_graph gr = (\<forall>h \<in> half_edges gr.
       partner gr h \<in> half_edges gr \<and> partner gr (partner gr h) = h
       \<and> to (edge_at gr (partner gr h)) = fst h \<and> to (edge_at gr h) \<noteq> fst h)"

text \<open>What the augmentation never changes: targets, partners and capacities.\<close>

definition shape :: "rgraph \<Rightarrow> (nat \<times> nat \<times> int) list list" where
  "shape gr = map (map (\<lambda>e. (to e, rev_e e, cap e))) gr"

definition flow_at :: "rgraph \<Rightarrow> nat \<times> nat \<Rightarrow> int" where
  "flow_at gr h = flow (edge_at gr h)"

definition residual :: "rgraph \<Rightarrow> nat \<times> nat \<Rightarrow> int" where
  "residual gr h = cap (edge_at gr h) - flow (edge_at gr h)"

text \<open>The flow is skew-symmetric and within the capacities.\<close>

definition flow_ok :: "rgraph \<Rightarrow> bool" where
  "flow_ok gr = (\<forall>h \<in> half_edges gr.
       flow_at gr h \<le> cap (edge_at gr h) \<and> flow_at gr (partner gr h) = - flow_at gr h)"

text \<open>The net flow out of a node.\<close>

definition excess :: "rgraph \<Rightarrow> nat \<Rightarrow> int" where
  "excess gr u = sum_list (map flow (gr ! u))"

text \<open>Changing the flow of one half-edge.\<close>

definition set_flow :: "nat \<times> nat \<Rightarrow> int \<Rightarrow> rgraph \<Rightarrow> rgraph" where
  "set_flow h x gr = gr[fst h := (gr ! fst h)[snd h := (edge_at gr h)\<lparr>flow := x\<rparr>]]"


text \<open>
  The tree the search builds in \<open>par\<close>: \<open>tree_depth par source v d\<close> says that following
  \<open>par\<close> from \<open>v\<close> reaches the source after \<open>d\<close> steps.
\<close>

inductive tree_depth :: "parents \<Rightarrow> nat \<Rightarrow> nat \<Rightarrow> nat \<Rightarrow> bool" for par source where
  root: "tree_depth par source source 0"
| step: "v \<noteq> source \<Longrightarrow> v < length par \<Longrightarrow> par ! v = Some (u, ei)
          \<Longrightarrow> tree_depth par source u d \<Longrightarrow> tree_depth par source v (Suc d)"

text \<open>The half-edges met when following \<open>par\<close> for \<open>d\<close> steps from \<open>v\<close>.\<close>

fun chain_of :: "parents \<Rightarrow> nat \<Rightarrow> nat \<Rightarrow> (nat \<times> nat) list" where
  "chain_of par 0 v = []"
| "chain_of par (Suc d) v =
     (case par ! v of None \<Rightarrow> [] | Some (u, ei) \<Rightarrow> (u, ei) # chain_of par d u)"

text \<open>What the search leaves in \<open>par\<close>: every entry but that of the source names a
  half-edge with residual capacity that leads to the node, from a node other than the
  sink that has a place in the tree.\<close>

definition tree_ok :: "rgraph \<Rightarrow> nat \<Rightarrow> nat \<Rightarrow> parents \<Rightarrow> bool" where
  "tree_ok gr source sink par =
     (length par = length gr \<and> source < length gr \<and> par ! source \<noteq> None
      \<and> (\<forall>v < length gr. \<forall>u ei. v \<noteq> source \<and> par ! v = Some (u, ei)
            \<longrightarrow> (u, ei) \<in> half_edges gr \<and> to (edge_at gr (u, ei)) = v
                \<and> 0 < residual gr (u, ei) \<and> u \<noteq> sink
                \<and> (\<exists>d. tree_depth par source u d)))"

text \<open>The nodes found are closed under half-edges with residual capacity.\<close>

definition closed_under_residual :: "rgraph \<Rightarrow> parents \<Rightarrow> bool" where
  "closed_under_residual gr par =
     (\<forall>h \<in> half_edges gr. par ! fst h \<noteq> None \<and> 0 < residual gr h
          \<longrightarrow> par ! to (edge_at gr h) \<noteq> None)"

text \<open>The invariant of the loop of the search, with the queue \<open>q\<close>: the nodes in the
  queue have been found, and the nodes found that are no longer in the queue have all
  their successors found.\<close>

definition bfs_inv :: "rgraph \<Rightarrow> nat \<Rightarrow> nat \<Rightarrow> nat list \<Rightarrow> parents \<Rightarrow> bool" where
  "bfs_inv gr source sink q par =
     (tree_ok gr source sink par
      \<and> (\<forall>v \<in> set q. v < length gr \<and> par ! v \<noteq> None)
      \<and> (\<forall>h \<in> half_edges gr. par ! fst h \<noteq> None \<and> fst h \<notin> set q \<and> 0 < residual gr h
            \<longrightarrow> par ! to (edge_at gr h) \<noteq> None))"

text \<open>The same while the half-edges of \<open>u\<close> are scanned, the first \<open>i\<close> of them done.\<close>

definition scan_inv :: "rgraph \<Rightarrow> nat \<Rightarrow> nat \<Rightarrow> nat \<Rightarrow> nat \<Rightarrow> nat list \<Rightarrow> parents \<Rightarrow> bool" where
  "scan_inv gr source sink u i q par =
     (tree_ok gr source sink par
      \<and> (\<forall>v \<in> set q. v < length gr \<and> par ! v \<noteq> None)
      \<and> (\<forall>h \<in> half_edges gr. par ! fst h \<noteq> None \<and> fst h \<notin> set q \<and> 0 < residual gr h
            \<and> (fst h = u \<longrightarrow> snd h < i)
            \<longrightarrow> par ! to (edge_at gr h) \<noteq> None))"

definition unfound :: "parents \<Rightarrow> nat" where
  "unfound par = length (filter (\<lambda>p. p = None) par)"


subsection \<open>The node-split network\<close>

text \<open>
  What the construction gives, as far as the main loop needs it. Room \<open>i\<close> has the nodes
  \<open>2 * i\<close> (in) and \<open>2 * i + 1\<close> (out); the source is an out-node and the sink an in-node
  of different rooms. Capacities are not negative; of a half-edge and its partner one has
  capacity 0; a capacity above 1 occurs only on the room edges of the start room (out of
  \<open>source - 1\<close>) and of the end room (into \<open>sink + 1\<close>); and a half-edge with capacity
  leads from an in-node to its out-node, or from an out-node to an in-node.
\<close>

definition net_ok :: "nat \<Rightarrow> nat \<Rightarrow> rgraph \<Rightarrow> bool" where
  "net_ok source sink gr =
     (wf_graph gr \<and> odd source \<and> even sink \<and> source < length gr \<and> sink + 1 < length gr
      \<and> source \<noteq> sink + 1
      \<and> (\<forall>h \<in> half_edges gr.
            0 \<le> cap (edge_at gr h)
            \<and> (cap (edge_at gr h) = 0 \<or> cap (edge_at gr (partner gr h)) = 0)
            \<and> (1 < cap (edge_at gr h) \<longrightarrow> fst h = source - 1 \<or> to (edge_at gr h) = sink + 1)
            \<and> (0 < cap (edge_at gr h)
                 \<longrightarrow> (even (fst h) \<and> to (edge_at gr h) = fst h + 1)
                     \<or> (odd (fst h) \<and> even (to (edge_at gr h))))))"

text \<open>No flow passes the in-node of the start room or the out-node of the end room.\<close>

definition dead_ok :: "nat \<Rightarrow> nat \<Rightarrow> rgraph \<Rightarrow> bool" where
  "dead_ok source sink gr =
     (\<forall>h \<in> half_edges gr. fst h = source - 1 \<or> fst h = sink + 1 \<longrightarrow> flow_at gr h = 0)"

text \<open>Flow is conserved at every node but the source and the sink.\<close>

definition conserved :: "nat \<Rightarrow> nat \<Rightarrow> rgraph \<Rightarrow> bool" where
  "conserved source sink gr = (\<forall>x < length gr. x \<noteq> source \<and> x \<noteq> sink \<longrightarrow> excess gr x = 0)"

text \<open>The invariant of the main loop.\<close>

definition ek_inv :: "nat \<Rightarrow> nat \<Rightarrow> rgraph \<Rightarrow> bool" where
  "ek_inv source sink gr =
     (net_ok source sink gr \<and> flow_ok gr \<and> dead_ok source sink gr \<and> conserved source sink gr)"


text \<open>
  A residual graph built by adding the edges \<open>T\<close> (source node, target node, capacity)
  one after the other: it is well formed and carries no flow; every half-edge is the
  forward or the reverse half of an edge of \<open>T\<close>; and there are as many forward half-edges
  from \<open>a\<close> to \<open>b\<close> as \<open>T\<close> has edges from \<open>a\<close> to \<open>b\<close>.
\<close>

definition built_from :: "(nat \<times> nat \<times> int) list \<Rightarrow> rgraph \<Rightarrow> bool" where
  "built_from T gr =
     (wf_graph gr
      \<and> (\<forall>h \<in> half_edges gr.
            flow_at gr h = 0
            \<and> ((0 < cap (edge_at gr h) \<and> cap (edge_at gr (partner gr h)) = 0
                 \<and> (fst h, to (edge_at gr h), cap (edge_at gr h)) \<in> set T)
                \<or> (cap (edge_at gr h) = 0 \<and> 0 < cap (edge_at gr (partner gr h))
                   \<and> (to (edge_at gr h), fst h, cap (edge_at gr (partner gr h))) \<in> set T)))
      \<and> (\<forall>a < length gr. \<forall>b.
            length (filter (\<lambda>e. to e = b \<and> 0 < cap e) (gr ! a))
              = length (filter (\<lambda>t. fst t = a \<and> fst (snd t) = b) T)))"

text \<open>The edges the two loops of the construction add, in order.\<close>

definition room_triples :: "string list \<Rightarrow> string \<Rightarrow> string \<Rightarrow> (nat \<times> nat \<times> int) list" where
  "room_triples names startName endName =
     map (\<lambda>nm. (inIdx names nm, outIdx names nm,
                 if nm = startName \<or> nm = endName then INF_cap else 1)) names"

definition link_triples :: "Graph \<Rightarrow> string list \<Rightarrow> (nat \<times> nat \<times> int) list" where
  "link_triples g names =
     concat (map (\<lambda>nm. map (\<lambda>vn. (outIdx names nm, inIdx names vn, 1)) (sort (links_of g nm)))
               names)"

text \<open>
  A valid graph, as the parser builds it: one room per name, stored under its name; a
  start and an end room, different from each other; the links of a room are rooms of the
  graph other than itself, each once, and every link is listed at both ends.
\<close>

definition valid_graph :: "Graph \<Rightarrow> bool" where
  "valid_graph g =
     (distinct (map fst (Rooms g))
      \<and> (case (Start g, End g) of
            (Some sn, Some en) \<Rightarrow>
              sn \<noteq> en \<and> sn \<in> set (map fst (Rooms g)) \<and> en \<in> set (map fst (Rooms g))
          | _ \<Rightarrow> False)
      \<and> (\<forall>(nm, r) \<in> set (Rooms g).
            Name r = nm \<and> distinct (Links r) \<and> nm \<notin> set (Links r)
            \<and> (\<forall>l \<in> set (Links r).
                  case map_of (Rooms g) l of None \<Rightarrow> False | Some r' \<Rightarrow> nm \<in> set (Links r'))))"

text \<open>Adding a list of edges.\<close>

definition add_all :: "(nat \<times> nat \<times> int) list \<Rightarrow> rgraph \<Rightarrow> rgraph" where
  "add_all es gr = fold (\<lambda>t. addEdge (fst t) (fst (snd t)) (snd (snd t))) es gr"


subsection \<open>Reading the paths off the flow\<close>

text \<open>The network has no parallel edges: two half-edges with capacity from the same node
  to the same node are the same half-edge.\<close>

definition simple_net :: "rgraph \<Rightarrow> bool" where
  "simple_net gr =
     (\<forall>h \<in> half_edges gr. \<forall>k \<in> half_edges gr.
         fst h = fst k \<and> 0 < cap (edge_at gr h) \<and> 0 < cap (edge_at gr k)
         \<and> to (edge_at gr h) = to (edge_at gr k) \<longrightarrow> h = k)"

text \<open>What holds of the graph all through the tracing of the paths: the invariant of the
  main loop but for conservation, which the tracing breaks and restores.\<close>

definition trace_inv :: "nat \<Rightarrow> nat \<Rightarrow> rgraph \<Rightarrow> bool" where
  "trace_inv source sink gr =
     (net_ok source sink gr \<and> flow_ok gr \<and> dead_ok source sink gr \<and> simple_net gr)"

text \<open>\<open>consumes gr h gr'\<close>: \<open>gr'\<close> is \<open>gr\<close> with one unit of flow taken from the half-edge
  \<open>h\<close>, which carried flow, and given back to its partner.\<close>

definition consumes :: "rgraph \<Rightarrow> nat \<times> nat \<Rightarrow> rgraph \<Rightarrow> bool" where
  "consumes gr h gr' =
     (h \<in> half_edges gr \<and> 0 < flow_at gr h \<and> shape gr' = shape gr
      \<and> (\<forall>k \<in> half_edges gr. flow_at gr' k
             = (if k = h then flow_at gr k - 1
                else if k = partner gr h then flow_at gr k + 1 else flow_at gr k)))"

text \<open>No half-edge from \<open>a\<close> to \<open>b\<close> carries flow any more.\<close>

definition spent_edge :: "rgraph \<Rightarrow> nat \<Rightarrow> nat \<Rightarrow> bool" where
  "spent_edge gr a b =
     (\<forall>k \<in> half_edges gr. fst k = a \<and> to (edge_at gr k) = b \<longrightarrow> flow_at gr k \<le> 0)"

text \<open>\<open>gr'\<close> has the shape of \<open>gr\<close> and carries flow only where \<open>gr\<close> does.\<close>

definition below :: "rgraph \<Rightarrow> rgraph \<Rightarrow> bool" where
  "below gr gr' =
     (shape gr' = shape gr \<and> (\<forall>k \<in> half_edges gr. flow_at gr k \<le> 0 \<longrightarrow> flow_at gr' k \<le> 0))"

text \<open>The flow still to be consumed: it bounds the number of steps of the tracing.\<close>

definition posflow :: "rgraph \<Rightarrow> nat" where
  "posflow gr = (\<Sum>h \<in> half_edges gr. nat (flow_at gr h))"

text \<open>There is an edge of the network from \<open>u\<close> to \<open>v\<close>.\<close>

definition linked :: "rgraph \<Rightarrow> nat \<Rightarrow> nat \<Rightarrow> bool" where
  "linked gr u v =
     (\<exists>k \<in> half_edges gr. fst k = u \<and> to (edge_at gr k) = v \<and> 0 < cap (edge_at gr k))"

text \<open>\<open>walk gr u cs t\<close>: from the out-node \<open>u\<close> the network has edges to the first in-node
  of \<open>cs\<close>, from the out-node of each in-node of \<open>cs\<close> to the next, and from the last
  out-node to \<open>t\<close>.\<close>

fun walk :: "rgraph \<Rightarrow> nat \<Rightarrow> nat list \<Rightarrow> nat \<Rightarrow> bool" where
  "walk gr u [] t = linked gr u t"
| "walk gr u (c # cs) t = (linked gr u c \<and> walk gr (c + 1) cs t)"

text \<open>While a path is traced flow is conserved everywhere but at the source, the sink and
  the node \<open>cur\<close> the tracing stands at, which has one unit more going out than coming
  in.\<close>

definition surplus :: "nat \<Rightarrow> nat \<Rightarrow> rgraph \<Rightarrow> nat \<Rightarrow> bool" where
  "surplus source sink gr cur =
     (\<forall>x < length gr. x \<noteq> source \<and> x \<noteq> sink \<longrightarrow> excess gr x = (if x = cur then 1 else 0))"

text \<open>\<open>sortedOuts\<close> lists every position of every adjacency list.\<close>

definition outs_ok :: "(nat \<Rightarrow> nat list) \<Rightarrow> rgraph \<Rightarrow> bool" where
  "outs_ok outs gr = (\<forall>u < length gr. set (outs u) = {..<length (gr ! u)})"

text \<open>The path the tracing builds from the in-nodes \<open>cs\<close> it passes between the source
  and the sink.\<close>

definition path_of :: "string list \<Rightarrow> string \<Rightarrow> string \<Rightarrow> nat list \<Rightarrow> Path" where
  "path_of names sn en cs =
     \<lparr>PRooms = sn # map (roomNameOf names) cs @ [en], Length = int (length cs) + 1\<rparr>"

text \<open>The invariant of the outer loop of the tracing, for the in-nodes \<open>css\<close> of the paths
  found so far: no in-node occurs twice; each is the in-node of a room other than the start
  and the end room, and its room edge is spent; at most one path is the direct one, and
  then the edges from source to sink are spent; each path follows edges of the network.\<close>

definition paths_inv :: "nat \<Rightarrow> nat \<Rightarrow> rgraph \<Rightarrow> nat list list \<Rightarrow> bool" where
  "paths_inv source sink gr css =
     (distinct (concat css)
      \<and> (\<forall>c \<in> set (concat css). even c \<and> c < length gr \<and> c \<noteq> source - 1 \<and> c \<noteq> sink
             \<and> spent_edge gr c (c + 1))
      \<and> length (filter (\<lambda>cs. cs = []) css) \<le> 1
      \<and> ([] \<in> set css \<longrightarrow> spent_edge gr source sink)
      \<and> (\<forall>cs \<in> set css. walk gr source cs sink))"

text \<open>The edges of a path: the unordered pairs of consecutive rooms.\<close>

definition path_edges :: "Path \<Rightarrow> string set set" where
  "path_edges p = (\<lambda>(a, b). {a, b}) ` set (zip (PRooms p) (tl (PRooms p)))"

text \<open>A valid path from \<open>sn\<close> to \<open>en\<close>: it starts at \<open>sn\<close>, ends at \<open>en\<close>, visits no room
  twice, and its \<open>Length\<close> is the number of its edges.\<close>

definition valid_paths :: "string \<Rightarrow> string \<Rightarrow> Path list \<Rightarrow> bool" where
  "valid_paths sn en paths =
     (\<forall>p \<in> set paths. distinct (PRooms p) \<and> hd (PRooms p) = sn \<and> last (PRooms p) = en
         \<and> int (length (PRooms p)) = Length p + 1 \<and> 2 \<le> length (PRooms p))"

subsection \<open>Paths of the graph\<close>

text \<open>A path of the graph from \<open>sn\<close> to \<open>en\<close>, as the list of its rooms: at least two rooms,
  the first \<open>sn\<close>, the last \<open>en\<close>, no room twice, and each room linked to the next.\<close>

definition graph_path :: "Graph \<Rightarrow> string \<Rightarrow> string \<Rightarrow> string list \<Rightarrow> bool" where
  "graph_path g sn en q =
     (2 \<le> length q \<and> hd q = sn \<and> last q = en \<and> distinct q
      \<and> (\<forall>(a, b) \<in> set (zip q (tl q)). b \<in> set (links_of g a)))"

text \<open>A family of vertex-disjoint paths from \<open>sn\<close> to \<open>en\<close>: different paths of the graph,
  any two of which share no room but \<open>sn\<close> and \<open>en\<close>.\<close>

definition disjoint_paths :: "Graph \<Rightarrow> string \<Rightarrow> string \<Rightarrow> string list list \<Rightarrow> bool" where
  "disjoint_paths g sn en qs =
     ((\<forall>q \<in> set qs. graph_path g sn en q) \<and> distinct qs
      \<and> (\<forall>q \<in> set qs. \<forall>q' \<in> set qs. q \<noteq> q' \<longrightarrow> set q \<inter> set q' \<subseteq> {sn, en}))"

text \<open>The half-edge \<open>h\<close> of the network lies on the path \<open>q\<close>: it leads from the out-node of
  a room of \<open>q\<close> to the in-node of the next, or from the in-node to the out-node of an
  inner room of \<open>q\<close>.\<close>

definition crosses :: "string list \<Rightarrow> rgraph \<Rightarrow> string list \<Rightarrow> nat \<times> nat \<Rightarrow> bool" where
  "crosses names gr q h =
     ((\<exists>(a, b) \<in> set (zip q (tl q)).
          fst h = outIdx names a \<and> to (edge_at gr h) = inIdx names b)
      \<or> (\<exists>r \<in> set (butlast (tl q)).
          fst h = inIdx names r \<and> to (edge_at gr h) = outIdx names r))"

subsection \<open>The graph while it is parsed\<close>

text \<open>What holds of the graph after every line the parser accepts: one room per name,
  stored under its name; the links of a room are rooms other than itself, each once, and
  listed at both ends; the start and the end room, once set, are rooms of the graph and
  different from each other.\<close>

definition graph_ok :: "Graph \<Rightarrow> bool" where
  "graph_ok g =
     (distinct (map fst (Rooms g))
      \<and> (\<forall>nm r. map_of (Rooms g) nm = Some r \<longrightarrow>
            Name r = nm \<and> distinct (Links r) \<and> nm \<notin> set (Links r)
            \<and> (\<forall>l \<in> set (Links r). \<exists>r'. map_of (Rooms g) l = Some r' \<and> nm \<in> set (Links r')))
      \<and> (\<forall>s. Start g = Some s \<longrightarrow> map_of (Rooms g) s \<noteq> None)
      \<and> (\<forall>e. End g = Some e \<longrightarrow> map_of (Rooms g) e \<noteq> None)
      \<and> (\<forall>s e. Start g = Some s \<and> End g = Some e \<longrightarrow> s \<noteq> e))"

section \<open>Properties of the model and the parser\<close>

lemma parse_loop_append:
  "parse_loop st (xs @ ys) =
     (case parse_loop st xs of Inl e \<Rightarrow> Inl e | Inr st' \<Rightarrow> parse_loop st' ys)"
  by (induction xs arbitrary: st) (auto split: sum.splits)

lemma parse_line_lines:
  assumes "parse_line st l = Inr st'"
  shows "lines st' = lines st @ (if is_comment l then [] else [l])"
proof (cases "HasPrefix l ''#''")
  case True
  with assms show ?thesis
    by (auto simp: parse_line_def is_comment_def split: if_splits)
next
  case False
  with assms show ?thesis
    by (auto simp: parse_line_def is_comment_def Let_def
             split: if_splits option.splits prod.splits)
qed

lemma parse_loop_lines:
  "parse_loop st ls = Inr st' \<Longrightarrow>
     lines st' = lines st @ filter (\<lambda>l. \<not> is_comment l) ls"
proof (induction ls arbitrary: st)
  case Nil
  then show ?case by simp
next
  case (Cons l ls)
  then obtain st1 where s1: "parse_line st l = Inr st1" and s2: "parse_loop st1 ls = Inr st'"
    by (auto split: sum.splits)
  from parse_line_lines[OF s1] Cons.IH[OF s2] show ?case by simp
qed

lemma roomLineRe_not_hash:
  assumes "roomLineRe line \<noteq> None"
  shows "line \<noteq> [] \<and> \<not> HasPrefix line ''#''"
proof -
  from assms have nk: "name_ok (takeWhile (\<lambda>c. \<not> is_space c) line)"
    by (auto simp: roomLineRe_def Let_def split: if_splits)
  then obtain c cs where tw: "takeWhile (\<lambda>c. \<not> is_space c) line = c # cs" and c: "c \<noteq> CHR ''#''"
    by (auto simp: name_ok_def split: list.splits)
  from tw have ne: "line \<noteq> []" by auto
  then obtain d ds where l: "line = d # ds" by (cases line) auto
  with tw have "d = c" by (auto split: if_splits)
  with l c ne show ?thesis by (simp add: HasPrefix_def)
qed

text \<open>C10: \<open>AddRoom\<close> on a name that is already present returns the graph as it was,
  and the room stored under that name (its coordinates and links untouched).\<close>

theorem AddRoom_existing_unchanged:
  assumes "map_of (Rooms g) name = Some r"
  shows "AddRoom g name x y = (g, name) \<and> map_of (Rooms (fst (AddRoom g name x y))) name = Some r"
  using assms by (simp add: AddRoom_def)

theorem AddRoom_existing_unchanged_witness:
  "map_of (Rooms (fst (AddRoom NewGraph ''a'' 1 2))) ''a''
     = Some \<lparr>Name = ''a'', X = 1, Y = 2, Links = []\<rparr>
   \<and> AddRoom (fst (AddRoom NewGraph ''a'' 1 2)) ''a'' 7 8 = (fst (AddRoom NewGraph ''a'' 1 2), ''a'')
   \<and> map_of (Rooms (fst (AddRoom (fst (AddRoom NewGraph ''a'' 1 2)) ''a'' 7 8))) ''a''
        = Some \<lparr>Name = ''a'', X = 1, Y = 2, Links = []\<rparr>"
proof -
  have h: "map_of (Rooms (fst (AddRoom NewGraph ''a'' 1 2))) ''a''
             = Some \<lparr>Name = ''a'', X = 1, Y = 2, Links = []\<rparr>"
    by (simp add: AddRoom_def NewGraph_def put_room_def)
  from AddRoom_existing_unchanged[OF h, of 7 8] h show ?thesis by simp
qed

text \<open>C8, as the claim states it, fails: a comment line of an accepted input is not among
  the echoed lines.\<close>

theorem comment_not_echoed_counterexample:
  "Parse [''#note'', ''1'', ''##start'', ''a 0 0'', ''##end'', ''b 1 1'', ''a-b'']
     = Inr \<lparr>Ants = 1,
            RGraph = \<lparr>Rooms = [(''a'', \<lparr>Name = ''a'', X = 0, Y = 0, Links = [''b'']\<rparr>),
                                (''b'', \<lparr>Name = ''b'', X = 1, Y = 1, Links = [''a'']\<rparr>)],
                       Start = Some ''a'', End = Some ''b''\<rparr>,
            OriginalLines = [''1'', ''##start'', ''a 0 0'', ''##end'', ''b 1 1'', ''a-b'']\<rparr>"
  by code_simp

text \<open>C8, amended: the echoed lines of an accepted input are its lines without the comment
  lines (those that begin with \<open>#\<close> but not with \<open>##\<close>), in the order of the input.\<close>

theorem OriginalLines_drops_comments:
  assumes "Parse input = Inr r"
  shows "OriginalLines r = filter (\<lambda>l. \<not> is_comment l) input"
proof -
  from assms obtain st where st: "parse_loop init_pstate input = Inr st"
    and r: "OriginalLines r = lines st"
    by (auto simp: Parse_def split: sum.splits if_splits)
  from parse_loop_lines[OF st] r show ?thesis by (simp add: init_pstate_def)
qed

theorem OriginalLines_drops_comments_witness:
  "OriginalLines \<lparr>Ants = 1,
            RGraph = \<lparr>Rooms = [(''a'', \<lparr>Name = ''a'', X = 0, Y = 0, Links = [''b'']\<rparr>),
                                (''b'', \<lparr>Name = ''b'', X = 1, Y = 1, Links = [''a'']\<rparr>)],
                       Start = Some ''a'', End = Some ''b''\<rparr>,
            OriginalLines = [''1'', ''##start'', ''a 0 0'', ''##end'', ''b 1 1'', ''a-b'']\<rparr>
     = filter (\<lambda>l. \<not> is_comment l)
         [''1'', ''#rooms'', ''##start'', ''a 0 0'', ''##end'', ''b 1 1'', ''#links'', ''a-b'']"
proof -
  have h: "Parse [''1'', ''#rooms'', ''##start'', ''a 0 0'', ''##end'', ''b 1 1'', ''#links'', ''a-b'']
     = Inr \<lparr>Ants = 1,
            RGraph = \<lparr>Rooms = [(''a'', \<lparr>Name = ''a'', X = 0, Y = 0, Links = [''b'']\<rparr>),
                                (''b'', \<lparr>Name = ''b'', X = 1, Y = 1, Links = [''a'']\<rparr>)],
                       Start = Some ''a'', End = Some ''b''\<rparr>,
            OriginalLines = [''1'', ''##start'', ''a 0 0'', ''##end'', ''b 1 1'', ''a-b'']\<rparr>"
    by code_simp
  from OriginalLines_drops_comments[OF h] show ?thesis .
qed

text \<open>C9, as the claim states it, fails: an input with two \<open>##start\<close> lines before the
  one room they designate is accepted.\<close>

theorem repeated_start_marker_counterexample:
  "count_list [''1'', ''##start'', ''##start'', ''a 0 0'', ''##end'', ''b 1 1'', ''a-b''] ''##start'' = 2
   \<and> Parse [''1'', ''##start'', ''##start'', ''a 0 0'', ''##end'', ''b 1 1'', ''a-b'']
     = Inr \<lparr>Ants = 1,
            RGraph = \<lparr>Rooms = [(''a'', \<lparr>Name = ''a'', X = 0, Y = 0, Links = [''b'']\<rparr>),
                                (''b'', \<lparr>Name = ''b'', X = 1, Y = 1, Links = [''a'']\<rparr>)],
                       Start = Some ''a'', End = Some ''b''\<rparr>,
            OriginalLines = [''1'', ''##start'', ''##start'', ''a 0 0'', ''##end'', ''b 1 1'', ''a-b'']\<rparr>"
  by code_simp

text \<open>C9, amended: parsing fails whenever a room line is reached under a pending
  \<open>##start\<close> marker although a start room has been designated already, and likewise for
  \<open>##end\<close>; the check is made where a room is designated, not where a marker is read.\<close>

theorem second_designation_rejected:
  assumes pre: "parse_loop init_pstate pre = Inr st"
    and room: "phase st = ''rooms''" "roomLineRe line \<noteq> None"
    and again: "(pendingCommand st = ''##start'' \<and> Start (res_Graph st) \<noteq> None)
                \<or> (pendingCommand st = ''##end'' \<and> End (res_Graph st) \<noteq> None)"
  shows "\<exists>e. Parse (pre @ line # rest) = Inl e"
proof -
  from roomLineRe_not_hash[OF room(2)] have nh: "line \<noteq> []" "\<not> HasPrefix line ''#''"
    by auto
  from room(2) obtain nm xs ys where m: "roomLineRe line = Some (nm, xs, ys)" by auto
  have ph: "phase st \<noteq> ''ants''" using room(1) by simp
  have "\<exists>e. parse_line st line = Inl e"
  proof (cases "map_of (Rooms (res_Graph st)) nm")
    case None
    with again nh m room(1) show ?thesis
      by (auto simp: parse_line_def AddRoom_def Let_def)
  next
    case (Some a)
    with nh m room(1) show ?thesis
      by (auto simp: parse_line_def Let_def)
  qed
  then obtain e where "parse_line st line = Inl e" ..
  with pre have "parse_loop init_pstate (pre @ line # rest) = Inl e"
    by (simp add: parse_loop_append)
  then show ?thesis by (simp add: Parse_def)
qed

theorem second_designation_rejected_witness:
  "\<exists>e. Parse ([''1'', ''##start'', ''a 0 0'', ''##start''] @ ''b 1 1'' # [''##end'', ''c 2 2'', ''a-c'']) = Inl e"
proof -
  let ?st = "\<lparr>res_Ants = 1,
      res_Graph = \<lparr>Rooms = [(''a'', \<lparr>Name = ''a'', X = 0, Y = 0, Links = []\<rparr>)],
                    Start = Some ''a'', End = None\<rparr>,
      lines = [''1'', ''##start'', ''a 0 0'', ''##start''], phase = ''rooms'',
      pendingCommand = ''##start''\<rparr>"
  have pre: "parse_loop init_pstate [''1'', ''##start'', ''a 0 0'', ''##start''] = Inr ?st"
    by code_simp
  have ph: "phase ?st = ''rooms''" by simp
  have rl: "roomLineRe ''b 1 1'' \<noteq> None" by code_simp
  have ag: "(pendingCommand ?st = ''##start'' \<and> Start (res_Graph ?st) \<noteq> None)
            \<or> (pendingCommand ?st = ''##end'' \<and> End (res_Graph ?st) \<noteq> None)"
    by simp
  from second_designation_rejected[OF pre ph rl ag] show ?thesis .
qed

text \<open>A marker overwritten by the other marker before the next room is not an error
  either: the room is designated by the marker read last.\<close>

lemma overwritten_marker_accepted:
  "Parse [''1'', ''##start'', ''##end'', ''b 1 1'', ''##start'', ''a 0 0'', ''a-b'']
     = Inr \<lparr>Ants = 1,
            RGraph = \<lparr>Rooms = [(''b'', \<lparr>Name = ''b'', X = 1, Y = 1, Links = [''a'']\<rparr>),
                                (''a'', \<lparr>Name = ''a'', X = 0, Y = 0, Links = [''b'']\<rparr>)],
                       Start = Some ''a'', End = Some ''b''\<rparr>,
            OriginalLines = [''1'', ''##start'', ''##end'', ''b 1 1'', ''##start'', ''a 0 0'', ''a-b'']\<rparr>"
  by code_simp

section \<open>The parser builds valid graphs\<close>

lemma put_room_replace:
  "(\<lambda>(k', r'). if k' = k then (k', r) else (k', r')) = (\<lambda>p. if fst p = k then (k, r) else p)"
  by (auto simp: fun_eq_iff)

lemma put_room_map: "map_of (put_room k r al) = (map_of al)(k \<mapsto> r)"
proof (cases "k \<in> set (map fst al)")
  case True
  have "map_of (map (\<lambda>p. if fst p = k then (k, r) else p) al) x
          = (if x = k \<and> k \<in> fst ` set al then Some r else map_of al x)" for x
    by (induction al) (force simp: image_iff)+
  with True show ?thesis by (simp add: put_room_def put_room_replace fun_eq_iff)
next
  case False
  have "map_of (al @ [(k, r)]) x = ((map_of al)(k \<mapsto> r)) x" for x
  proof (cases "map_of al x")
    case None
    then show ?thesis by (simp add: map_add_def)
  next
    case (Some y)
    then have "x \<in> fst ` set al" by (metis map_of_eq_None_iff option.distinct(1))
    with False have "x \<noteq> k" by auto
    with Some show ?thesis by (simp add: map_add_def)
  qed
  with False show ?thesis by (simp add: put_room_def fun_eq_iff)
qed

lemma put_room_distinct:
  assumes "distinct (map fst al)"
  shows "distinct (map fst (put_room k r al))"
proof (cases "k \<in> set (map fst al)")
  case True
  have e: "map fst (map (\<lambda>p. if fst p = k then (k, r) else p) al) = map fst al"
    by (induction al) simp_all
  show ?thesis unfolding put_room_def put_room_replace if_P[OF True] e by (rule assms)
next
  case False
  with assms show ?thesis by (simp add: put_room_def)
qed

lemma graph_ok_valid:
  assumes ok: "graph_ok g" and se: "Start g = Some sn" "End g = Some en"
  shows "valid_graph g"
proof -
  from ok have d: "distinct (map fst (Rooms g))" by (simp add: graph_ok_def)
  from ok se have k: "map_of (Rooms g) sn \<noteq> None" "map_of (Rooms g) en \<noteq> None" "sn \<noteq> en"
    unfolding graph_ok_def by blast+
  then have keys: "sn \<in> set (map fst (Rooms g))" "en \<in> set (map fst (Rooms g))"
    by (simp_all add: map_of_eq_None_iff)
  have rooms: "Name r = nm \<and> distinct (Links r) \<and> nm \<notin> set (Links r)
            \<and> (\<forall>l \<in> set (Links r).
                  case map_of (Rooms g) l of None \<Rightarrow> False | Some r' \<Rightarrow> nm \<in> set (Links r'))"
    if "(nm, r) \<in> set (Rooms g)" for nm r
  proof -
    from that d have m: "map_of (Rooms g) nm = Some r" by simp
    with ok have a: "Name r = nm" "distinct (Links r)" "nm \<notin> set (Links r)"
      "\<forall>l \<in> set (Links r). \<exists>r'. map_of (Rooms g) l = Some r' \<and> nm \<in> set (Links r')"
      unfolding graph_ok_def by blast+
    from a(4) have "\<forall>l \<in> set (Links r).
                  case map_of (Rooms g) l of None \<Rightarrow> False | Some r' \<Rightarrow> nm \<in> set (Links r')"
      by (auto split: option.splits)
    with a(1,2,3) show ?thesis by simp
  qed
  show ?thesis unfolding valid_graph_def se using d keys k(3) rooms by auto
qed

lemma AddRoom_ok:
  assumes ok: "graph_ok g" and new: "map_of (Rooms g) name = None"
  shows "graph_ok (fst (AddRoom g name x y))" "snd (AddRoom g name x y) = name"
    "Start (fst (AddRoom g name x y)) = Start g" "End (fst (AddRoom g name x y)) = End g"
    "map_of (Rooms (fst (AddRoom g name x y))) name \<noteq> None"
    "Start g \<noteq> Some name" "End g \<noteq> Some name"
proof -
  let ?r = "\<lparr>Name = name, X = x, Y = y, Links = []\<rparr>"
  let ?g = "g\<lparr>Rooms := put_room name ?r (Rooms g)\<rparr>"
  have e: "AddRoom g name x y = (?g, name)" using new by (simp add: AddRoom_def)
  have m: "map_of (Rooms ?g) = (map_of (Rooms g))(name \<mapsto> ?r)" by (simp add: put_room_map)
  from ok have d: "distinct (map fst (Rooms g))"
    and rs: "\<And>nm r. map_of (Rooms g) nm = Some r \<Longrightarrow>
            Name r = nm \<and> distinct (Links r) \<and> nm \<notin> set (Links r)
            \<and> (\<forall>l \<in> set (Links r). \<exists>r'. map_of (Rooms g) l = Some r' \<and> nm \<in> set (Links r'))"
    and st: "\<And>s. Start g = Some s \<Longrightarrow> map_of (Rooms g) s \<noteq> None"
    and en: "\<And>e. End g = Some e \<Longrightarrow> map_of (Rooms g) e \<noteq> None"
    and ne: "\<And>s e. Start g = Some s \<Longrightarrow> End g = Some e \<Longrightarrow> s \<noteq> e"
    unfolding graph_ok_def by blast+
  show "Start g \<noteq> Some name" "End g \<noteq> Some name" using st en new by auto
  have "graph_ok ?g"
    unfolding graph_ok_def
  proof (intro conjI allI impI)
    show "distinct (map fst (Rooms ?g))" using put_room_distinct[OF d] by simp
  next
    fix nm r assume a: "map_of (Rooms ?g) nm = Some r"
    show "Name r = nm" "distinct (Links r)" "nm \<notin> set (Links r)"
      using a rs[of nm r] unfolding m by (auto split: if_splits)
    show "\<forall>l \<in> set (Links r). \<exists>r'. map_of (Rooms ?g) l = Some r' \<and> nm \<in> set (Links r')"
    proof
      fix l assume l: "l \<in> set (Links r)"
      with a have old: "map_of (Rooms g) nm = Some r" unfolding m by (auto split: if_splits)
      from rs[OF old] l obtain r' where r': "map_of (Rooms g) l = Some r'" "nm \<in> set (Links r')"
        by blast
      with new have "l \<noteq> name" by auto
      with r' show "\<exists>r'. map_of (Rooms ?g) l = Some r' \<and> nm \<in> set (Links r')"
        unfolding m by simp
    qed
  next
    fix s assume "Start ?g = Some s"
    then show "map_of (Rooms ?g) s \<noteq> None" using st[of s] unfolding m by simp
  next
    fix e assume "End ?g = Some e"
    then show "map_of (Rooms ?g) e \<noteq> None" using en[of e] unfolding m by simp
  next
    fix s e assume "Start ?g = Some s \<and> End ?g = Some e"
    then show "s \<noteq> e" using ne[of s e] by simp
  qed
  then show "graph_ok (fst (AddRoom g name x y))" by (simp add: e)
  show "snd (AddRoom g name x y) = name" by (simp add: e)
  show "Start (fst (AddRoom g name x y)) = Start g" "End (fst (AddRoom g name x y)) = End g"
    by (simp_all add: e)
  show "map_of (Rooms (fst (AddRoom g name x y))) name \<noteq> None"
    by (simp add: e put_room_map)
qed

lemma AddLink_ok:
  assumes ok: "graph_ok g" and al: "AddLink g a b = (g', True)"
  shows "graph_ok g'" "Start g' = Start g" "End g' = End g"
proof -
  from ok have d: "distinct (map fst (Rooms g))"
    and rs: "\<And>nm r. map_of (Rooms g) nm = Some r \<Longrightarrow>
            Name r = nm \<and> distinct (Links r) \<and> nm \<notin> set (Links r)
            \<and> (\<forall>l \<in> set (Links r). \<exists>r'. map_of (Rooms g) l = Some r' \<and> nm \<in> set (Links r'))"
    and st: "\<And>s. Start g = Some s \<Longrightarrow> map_of (Rooms g) s \<noteq> None"
    and en: "\<And>e. End g = Some e \<Longrightarrow> map_of (Rooms g) e \<noteq> None"
    and ne: "\<And>s e. Start g = Some s \<Longrightarrow> End g = Some e \<Longrightarrow> s \<noteq> e"
    unfolding graph_ok_def by blast+
  from al obtain ra rb where ra: "map_of (Rooms g) a = Some ra" and rb: "map_of (Rooms g) b = Some rb"
    by (cases "map_of (Rooms g) a"; cases "map_of (Rooms g) b") (auto simp: AddLink_def)
  from al ra rb have ab: "a \<noteq> b" and nb: "b \<notin> set (Links ra)"
    by (auto simp: AddLink_def split: if_splits)
  define ra' where "ra' = ra\<lparr>Links := Links ra @ [b]\<rparr>"
  define rb' where "rb' = rb\<lparr>Links := Links rb @ [a]\<rparr>"
  from al ra rb ab nb have g': "g' = g\<lparr>Rooms := put_room b rb' (put_room a ra' (Rooms g))\<rparr>"
    by (simp add: AddLink_def ra'_def rb'_def)
  have m: "map_of (Rooms g') = ((map_of (Rooms g))(a \<mapsto> ra'))(b \<mapsto> rb')"
    by (simp add: g' put_room_map)
  have na: "a \<notin> set (Links rb)"
  proof
    assume "a \<in> set (Links rb)"
    with rs[OF rb] obtain r' where "map_of (Rooms g) a = Some r'" "b \<in> set (Links r')" by blast
    with ra nb show False by simp
  qed
  note pa = rs[OF ra] and pb = rs[OF rb]
  have look: "\<exists>r'. map_of (Rooms g') l = Some r' \<and> set (Links r0) \<subseteq> set (Links r')"
    if "map_of (Rooms g) l = Some r0" for l r0
    using that ra rb unfolding m by (auto simp: ra'_def rb'_def)
  have old: "\<exists>r'. map_of (Rooms g') l = Some r' \<and> nm \<in> set (Links r')"
    if "map_of (Rooms g) nm = Some r" "l \<in> set (Links r)" for nm r l
  proof -
    from rs[OF that(1)] that(2) obtain r0 where "map_of (Rooms g) l = Some r0" "nm \<in> set (Links r0)"
      by blast
    with look[OF this(1)] show ?thesis by blast
  qed
  have ma: "map_of (Rooms g') a = Some ra'" and mb: "map_of (Rooms g') b = Some rb'"
    using ab unfolding m by simp_all
  have room: "Name r = nm \<and> distinct (Links r) \<and> nm \<notin> set (Links r)
            \<and> (\<forall>l \<in> set (Links r). \<exists>r'. map_of (Rooms g') l = Some r' \<and> nm \<in> set (Links r'))"
    if mr: "map_of (Rooms g') nm = Some r" for nm r
  proof -
    from mr have "(((map_of (Rooms g))(a \<mapsto> ra'))(b \<mapsto> rb')) nm = Some r" unfolding m .
    then consider (b) "nm = b" "r = rb'" | (a) "nm = a" "r = ra'"
      | (o) "nm \<noteq> a" "nm \<noteq> b" "map_of (Rooms g) nm = Some r"
      by (cases "nm = b"; cases "nm = a") auto
    then show ?thesis
    proof cases
      case b
      have "\<exists>r'. map_of (Rooms g') l = Some r' \<and> b \<in> set (Links r')" if "l \<in> set (Links rb')" for l
      proof (cases "l = a")
        case True
        with ma show ?thesis by (simp add: ra'_def)
      next
        case False
        with that have "l \<in> set (Links rb)" by (simp add: rb'_def)
        from old[OF rb this] show ?thesis .
      qed
      with pb na ab show ?thesis unfolding b by (auto simp: rb'_def)
    next
      case a
      have "\<exists>r'. map_of (Rooms g') l = Some r' \<and> a \<in> set (Links r')" if "l \<in> set (Links ra')" for l
      proof (cases "l = b")
        case True
        with mb show ?thesis by (simp add: rb'_def)
      next
        case False
        with that have "l \<in> set (Links ra)" by (simp add: ra'_def)
        from old[OF ra this] show ?thesis .
      qed
      with pa nb ab show ?thesis unfolding a by (auto simp: ra'_def)
    next
      case o
      from rs[OF o(3)] old[OF o(3)] show ?thesis by blast
    qed
  qed
  have dom: "map_of (Rooms g') k \<noteq> None" if "map_of (Rooms g) k \<noteq> None" for k
    using that unfolding m by simp
  have "graph_ok g'"
    unfolding graph_ok_def
  proof (intro conjI allI impI)
    show "distinct (map fst (Rooms g'))"
      unfolding g' using put_room_distinct[OF put_room_distinct[OF d]] by simp
  next
    fix nm r assume a: "map_of (Rooms g') nm = Some r"
    from room[OF a] show "Name r = nm" "distinct (Links r)" "nm \<notin> set (Links r)"
      "\<forall>l \<in> set (Links r). \<exists>r'. map_of (Rooms g') l = Some r' \<and> nm \<in> set (Links r')"
      by blast+
  next
    fix s assume "Start g' = Some s"
    then show "map_of (Rooms g') s \<noteq> None" using st[of s] dom by (simp add: g')
  next
    fix e assume "End g' = Some e"
    then show "map_of (Rooms g') e \<noteq> None" using en[of e] dom by (simp add: g')
  next
    fix s e assume "Start g' = Some s \<and> End g' = Some e"
    then show "s \<noteq> e" using ne[of s e] by (simp add: g')
  qed
  then show "graph_ok g'" .
  show "Start g' = Start g" "End g' = End g" by (simp_all add: g')
qed

lemma graph_ok_mark:
  assumes ok: "graph_ok g" and k: "map_of (Rooms g) name \<noteq> None"
  shows "Start g = None \<Longrightarrow> End g \<noteq> Some name \<Longrightarrow> graph_ok (g\<lparr>Start := Some name\<rparr>)"
    and "End g = None \<Longrightarrow> Start g \<noteq> Some name \<Longrightarrow> graph_ok (g\<lparr>End := Some name\<rparr>)"
  using ok k unfolding graph_ok_def by auto

lemma parse_line_ok:
  assumes ok: "graph_ok (res_Graph st)" and step: "parse_line st line = Inr st'"
  shows "graph_ok (res_Graph st')"
proof -
  let ?g = "res_Graph st"
  from step have ne: "line \<noteq> []" by (auto simp: parse_line_def)
  show ?thesis
  proof (cases "HasPrefix line ''#''")
    case True
    with step ne have "res_Graph st' = ?g"
      by (auto simp: parse_line_def split: if_splits)
    with ok show ?thesis by simp
  next
    case nh: False
    show ?thesis
    proof (cases "phase st = ''ants''")
      case True
      with step ne nh have "res_Graph st' = ?g"
        by (auto simp: parse_line_def Let_def split: if_splits prod.splits)
      with ok show ?thesis by simp
    next
      case na: False
      show ?thesis
      proof (cases "roomLineRe line \<noteq> None \<and> phase st = ''rooms''")
        case True
        then obtain name xs ys where rl: "roomLineRe line = Some (name, xs, ys)" by auto
        define x where "x = fst (Atoi xs)"
        define y where "y = fst (Atoi ys)"
        define g1 where "g1 = fst (AddRoom ?g name x y)"
        have pl: "parse_line st line =
            (if map_of (Rooms ?g) name \<noteq> None then Inl (errInvalid @ '', duplicate room'')
             else let (g, r) = AddRoom ?g name x y
                  in if pendingCommand st = ''##start'' then
                       (if Start g \<noteq> None then Inl (errInvalid @ '', multiple start'')
                        else Inr (st\<lparr>res_Graph := g\<lparr>Start := Some r\<rparr>, pendingCommand := [],
                                     lines := lines st @ [line]\<rparr>))
                     else if pendingCommand st = ''##end'' then
                       (if End g \<noteq> None then Inl (errInvalid @ '', multiple end'')
                        else Inr (st\<lparr>res_Graph := g\<lparr>End := Some r\<rparr>, pendingCommand := [],
                                     lines := lines st @ [line]\<rparr>))
                     else Inr (st\<lparr>res_Graph := g, pendingCommand := [],
                                  lines := lines st @ [line]\<rparr>))"
          using ne nh na True by (simp add: parse_line_def rl x_def y_def)
        from step have new: "map_of (Rooms ?g) name = None" unfolding pl by (simp split: if_splits)
        note ar = AddRoom_ok(1-5)[OF ok new, of x y, folded g1_def] AddRoom_ok(6,7)[OF ok new]
        have e: "AddRoom ?g name x y = (g1, name)" using ar(2) by (simp add: g1_def prod_eq_iff)
        show ?thesis
        proof (cases "pendingCommand st = ''##start''")
          case ps: True
          from step have s0: "Start g1 = None"
            and st': "st' = st\<lparr>res_Graph := g1\<lparr>Start := Some name\<rparr>, pendingCommand := [],
                                     lines := lines st @ [line]\<rparr>"
            unfolding pl e prod.case Let_def if_P[OF ps]
            using new by (simp_all split: if_splits)
          have "End g1 \<noteq> Some name" using ar(4,7) by simp
          from graph_ok_mark(1)[OF ar(1,5) s0 this] show ?thesis by (simp add: st')
        next
          case ns: False
          show ?thesis
          proof (cases "pendingCommand st = ''##end''")
            case pe: True
            from step have e0: "End g1 = None"
              and st': "st' = st\<lparr>res_Graph := g1\<lparr>End := Some name\<rparr>, pendingCommand := [],
                                     lines := lines st @ [line]\<rparr>"
              unfolding pl e prod.case Let_def if_not_P[OF ns] if_P[OF pe]
              using new by (simp_all split: if_splits)
            have "Start g1 \<noteq> Some name" using ar(3,6) by simp
            from graph_ok_mark(2)[OF ar(1,5) e0 this] show ?thesis by (simp add: st')
          next
            case npe: False
            from step have "st' = st\<lparr>res_Graph := g1, pendingCommand := [],
                                  lines := lines st @ [line]\<rparr>"
              unfolding pl e prod.case Let_def if_not_P[OF ns] if_not_P[OF npe]
              using new by (simp split: if_splits)
            with ar(1) show ?thesis by simp
          qed
        qed
      next
        case nr: False
        have pl: "parse_line st line =
            (case linkLineRe line of
               Some (a, b) \<Rightarrow>
                 if Start ?g = None \<or> End ?g = None
                 then Inl (errInvalid @ '', missing start or end'')
                 else
                   let (g, ok) = AddLink ?g a b
                   in if \<not> ok then Inl (errInvalid @ '', invalid link'')
                      else Inr (st\<lparr>res_Graph := g, phase := ''links'', lines := lines st @ [line]\<rparr>)
             | None \<Rightarrow>
                 if phase st = ''links'' then Inl (errInvalid @ '', expected link'')
                 else Inl (errInvalid @ '', unrecognized line''))"
        proof -
          have c: "(line = []) = False" "HasPrefix line ''#'' = False" "(phase st = ''ants'') = False"
            "(roomLineRe line \<noteq> None \<and> phase st = ''rooms'') = False"
            using ne nh na nr by simp_all
          show ?thesis unfolding parse_line_def c if_False by (rule refl)
        qed
        from step obtain a b where ll: "linkLineRe line = Some (a, b)"
          unfolding pl by (cases "linkLineRe line") (auto split: if_splits)
        obtain g okk where al: "AddLink ?g a b = (g, okk)" by fastforce
        from step have "okk" and st': "st' = st\<lparr>res_Graph := g, phase := ''links'',
                                          lines := lines st @ [line]\<rparr>"
          unfolding pl ll option.case prod.case al Let_def by (simp_all split: if_splits)
        with al have "AddLink ?g a b = (g, True)" by simp
        from AddLink_ok(1)[OF ok this] show ?thesis by (simp add: st')
      qed
    qed
  qed
qed

lemma parse_loop_ok:
  "graph_ok (res_Graph st) \<Longrightarrow> parse_loop st ls = Inr st' \<Longrightarrow> graph_ok (res_Graph st')"
proof (induction ls arbitrary: st)
  case Nil
  then show ?case by simp
next
  case (Cons l ls)
  from Cons.prems(2) obtain st1 where s: "parse_line st l = Inr st1" "parse_loop st1 ls = Inr st'"
    by (auto split: sum.splits)
  from Cons.IH[OF parse_line_ok[OF Cons.prems(1) s(1)] s(2)] show ?case .
qed

text \<open>The parser only lets valid graphs through.\<close>

lemma Parse_valid_graph:
  assumes "Parse input = Inr res"
  shows "valid_graph (RGraph res)"
proof -
  from assms obtain st where st: "parse_loop init_pstate input = Inr st"
    "Start (res_Graph st) \<noteq> None" "End (res_Graph st) \<noteq> None" "RGraph res = res_Graph st"
    by (auto simp: Parse_def split: sum.splits if_splits)
  have "graph_ok (res_Graph init_pstate)" by (simp add: init_pstate_def NewGraph_def graph_ok_def)
  from parse_loop_ok[OF this st(1)] have "graph_ok (res_Graph st)" .
  with st(2,3,4) show ?thesis by (auto intro: graph_ok_valid)
qed

section \<open>The pre-allocation\<close>

text \<open>Within the 64-bit range the arithmetic does not wrap.\<close>

lemma wrap64_id: "minInt \<le> i \<Longrightarrow> i \<le> maxInt \<Longrightarrow> wrap64 i = i"
  by (simp add: wrap64_def minInt_def maxInt_def)

lemma ants_within_nonneg: "0 \<le> ants_within T L" by (simp add: ants_within_def)
lemma ants_within_mono: "T \<le> T' \<Longrightarrow> ants_within T L \<le> ants_within T' L" by (simp add: ants_within_def)

lemma within_sum_nonneg: "0 \<le> sum_list (map (ants_within T) lens)"
  by (induction lens) (auto simp: ants_within_nonneg)

lemma within_sum_ge_hd: "ants_within T L0 \<le> sum_list (map (ants_within T) (L0 # Ls))"
  using within_sum_nonneg[of T Ls] by simp

lemma within_sum_step:
  "sum_list (map (ants_within (T + 1)) lens) \<le> sum_list (map (ants_within T) lens) + int (length lens)"
  by (induction lens) (auto simp: ants_within_def)

lemma within_sum_start:
  assumes "\<forall>L \<in> set lens. 0 \<le> L \<and> L0 \<le> L"
  shows "sum_list (map (ants_within (if L0 - 1 < 0 then 0 else L0 - 1)) lens) \<le> int (length lens)"
  using assms by (induction lens) (auto simp: ants_within_def)

text \<open>The sum the inner loop computes, as long as it stays in range.\<close>

lemma foldl_sum_over:
  assumes "\<forall>L \<in> set lens. 0 \<le> L \<and> L \<le> maxInt" "0 \<le> T" "T < maxInt" "0 \<le> a"
    and "a + sum_list (map (ants_within T) lens) \<le> maxInt"
  shows "foldl (\<lambda>sum L. let base = wrap64 (L - 1)
                        in if T > base then wrap64 (sum + wrap64 (T - base)) else sum) a lens
           = a + sum_list (map (ants_within T) lens)"
  using assms
proof (induction lens arbitrary: a)
  case Nil
  then show ?case by simp
next
  case (Cons L Ls)
  from Cons.prems(1) have L: "0 \<le> L" "L \<le> maxInt" by simp_all
  have base: "wrap64 (L - 1) = L - 1" using L by (intro wrap64_id) (simp_all add: minInt_def)
  note nn = within_sum_nonneg[of T Ls]
  show ?case
  proof (cases "T > L - 1")
    case True
    have d: "wrap64 (T - (L - 1)) = T - (L - 1)"
      using True L Cons.prems(2,3) by (intro wrap64_id) (simp_all add: minInt_def)
    have aw: "ants_within T L = T - (L - 1)" using True by (simp add: ants_within_def)
    have s: "wrap64 (a + (T - (L - 1))) = a + (T - (L - 1))"
      using True Cons.prems(4,5) nn aw by (intro wrap64_id) (simp_all add: minInt_def)
    have "0 \<le> a + (T - (L - 1))" using True Cons.prems(4) by simp
    moreover have "a + (T - (L - 1)) + sum_list (map (ants_within T) Ls) \<le> maxInt"
      using Cons.prems(5) aw by simp
    ultimately have "foldl (\<lambda>sum L. let base = wrap64 (L - 1)
                        in if T > base then wrap64 (sum + wrap64 (T - base)) else sum)
                       (a + (T - (L - 1))) Ls
           = a + (T - (L - 1)) + sum_list (map (ants_within T) Ls)"
      using Cons.IH Cons.prems(1,2,3) by simp
    then show ?thesis using True by (simp add: base d s aw Let_def)
  next
    case False
    then have aw: "ants_within T L = 0" by (simp add: ants_within_def)
    have "foldl (\<lambda>sum L. let base = wrap64 (L - 1)
                        in if T > base then wrap64 (sum + wrap64 (T - base)) else sum) a Ls
           = a + sum_list (map (ants_within T) Ls)"
      using Cons.IH Cons.prems aw by simp
    then show ?thesis using False by (simp add: base aw Let_def)
  qed
qed

lemma sum_over_eq:
  assumes "\<forall>L \<in> set lens. 0 \<le> L \<and> L \<le> maxInt" "0 \<le> T" "T < maxInt"
    and "sum_list (map (ants_within T) lens) \<le> maxInt"
  shows "sum_over T lens = sum_list (map (ants_within T) lens)"
  unfolding sum_over_def using foldl_sum_over[OF assms(1,2,3), of 0] assms(4) by simp

text \<open>The search for \<open>T\<close> ends, at the least \<open>T\<close> from its start on that lets all ants
  through, when the ant count leaves room below the top of the range: \<open>T\<close> stays below
  \<open>ants + L0\<close> and the sum below \<open>ants\<close> plus the number of paths.\<close>

lemma find_T_total:
  assumes rng: "\<forall>L \<in> set (L0 # Ls). 0 \<le> L \<and> L \<le> maxInt \<and> L0 \<le> L"
    and N: "0 < ants" and b1: "ants + L0 \<le> maxInt"
    and b2: "ants + int (length (L0 # Ls)) \<le> maxInt"
  shows "(if L0 - 1 < 0 then 0 else L0 - 1) \<le> T
     \<Longrightarrow> (T = (if L0 - 1 < 0 then 0 else L0 - 1)
          \<or> sum_list (map (ants_within (T - 1)) (L0 # Ls)) < ants)
     \<Longrightarrow> \<exists>T'. find_T ants (L0 # Ls) T = Some T' \<and> T \<le> T' \<and> T' < maxInt
           \<and> ants \<le> sum_list (map (ants_within T') (L0 # Ls))
           \<and> (\<forall>t. T \<le> t \<and> t < T' \<longrightarrow> sum_list (map (ants_within t) (L0 # Ls)) < ants)"
proof (induction "nat (ants + L0 - T)" arbitrary: T rule: less_induct)
  case less
  let ?S = "\<lambda>t. sum_list (map (ants_within t) (L0 # Ls))"
  let ?T0 = "if L0 - 1 < 0 then 0 else L0 - 1"
  note ge = less.prems(1) and st = less.prems(2)
  from rng have L0: "0 \<le> L0" by simp
  have rng': "\<forall>L \<in> set (L0 # Ls). 0 \<le> L \<and> L \<le> maxInt" using rng by simp
  have T0: "0 \<le> T" using ge by (simp split: if_splits)
  have Tb: "T < ants + L0"
  proof (cases "T = ?T0")
    case True then show ?thesis using N L0 by (simp split: if_splits)
  next
    case False
    with st have lt: "?S (T - 1) < ants" by simp
    have "ants_within (T - 1) L0 \<le> ?S (T - 1)" by (rule within_sum_ge_hd)
    with lt show ?thesis by (simp add: ants_within_def)
  qed
  with b1 have Tm: "T < maxInt" by simp
  have Sb: "?S T \<le> maxInt"
  proof (cases "T = ?T0")
    case True
    have "?S ?T0 \<le> int (length (L0 # Ls))"
      by (rule within_sum_start) (use rng in simp)
    with True b2 N show ?thesis by simp
  next
    case False
    with st have lt: "?S (T - 1) < ants" by simp
    from within_sum_step[of "T - 1" "L0 # Ls"] have "?S T \<le> ?S (T - 1) + int (length (L0 # Ls))"
      by simp
    with lt b2 show ?thesis by simp
  qed
  have so: "sum_over T (L0 # Ls) = ?S T" by (rule sum_over_eq[OF rng' T0 Tm Sb])
  show ?case
  proof (cases "ants \<le> ?S T")
    case True
    then have "find_T ants (L0 # Ls) T = Some T" by (subst find_T.simps) (simp add: so)
    with True Tm show ?thesis by auto
  next
    case False
    have w: "wrap64 (T + 1) = T + 1" using T0 Tm by (intro wrap64_id) (simp_all add: minInt_def)
    have m: "nat (ants + L0 - (T + 1)) < nat (ants + L0 - T)" using Tb by simp
    have ge': "?T0 \<le> T + 1" using ge by simp
    have st': "T + 1 = ?T0 \<or> ?S (T + 1 - 1) < ants" using False by simp
    from less.hyps[OF m ge' st'] obtain T' where
      T': "find_T ants (L0 # Ls) (T + 1) = Some T'" "T + 1 \<le> T'" "T' < maxInt" "ants \<le> ?S T'"
        "\<forall>t. T + 1 \<le> t \<and> t < T' \<longrightarrow> ?S t < ants"
      by (elim exE conjE)
    have "find_T ants (L0 # Ls) T = Some T'"
      using False T'(1) by (subst find_T.simps) (simp add: so w)
    moreover have "\<forall>t. T \<le> t \<and> t < T' \<longrightarrow> ?S t < ants"
    proof (intro allI impI)
      fix t assume "T \<le> t \<and> t < T'"
      then show "?S t < ants" using False T'(5) by (cases "t = T") auto
    qed
    ultimately show ?thesis using T'(2,3,4) by auto
  qed
qed

lemma take_counts_props:
  assumes "0 \<le> remain" "remain \<le> maxInt" "0 \<le> T" "T < maxInt"
    "\<forall>L \<in> set lens. 0 \<le> L \<and> L \<le> maxInt"
    "take_counts T remain lens = (cs, r)"
  shows "length cs = length lens \<and> 0 \<le> r \<and> sum_list cs + r = remain
         \<and> (\<forall>i < length lens. 0 \<le> cs ! i \<and> cs ! i \<le> ants_within T (lens ! i))
         \<and> (r > 0 \<longrightarrow> sum_list (map (ants_within T) lens) < remain)"
  using assms
proof (induction lens arbitrary: remain cs r)
  case Nil
  then show ?case by simp
next
  case (Cons L Ls)
  from Cons.prems(5) have L: "0 \<le> L" "L \<le> maxInt" by simp_all
  have base: "wrap64 (L - 1) = L - 1" using L by (intro wrap64_id) (simp_all add: minInt_def)
  have d: "T > L - 1 \<Longrightarrow> wrap64 (T - (L - 1)) = T - (L - 1)"
    using L Cons.prems(3,4) by (intro wrap64_id) (simp_all add: minInt_def)
  define tk where "tk = min (ants_within T L) remain"
  have tk: "(let base = wrap64 (L - 1); take = (if T > base then wrap64 (T - base) else 0) in
            (if take > remain then remain else take)) = tk"
    unfolding base Let_def using d by (auto simp: tk_def ants_within_def min_def max_def)
  have tk0: "0 \<le> tk" "tk \<le> remain" "tk \<le> ants_within T L"
    using Cons.prems(1) by (auto simp: tk_def ants_within_nonneg)
  have w: "wrap64 (remain - tk) = remain - tk"
    using tk0 Cons.prems(1,2) by (intro wrap64_id) (simp_all add: minInt_def)
  obtain cs' r' where rec: "take_counts T (remain - tk) Ls = (cs', r')" by fastforce
  have "take_counts T remain (L # Ls) = (tk # cs', r')"
    using tk rec w by (simp add: Let_def)
  with Cons.prems(6) have cs: "cs = tk # cs'" and r: "r = r'" by simp_all
  have r0: "0 \<le> remain - tk" "remain - tk \<le> maxInt" using tk0 Cons.prems(2) by simp_all
  have rl: "\<forall>L \<in> set Ls. 0 \<le> L \<and> L \<le> maxInt" using Cons.prems(5) by simp
  from Cons.IH[OF r0 Cons.prems(3,4) rl rec]
  have IH: "length cs' = length Ls" "0 \<le> r'" "sum_list cs' + r' = remain - tk"
    "\<forall>i < length Ls. 0 \<le> cs' ! i \<and> cs' ! i \<le> ants_within T (Ls ! i)"
    "r' > 0 \<longrightarrow> sum_list (map (ants_within T) Ls) < remain - tk"
    by auto
  have idx: "\<forall>i < length (L # Ls). 0 \<le> cs ! i \<and> cs ! i \<le> ants_within T ((L # Ls) ! i)"
    using IH(4) tk0 cs by (auto simp: nth_Cons split: nat.splits)
  have last: "r > 0 \<longrightarrow> sum_list (map (ants_within T) (L # Ls)) < remain"
  proof
    assume "r > 0"
    with r IH(5) have a: "sum_list (map (ants_within T) Ls) < remain - tk" by simp
    with within_sum_nonneg[of T Ls] have "tk < remain" by simp
    then have "tk = ants_within T L" by (simp add: tk_def)
    with a show "sum_list (map (ants_within T) (L # Ls)) < remain" by simp
  qed
  show ?case using IH cs r idx last by simp
qed

lemma leftovers_zero: "leftovers cs 0 = cs"
  by (cases cs) auto


text \<open>C3, as the claim states it, fails for a path that gets no ant: with lengths 1 and 10
  and one ant, \<open>T = 1\<close> and the second path takes nothing, but \<open>(10 - 1) + 0 > 1\<close>.\<close>

theorem preallocate_unused_path_counterexample:
  "preallocate 1 [1, 10] = Some (1, [1, 0]) \<and> \<not> ((10 - 1) + 0 \<le> (1 :: int))"
  by code_simp

text \<open>C3, amended: for lengths in ascending order (none negative, all within the 64-bit
  range) and \<open>N > 0\<close> ants, with \<open>N\<close> plus the shortest length and \<open>N\<close> plus the number of
  paths not above the largest 64-bit integer (so that the search for \<open>T\<close>, written with
  the wrap-around of Go's \<open>int\<close>, never wraps), the pre-allocation returns \<open>T\<close> and counts
  \<open>x\<^sub>i \<ge> 0\<close> with \<open>\<Sum> x\<^sub>i = N\<close>; every path that takes an ant has \<open>(L\<^sub>i - 1) + x\<^sub>i \<le> T\<close>; and
  \<open>T\<close> is least: every other assignment of the \<open>N\<close> ants has a used path with
  \<open>(L\<^sub>i - 1) + x'\<^sub>i \<ge> T\<close>.\<close>

theorem preallocate_optimal:
  assumes ne: "lens \<noteq> []" and srt: "sorted lens"
    and nn: "\<forall>L \<in> set lens. 0 \<le> L \<and> L \<le> maxInt" and N: "0 < N"
    and b1: "N + hd lens \<le> maxInt" and b2: "N + int (length lens) \<le> maxInt"
  shows "\<exists>T xs. preallocate N lens = Some (T, xs) \<and> length xs = length lens
           \<and> (\<forall>i < length lens. 0 \<le> xs ! i) \<and> sum_list xs = N
           \<and> (\<forall>i < length lens. 0 < xs ! i \<longrightarrow> (lens ! i - 1) + xs ! i \<le> T)
           \<and> (\<forall>ys. length ys = length lens \<and> (\<forall>y \<in> set ys. 0 \<le> y) \<and> sum_list ys = N
                  \<longrightarrow> (\<exists>i < length lens. 0 < ys ! i \<and> T \<le> (lens ! i - 1) + ys ! i))"
proof -
  from ne obtain L0 Ls where lens: "lens = L0 # Ls" by (cases lens) auto
  define T0 where "T0 = (if L0 - 1 < 0 then 0 else L0 - 1)"
  let ?S = "\<lambda>t. sum_list (map (ants_within t) lens)"
  from nn lens have L0: "0 \<le> L0" "L0 \<le> maxInt" by simp_all
  have w0: "wrap64 (L0 - 1) = L0 - 1" using L0 by (intro wrap64_id) (simp_all add: minInt_def)
  have rng: "\<forall>L \<in> set (L0 # Ls). 0 \<le> L \<and> L \<le> maxInt \<and> L0 \<le> L"
    using nn srt unfolding lens by auto
  have b1': "N + L0 \<le> maxInt" using b1 lens by simp
  have b2': "N + int (length (L0 # Ls)) \<le> maxInt" using b2 lens by simp
  from find_T_total[OF rng N b1' b2', of T0] lens obtain T where
    T: "find_T N lens T0 = Some T" "T0 \<le> T" "T < maxInt" "N \<le> ?S T"
       "\<forall>t. T0 \<le> t \<and> t < T \<longrightarrow> ?S t < N"
    unfolding T0_def by auto
  have T0n: "0 \<le> T" using T(2) by (simp add: T0_def split: if_splits)
  obtain cs r where tc: "take_counts T N lens = (cs, r)" by fastforce
  have N0: "0 \<le> N" "N \<le> maxInt" using N b1' L0 by simp_all
  from take_counts_props[OF N0 T0n T(3) nn tc] have
    P: "length cs = length lens" "0 \<le> r" "sum_list cs + r = N"
       "\<forall>i < length lens. 0 \<le> cs ! i \<and> cs ! i \<le> ants_within T (lens ! i)"
       "r > 0 \<longrightarrow> ?S T < N"
    by auto
  from P(2,5) T(4) have r0: "r = 0" by force
  have ft: "find_T N (L0 # Ls) (if wrap64 (L0 - 1) < 0 then 0 else wrap64 (L0 - 1)) = Some T"
    using T(1) unfolding lens w0 T0_def .
  have "preallocate N (L0 # Ls) = Some (T, leftovers cs r)"
    unfolding preallocate_def list.case ft option.case using tc[unfolded lens]
    by (simp del: take_counts.simps)
  then have pre: "preallocate N lens = Some (T, cs)"
    using r0 lens by (simp add: leftovers_zero)
  have fin: "\<forall>i < length lens. 0 < cs ! i \<longrightarrow> (lens ! i - 1) + cs ! i \<le> T"
  proof (intro allI impI)
    fix i assume i: "i < length lens" and pos: "0 < cs ! i"
    from P(4) i have "cs ! i \<le> ants_within T (lens ! i)" by simp
    with pos show "(lens ! i - 1) + cs ! i \<le> T" by (simp add: ants_within_def max_def split: if_splits)
  qed
  have opt: "\<exists>i < length lens. 0 < ys ! i \<and> T \<le> (lens ! i - 1) + ys ! i"
    if ys: "length ys = length lens" "\<forall>y \<in> set ys. 0 \<le> y" "sum_list ys = N" for ys
  proof (rule ccontr)
    assume "\<not> ?thesis"
    then have small: "\<And>i. i < length lens \<Longrightarrow> 0 < ys ! i \<Longrightarrow> (lens ! i - 1) + ys ! i < T"
      by force
    have "\<exists>y \<in> set ys. 0 < y"
    proof (rule ccontr)
      assume "\<not> ?thesis"
      then have "\<And>y. y \<in> set ys \<Longrightarrow> y \<le> 0" by force
      then have "sum_list ys \<le> 0" by (rule sum_list_nonpos)
      with ys(3) N show False by simp
    qed
    then obtain j where j: "j < length lens" "0 < ys ! j"
      using ys(1) by (auto simp: in_set_conv_nth)
    from small[OF j] have lt: "lens ! j < T" using j(2) by simp
    have "L0 \<le> lens ! j"
      using srt lens j(1) by (cases j) (auto simp: nth_Cons)
    moreover have "0 \<le> lens ! j" using nn j(1) by simp
    ultimately have "T0 \<le> lens ! j" by (simp add: T0_def)
    with lt have "T0 \<le> T - 1" by simp
    with T(5) have less: "?S (T - 1) < N" by simp
    have "sum_list ys \<le> sum_list (map (ants_within (T - 1)) lens)"
    proof (rule sum_list_mono2)
      show "length ys = length (map (ants_within (T - 1)) lens)" using ys(1) by simp
    next
      fix i
      show "i < length ys \<longrightarrow> ys ! i \<le> map (ants_within (T - 1)) lens ! i"
      proof
        assume i: "i < length ys"
        show "ys ! i \<le> map (ants_within (T - 1)) lens ! i"
        proof (cases "0 < ys ! i")
          case True
          from small[OF _ True] i ys(1) have "(lens ! i - 1) + ys ! i < T" by simp
          then show ?thesis using i ys(1) by (simp add: ants_within_def)
        next
          case False
          then show ?thesis using i ys(1) by (simp add: ants_within_def)
        qed
      qed
    qed
    with less ys(3) show False by simp
  qed
  have nonneg: "\<forall>i < length lens. 0 \<le> cs ! i" using P(4) by simp
  have sum: "sum_list cs = N" using P(3) r0 by simp
  show ?thesis using pre P(1) nonneg sum fin opt by blast
qed

theorem preallocate_optimal_witness:
  "\<exists>T xs. preallocate 10 [4, 5, 6] = Some (T, xs) \<and> length xs = length [4, 5, 6 :: int]
           \<and> (\<forall>i < length [4, 5, 6 :: int]. 0 \<le> xs ! i) \<and> sum_list xs = 10
           \<and> (\<forall>i < length [4, 5, 6 :: int]. 0 < xs ! i \<longrightarrow> ([4, 5, 6] ! i - 1) + xs ! i \<le> T)
           \<and> (\<forall>ys. length ys = length [4, 5, 6 :: int] \<and> (\<forall>y \<in> set ys. 0 \<le> y) \<and> sum_list ys = 10
                  \<longrightarrow> (\<exists>i < length [4, 5, 6 :: int]. 0 < ys ! i \<and> T \<le> ([4, 5, 6] ! i - 1) + ys ! i))"
proof -
  have a: "[4, 5, 6 :: int] \<noteq> []" "sorted [4, 5, 6 :: int]"
    "\<forall>L \<in> set [4, 5, 6 :: int]. 0 \<le> L \<and> L \<le> maxInt" "0 < (10 :: int)"
    "10 + hd [4, 5, 6 :: int] \<le> maxInt" "10 + int (length [4, 5, 6 :: int]) \<le> maxInt"
    by (simp_all add: maxInt_def)
  from preallocate_optimal[OF a] show ?thesis .
qed

section \<open>The simulation keeps rooms exclusive\<close>

lemma fold_opt_preserves:
  assumes "\<And>x s s'. x \<in> set xs \<Longrightarrow> P s \<Longrightarrow> f x s = Some s' \<Longrightarrow> P s'"
    and "P s" and "fold_opt f xs s = Some s'"
  shows "P s'"
  using assms
proof (induction xs arbitrary: s)
  case Nil
  then show ?case by simp
next
  case (Cons x xs)
  from Cons.prems(3) obtain s1 where s1: "f x s = Some s1" "fold_opt f xs s1 = Some s'"
    by (auto split: option.splits)
  have "P s1" using Cons.prems(1)[OF _ Cons.prems(2) s1(1)] by simp
  moreover have "\<And>y t t'. y \<in> set xs \<Longrightarrow> P t \<Longrightarrow> f y t = Some t' \<Longrightarrow> P t'"
    using Cons.prems(1) by (meson list.set_intros(2))
  ultimately show ?case using Cons.IH s1(2) by blast
qed

lemma replace_keys:
  "map fst (map (\<lambda>(k', a'). if k' = k then (k', a) else (k', a')) al) = map fst al"
  by (induction al) (auto split: prod.splits)

lemma replace_set:
  assumes "distinct (map fst al)" "(k, b) \<in> set al"
  shows "set (map (\<lambda>(k', a'). if k' = k then (k', a) else (k', a')) al)
           = insert (k, a) (set al - {(k, b)})"
  using assms
proof (induction al)
  case Nil
  then show ?case by simp
next
  case (Cons x al)
  obtain k0 a0 where x: "x = (k0, a0)" by (cases x)
  show ?case
  proof (cases "k0 = k")
    case True
    with Cons.prems x have b: "a0 = b" and notin: "k \<notin> fst ` set al"
      by force+
    from notin have same: "map (\<lambda>(k', a'). if k' = k then (k', a) else (k', a')) al = al"
      by (induction al) (auto split: prod.splits)
    have "(k, b) \<notin> set al" using notin by force
    then show ?thesis using x True b same by auto
  next
    case False
    with Cons.prems x have "(k, b) \<in> set al" "distinct (map fst al)" by auto
    from Cons.IH[OF this(2,1)] x False show ?thesis by auto
  qed
qed

lemma set_ant_present:
  assumes "distinct (map fst al)" "(k, b) \<in> set al"
  shows "map fst (set_ant k a al) = map fst al"
    and "set (set_ant k a al) = insert (k, a) (set al - {(k, b)})"
proof -
  have kin: "k \<in> set (map fst al)" using assms(2) by force
  then have eq: "set_ant k a al = map (\<lambda>(k', a'). if k' = k then (k', a) else (k', a')) al"
    by (simp add: set_ant_def)
  show "map fst (set_ant k a al) = map fst al"
    unfolding eq by (rule replace_keys)
  show "set (set_ant k a al) = insert (k, a) (set al - {(k, b)})"
    unfolding eq by (rule replace_set[OF assms])
qed

lemma set_ant_absent:
  assumes "k \<notin> fst ` set al"
  shows "map fst (set_ant k a al) = map fst al @ [k]"
    and "set (set_ant k a al) = insert (k, a) (set al)"
  using assms by (simp_all add: set_ant_def)


lemma sim_invI:
  assumes "distinct (map fst (antsState s))"
    and "\<And>i a. (i, a) \<in> set (antsState s) \<Longrightarrow>
            ID a = i \<and> i \<noteq> 0 \<and> PathIdx a < length paths \<and> 0 \<le> Pos a
            \<and> nat (Pos a) < length (PRooms (paths ! PathIdx a))
            \<and> (room_of paths a \<noteq> sn \<and> room_of paths a \<noteq> en
                 \<longrightarrow> occupied s (room_of paths a) = Some i)"
    and "occupied s sn = None" "occupied s en = None"
    and "distinct (concat (waitQueues s))"
    and "\<And>i. i \<in> set (concat (waitQueues s)) \<Longrightarrow> i \<noteq> 0 \<and> i \<notin> fst ` set (antsState s)"
  shows "sim_inv sn en paths s"
proof -
  have "\<forall>(i, a) \<in> set (antsState s).
            ID a = i \<and> i \<noteq> 0 \<and> PathIdx a < length paths \<and> 0 \<le> Pos a
            \<and> nat (Pos a) < length (PRooms (paths ! PathIdx a))
            \<and> (room_of paths a \<noteq> sn \<and> room_of paths a \<noteq> en
                 \<longrightarrow> occupied s (room_of paths a) = Some i)"
    using assms(2) by fast
  moreover have "\<forall>i \<in> set (concat (waitQueues s)). i \<noteq> 0 \<and> i \<notin> fst ` set (antsState s)"
    using assms(6) by (intro ballI)
  ultimately show ?thesis
    unfolding sim_inv_def using assms(1,3,4,5) by (intro conjI)
qed

lemma sim_inv_waiting:
  assumes "sim_inv sn en paths s" "i \<in> set (concat (waitQueues s))"
  shows "i \<noteq> 0" "i \<notin> fst ` set (antsState s)"
proof -
  from assms(1) have "\<forall>i \<in> set (concat (waitQueues s)). i \<noteq> 0 \<and> i \<notin> fst ` set (antsState s)"
    unfolding sim_inv_def by (elim conjE)
  with assms(2) show "i \<noteq> 0" "i \<notin> fst ` set (antsState s)" by blast+
qed

lemma build_posToAnt_Some:
  assumes "build_posToAnt pi as pos = Some k"
  shows "\<exists>a \<in> set as. ID a = k \<and> PathIdx a = pi \<and> Pos a = pos"
proof -
  have "\<And>m. fold (\<lambda>a m. if PathIdx a = pi \<and> Pos a > 0 then m(Pos a \<mapsto> ID a) else m) as m pos = Some k
          \<Longrightarrow> m pos = Some k \<or> (\<exists>a \<in> set as. ID a = k \<and> PathIdx a = pi \<and> Pos a = pos)"
  proof (induction as)
    case Nil
    then show ?case by simp
  next
    case (Cons a as)
    from Cons.IH[OF Cons.prems[simplified]] show ?case
      by (auto split: if_splits)
  qed
  from this[of Map.empty] assms show ?thesis by (simp add: build_posToAnt_def)
qed

lemma advance_inv:
  assumes inv: "sim_inv sn en paths s" and p: "p = paths ! pi"
    and own: "\<And>antID. posToAnt pos = Some antID \<Longrightarrow>
                \<exists>a. (antID, a) \<in> set (antsState s) \<and> PathIdx a = pi"
    and step: "advance sn en p posToAnt pos s = Some s'"
  shows "sim_inv sn en paths s' \<and>
         (\<forall>k a. (k, a) \<in> set (antsState s)
            \<longrightarrow> (\<exists>a'. (k, a') \<in> set (antsState s') \<and> PathIdx a' = PathIdx a))"
proof (cases "posToAnt pos")
  case None
  with step have "s' = s" by (simp add: advance_def)
  with inv show ?thesis by auto
next
  case (Some antID)
  from own[OF Some] obtain a0 where a0: "(antID, a0) \<in> set (antsState s)" "PathIdx a0 = pi"
    by blast
  from inv have dist: "distinct (map fst (antsState s))" by (simp add: sim_inv_def)
  from dist a0(1) have look: "map_of (antsState s) antID = Some a0" by simp
  from inv a0(1) have A: "ID a0 = antID" "antID \<noteq> 0" "PathIdx a0 < length paths" "0 \<le> Pos a0"
    "room_of paths a0 \<noteq> sn \<and> room_of paths a0 \<noteq> en \<longrightarrow> occupied s (room_of paths a0) = Some antID"
    by (auto simp: sim_inv_def)
  define cur where "cur = PRooms p ! nat (Pos a0)"
  define nxt where "nxt = PRooms p ! nat (Pos a0 + 1)"
  have cur_room: "room_of paths a0 = cur" by (simp add: room_of_def cur_def p a0(2))
  from step Some look have bound: "Pos a0 + 1 < int (length (PRooms p))"
    by (auto simp: advance_def split: if_splits)
  show ?thesis
  proof (cases "nxt = en \<or> occ s nxt = 0")
    case False
    have nb: "\<not> (Pos a0 < 0 \<or> int (length (PRooms p)) \<le> Pos a0 + 1)"
      using bound A(4) by simp
    have "advance sn en p posToAnt pos s = Some s"
      unfolding advance_def Some look option.case if_not_P[OF nb] Let_def nxt_def[symmetric]
      using False by simp
    with step have "s' = s" by simp
    with inv show ?thesis by auto
  next
    case free: True
    define a1 where "a1 = a0\<lparr>Pos := Pos a0 + 1\<rparr>"
    define o1 where "o1 = (if cur \<noteq> sn \<and> cur \<noteq> en then (occupied s)(cur \<mapsto> 0) else occupied s)"
    define o2 where "o2 = (if nxt \<noteq> sn \<and> nxt \<noteq> en then o1(nxt \<mapsto> antID) else o1)"
    define S1 where "S1 = (if cur \<noteq> sn \<and> cur \<noteq> en
                           then s\<lparr>occupied := (occupied s)(cur \<mapsto> 0)\<rparr> else s)"
    define S2 where "S2 = (if nxt \<noteq> sn \<and> nxt \<noteq> en
                           then S1\<lparr>occupied := (occupied S1)(nxt \<mapsto> antID)\<rparr> else S1)"
    define S3 where "S3 = S2\<lparr>antsState := set_ant antID a1 (antsState S2),
                              moves := moves S2 @ [move_str antID nxt]\<rparr>"
    have nb: "\<not> (Pos a0 < 0 \<or> int (length (PRooms p)) \<le> Pos a0 + 1)"
      using bound A(4) by simp
    have "advance sn en p posToAnt pos s
            = Some (if nxt = en then S3\<lparr>finished := finished S3 + 1\<rparr> else S3)"
      unfolding advance_def Some look option.case if_not_P[OF nb] Let_def
        cur_def[symmetric] nxt_def[symmetric] a1_def[symmetric]
        S1_def[symmetric] S2_def[symmetric] S3_def[symmetric]
      using free by simp
    with step have s'_eq: "s' = (if nxt = en then S3\<lparr>finished := finished S3 + 1\<rparr> else S3)"
      by simp
    have S1o: "occupied S1 = o1" "antsState S1 = antsState s" "waitQueues S1 = waitQueues s"
      by (simp_all add: S1_def o1_def)
    have S2o: "occupied S2 = o2" "antsState S2 = antsState s" "waitQueues S2 = waitQueues s"
      by (simp_all add: S2_def o2_def S1o)
    have s': "occupied s' = o2" "antsState s' = set_ant antID a1 (antsState s)"
      "waitQueues s' = waitQueues s"
      by (simp_all add: s'_eq S3_def S2o)
    have keys: "map fst (antsState s') = map fst (antsState s)"
      and ants: "set (antsState s') = insert (antID, a1) (set (antsState s) - {(antID, a0)})"
      using set_ant_present[OF dist a0(1), of a1] s'(2) by simp_all
    have nxt_room: "room_of paths a1 = nxt"
      using A(4) by (simp add: room_of_def nxt_def a1_def p a0(2))
    have o2_sn: "o2 sn = None" "o2 en = None"
      using inv by (auto simp: o2_def o1_def sim_inv_def)
    have others: "o2 (room_of paths b) = Some j"
      if b: "(j, b) \<in> set (antsState s)" "j \<noteq> antID"
        and mid: "room_of paths b \<noteq> sn" "room_of paths b \<noteq> en" for j b
    proof -
      from inv b(1) mid have ob: "occupied s (room_of paths b) = Some j" and j0: "j \<noteq> 0"
        by (auto simp: sim_inv_def)
      have ne_cur: "room_of paths b \<noteq> cur"
      proof
        assume e: "room_of paths b = cur"
        with mid cur_room A(5) have "occupied s cur = Some antID" by simp
        with ob e b(2) show False by simp
      qed
      have ne_nxt: "room_of paths b \<noteq> nxt"
      proof
        assume e: "room_of paths b = nxt"
        with ob j0 have "occ s nxt \<noteq> 0" by (simp add: occ_def)
        with free e mid show False by simp
      qed
      from ob ne_cur ne_nxt show ?thesis by (simp add: o2_def o1_def)
    qed
    have own1: "o2 (room_of paths a1) = Some antID"
      if "room_of paths a1 \<noteq> sn" "room_of paths a1 \<noteq> en"
      using that nxt_room by (simp add: o2_def)
    have entries: "ID b = j \<and> j \<noteq> 0 \<and> PathIdx b < length paths \<and> 0 \<le> Pos b
            \<and> nat (Pos b) < length (PRooms (paths ! PathIdx b))
            \<and> (room_of paths b \<noteq> sn \<and> room_of paths b \<noteq> en \<longrightarrow> o2 (room_of paths b) = Some j)"
      if jb: "(j, b) \<in> set (antsState s')" for j b
    proof (cases "(j, b) = (antID, a1)")
      case True
      then have "j = antID" "b = a1" by simp_all
      then show ?thesis
        using A bound own1 by (auto simp: a1_def p a0(2))
    next
      case False
      with jb ants have old: "(j, b) \<in> set (antsState s)" and neq: "(j, b) \<noteq> (antID, a0)" by auto
      have "j \<noteq> antID"
      proof
        assume "j = antID"
        with old a0(1) dist have "b = a0" by (meson eq_key_imp_eq_value)
        with \<open>j = antID\<close> neq show False by simp
      qed
      with inv old others show ?thesis by (auto simp: sim_inv_def)
    qed
    have wait: "distinct (concat (waitQueues s'))"
      "\<forall>i \<in> set (concat (waitQueues s')). i \<noteq> 0 \<and> i \<notin> fst ` set (antsState s')"
    proof -
      show "distinct (concat (waitQueues s'))" using inv s'(3) by (simp add: sim_inv_def)
      have "fst ` set (antsState s') = fst ` set (antsState s)"
        using keys by (metis list.set_map)
      then show "\<forall>i \<in> set (concat (waitQueues s')). i \<noteq> 0 \<and> i \<notin> fst ` set (antsState s')"
        using inv s'(3) by (simp add: sim_inv_def)
    qed
    have inv': "sim_inv sn en paths s'"
      unfolding sim_inv_def using keys dist entries o2_sn wait s'(1) by auto
    have keep: "\<exists>a'. (k, a') \<in> set (antsState s') \<and> PathIdx a' = PathIdx a"
      if "(k, a) \<in> set (antsState s)" for k a
    proof (cases "(k, a) = (antID, a0)")
      case True
      then have "(k, a1) \<in> set (antsState s')" "PathIdx a1 = PathIdx a"
        using ants by (simp_all add: a1_def)
      then show ?thesis by blast
    next
      case False
      with that ants have "(k, a) \<in> set (antsState s')" by simp
      then show ?thesis by blast
    qed
    from inv' keep show ?thesis by blast
  qed
qed


lemma queue_pop:
  assumes "pi < length wq" "wq ! pi = x # rest" "distinct (concat wq)"
  shows "distinct (concat (wq[pi := rest]))"
    and "set (concat (wq[pi := rest])) \<subseteq> set (concat wq)"
    and "x \<notin> set (concat (wq[pi := rest]))"
    and "x \<in> set (concat wq)"
proof -
  have wq: "wq = take pi wq @ (x # rest) # drop (Suc pi) wq"
    using assms(1,2) by (metis id_take_nth_drop)
  have wq': "wq[pi := rest] = take pi wq @ rest # drop (Suc pi) wq"
    using assms(1) by (simp add: upd_conv_take_nth_drop)
  have d: "distinct (concat (take pi wq) @ (x # rest) @ concat (drop (Suc pi) wq))"
    using assms(3) by (subst (asm) wq) simp
  show "distinct (concat (wq[pi := rest]))"
    unfolding wq' using d by auto
  show "set (concat (wq[pi := rest])) \<subseteq> set (concat wq)"
    by (subst (2) wq, subst wq') auto
  show "x \<notin> set (concat (wq[pi := rest]))"
    unfolding wq' using d by auto
  show "x \<in> set (concat wq)"
    by (subst wq) simp
qed

lemma dispatch_inv:
  assumes inv: "sim_inv sn en paths s" and p: "p = paths ! pi" "pi < length paths"
    and step: "dispatch sn en (pi, p) s = Some s'"
  shows "sim_inv sn en paths s'"
proof -
  from step have len: "pi < length (waitQueues s)"
    by (auto simp: dispatch_def split: if_splits)
  show ?thesis
  proof (cases "waitQueues s ! pi")
    case Nil
    with step len have "s' = s" by (simp add: dispatch_def)
    with inv show ?thesis by simp
  next
    case (Cons antID rest)
    from inv have dq: "distinct (concat (waitQueues s))" by (simp add: sim_inv_def)
    note pop = queue_pop[OF len Cons dq]
    from inv pop(4) have fresh: "antID \<noteq> 0" "antID \<notin> fst ` set (antsState s)"
      by (auto simp: sim_inv_def)
    have nl: "\<not> length (waitQueues s) \<le> pi" using len by simp
    show ?thesis
    proof (cases "length (PRooms p) = 2")
      case True
      have "dispatch sn en (pi, p) s
              = Some (s\<lparr>waitQueues := (waitQueues s)[pi := rest],
                        moves := moves s @ [move_str antID en],
                        finished := finished s + 1\<rparr>)"
        unfolding dispatch_def prod.case if_not_P[OF nl] Cons list.case using True by simp
      with step have s': "occupied s' = occupied s" "antsState s' = antsState s"
        "waitQueues s' = (waitQueues s)[pi := rest]"
        by auto
      from inv have W: "\<And>i. i \<in> set (concat (waitQueues s))
                          \<Longrightarrow> i \<noteq> 0 \<and> i \<notin> fst ` set (antsState s)"
        unfolding sim_inv_def by blast
      have W': "\<forall>i \<in> set (concat ((waitQueues s)[pi := rest])).
                  i \<noteq> 0 \<and> i \<notin> fst ` set (antsState s)"
        using W pop(2) by blast
      from inv have rest_inv: "distinct (map fst (antsState s))"
        "\<forall>(i, a) \<in> set (antsState s).
            ID a = i \<and> i \<noteq> 0 \<and> PathIdx a < length paths \<and> 0 \<le> Pos a
            \<and> nat (Pos a) < length (PRooms (paths ! PathIdx a))
            \<and> (room_of paths a \<noteq> sn \<and> room_of paths a \<noteq> en
                 \<longrightarrow> occupied s (room_of paths a) = Some i)"
        "occupied s sn = None" "occupied s en = None"
        by (simp_all add: sim_inv_def)
      show ?thesis
        using rest_inv pop(1) W' by (simp add: sim_inv_def s')
    next
      case False
      with step Cons nl have long: "2 < length (PRooms p)"
        by (auto simp: dispatch_def split: if_splits)
      have c1: "\<not> length (PRooms p) < 2" using long by simp
      define first where "first = PRooms p ! 1"
      show ?thesis
      proof (cases "first = en \<or> occ s first = 0")
        case blocked: False
        have "dispatch sn en (pi, p) s = Some s"
          unfolding dispatch_def prod.case if_not_P[OF nl] Cons list.case if_not_P[OF False]
            if_not_P[OF c1] Let_def first_def[symmetric]
          using blocked by simp
        with step inv show ?thesis by simp
      next
        case free: True
        define a1 where "a1 = \<lparr>ID = antID, PathIdx = pi, Pos = 1\<rparr>"
        define S1 where "S1 = s\<lparr>waitQueues := (waitQueues s)[pi := rest],
                                antsState := set_ant antID a1 (antsState s)\<rparr>"
        define S2 where "S2 = (if first \<noteq> sn \<and> first \<noteq> en
                               then S1\<lparr>occupied := (occupied S1)(first \<mapsto> antID)\<rparr> else S1)"
        define S3 where "S3 = S2\<lparr>moves := moves S2 @ [move_str antID first]\<rparr>"
        define o2 where "o2 = (if first \<noteq> sn \<and> first \<noteq> en
                               then (occupied s)(first \<mapsto> antID) else occupied s)"
        have "dispatch sn en (pi, p) s
                = Some (if first = en then S3\<lparr>finished := finished S3 + 1\<rparr> else S3)"
          unfolding dispatch_def prod.case if_not_P[OF nl] Cons list.case if_not_P[OF False]
            if_not_P[OF c1] Let_def first_def[symmetric] a1_def[symmetric]
            S1_def[symmetric] S2_def[symmetric] S3_def[symmetric]
          using free by simp
        with step have s'_eq: "s' = (if first = en then S3\<lparr>finished := finished S3 + 1\<rparr> else S3)"
          by simp
        have S2o: "occupied S2 = o2" "antsState S2 = set_ant antID a1 (antsState s)"
          "waitQueues S2 = (waitQueues s)[pi := rest]"
          by (simp_all add: S2_def S1_def o2_def)
        have s': "occupied s' = o2" "antsState s' = set_ant antID a1 (antsState s)"
          "waitQueues s' = (waitQueues s)[pi := rest]"
          by (simp_all add: s'_eq S3_def S2o)
        have keys: "map fst (antsState s') = map fst (antsState s) @ [antID]"
          and ants: "set (antsState s') = insert (antID, a1) (set (antsState s))"
          using set_ant_absent[OF fresh(2), of a1] s'(2) by simp_all
        have room1: "room_of paths a1 = first"
          by (simp add: room_of_def a1_def first_def p)
        have d': "distinct (map fst (antsState s'))"
          using inv fresh(2) keys by (simp add: sim_inv_def)
        have o2_sn: "o2 sn = None" "o2 en = None"
          using inv by (auto simp: o2_def sim_inv_def)
        have entries: "ID b = j \<and> j \<noteq> 0 \<and> PathIdx b < length paths \<and> 0 \<le> Pos b
            \<and> nat (Pos b) < length (PRooms (paths ! PathIdx b))
            \<and> (room_of paths b \<noteq> sn \<and> room_of paths b \<noteq> en \<longrightarrow> o2 (room_of paths b) = Some j)"
          if jb: "(j, b) \<in> set (antsState s')" for j b
        proof (cases "(j, b) = (antID, a1)")
          case True
          then have jb1: "j = antID" "b = a1" by simp_all
          have "o2 first = Some antID" if "first \<noteq> sn" "first \<noteq> en"
            using that by (simp add: o2_def)
          then show ?thesis
            using jb1 fresh(1) p long room1 by (auto simp: a1_def)
        next
          case False
          with jb ants have old: "(j, b) \<in> set (antsState s)" by auto
          have stay: "o2 (room_of paths b) = Some j"
            if mid: "room_of paths b \<noteq> sn" "room_of paths b \<noteq> en"
          proof -
            from inv old mid have ob: "occupied s (room_of paths b) = Some j" and j0: "j \<noteq> 0"
              by (auto simp: sim_inv_def)
            have "room_of paths b \<noteq> first"
            proof
              assume e: "room_of paths b = first"
              with ob j0 have "occ s first \<noteq> 0" by (simp add: occ_def)
              with free e mid show False by simp
            qed
            with ob show ?thesis by (simp add: o2_def)
          qed
          from inv old stay show ?thesis by (auto simp: sim_inv_def)
        qed
        have wait: "distinct (concat (waitQueues s'))"
          "\<forall>i \<in> set (concat (waitQueues s')). i \<noteq> 0 \<and> i \<notin> fst ` set (antsState s')"
        proof -
          show "distinct (concat (waitQueues s'))" using pop(1) s'(3) by simp
          have keys': "fst ` set (antsState s') = insert antID (fst ` set (antsState s))"
            using ants by simp
          show "\<forall>i \<in> set (concat (waitQueues s')). i \<noteq> 0 \<and> i \<notin> fst ` set (antsState s')"
          proof
            fix i assume "i \<in> set (concat (waitQueues s'))"
            then have i: "i \<in> set (concat ((waitQueues s)[pi := rest]))" by (simp only: s'(3))
            with pop(2) have "i \<in> set (concat (waitQueues s))" by (rule_tac subsetD)
            from sim_inv_waiting[OF inv this] have "i \<noteq> 0" "i \<notin> fst ` set (antsState s)" .
            moreover from i pop(3) have "i \<noteq> antID" by metis
            ultimately show "i \<noteq> 0 \<and> i \<notin> fst ` set (antsState s')"
              unfolding keys' by simp
          qed
        qed
        show ?thesis
        proof (rule sim_invI)
          show "distinct (map fst (antsState s'))" by (rule d')
          show "occupied s' sn = None" "occupied s' en = None" using o2_sn s'(1) by simp_all
          show "distinct (concat (waitQueues s'))" by (rule wait(1))
          show "\<And>i. i \<in> set (concat (waitQueues s')) \<Longrightarrow> i \<noteq> 0 \<and> i \<notin> fst ` set (antsState s')"
            using wait(2) by (rule bspec)
          show "\<And>i a. (i, a) \<in> set (antsState s') \<Longrightarrow>
            ID a = i \<and> i \<noteq> 0 \<and> PathIdx a < length paths \<and> 0 \<le> Pos a
            \<and> nat (Pos a) < length (PRooms (paths ! PathIdx a))
            \<and> (room_of paths a \<noteq> sn \<and> room_of paths a \<noteq> en
                 \<longrightarrow> occupied s' (room_of paths a) = Some i)"
            unfolding s'(1) by (rule entries)
        qed
      qed
    qed
  qed
qed


lemma sim_inv_ID:
  assumes "sim_inv sn en paths s" "(i, a) \<in> set (antsState s)"
  shows "ID a = i"
  using assms unfolding sim_inv_def by fast

lemma move_path_inv:
  assumes inv: "sim_inv sn en paths s"
    and vis: "mset (visit (antsState s)) = mset (antsState s)"
    and ip: "(pi, p) \<in> set (enumerate 0 paths)"
    and step: "move_path visit sn en (pi, p) s = Some s'"
  shows "sim_inv sn en paths s'"
proof -
  define posToAnt where "posToAnt = build_posToAnt pi (map snd (visit (antsState s)))"
  define Q where "Q t \<longleftrightarrow> sim_inv sn en paths t \<and>
      (\<forall>pos k. posToAnt pos = Some k \<longrightarrow> (\<exists>a. (k, a) \<in> set (antsState t) \<and> PathIdx a = pi))" for t
  from ip have p: "p = paths ! pi" by (simp add: in_set_enumerate_eq)
  from vis have vset: "set (visit (antsState s)) = set (antsState s)" by (rule mset_eq_setD)
  have Q0: "Q s"
  proof -
    have "\<exists>a. (k, a) \<in> set (antsState s) \<and> PathIdx a = pi" if "posToAnt pos = Some k" for pos k
    proof -
      from build_posToAnt_Some[OF that[unfolded posToAnt_def]]
      obtain a where a: "a \<in> set (map snd (visit (antsState s)))" "ID a = k" "PathIdx a = pi"
        by blast
      from a(1) vset obtain j where j: "(j, a) \<in> set (antsState s)" by auto
      from sim_inv_ID[OF inv j] a(2) have "j = k" by simp
      with j a(3) show ?thesis by blast
    qed
    with inv show ?thesis unfolding Q_def by blast
  qed
  have Qstep: "Q t'" if "Q t" "advance sn en p posToAnt pos t = Some t'" for pos t t'
  proof -
    from that(1) have it: "sim_inv sn en paths t"
      and own: "\<And>k. posToAnt pos = Some k \<Longrightarrow> \<exists>a. (k, a) \<in> set (antsState t) \<and> PathIdx a = pi"
      unfolding Q_def by blast+
    from advance_inv[OF it p own that(2)]
    have i': "sim_inv sn en paths t'"
      and keep: "\<And>k a. (k, a) \<in> set (antsState t) \<Longrightarrow>
                   \<exists>a'. (k, a') \<in> set (antsState t') \<and> PathIdx a' = PathIdx a"
      by blast+
    have "\<exists>a. (k, a) \<in> set (antsState t') \<and> PathIdx a = pi" if "posToAnt q = Some k" for q k
    proof -
      from \<open>Q t\<close> that obtain a where "(k, a) \<in> set (antsState t)" "PathIdx a = pi"
        unfolding Q_def by blast
      with keep[OF this(1)] show ?thesis by auto
    qed
    with i' show ?thesis unfolding Q_def by blast
  qed
  from step have "fold_opt (advance sn en p posToAnt) (positions p) s = Some s'"
    by (simp add: move_path_def posToAnt_def)
  from fold_opt_preserves[where P = Q, OF _ Q0 this] Qstep have "Q s'" by blast
  then show ?thesis unfolding Q_def by blast
qed

lemma turn_inv:
  assumes inv: "sim_inv sn en paths s" and vis: "visits_all visit"
    and step: "turn visit sn en paths t s = Some s'"
  shows "sim_inv sn en paths s'"
proof -
  from step obtain s1 where
    ph1: "fold_opt (\<lambda>ip. move_path (visit t (fst ip)) sn en ip) (enumerate 0 paths) (s\<lparr>moves := []\<rparr>) = Some s1"
    and ph2: "fold_opt (dispatch sn en) (enumerate 0 paths) s1 = Some s'"
    by (auto simp: turn_def split: option.splits)
  have i0: "sim_inv sn en paths (s\<lparr>moves := []\<rparr>)" using inv by (simp add: sim_inv_def)
  have m: "sim_inv sn en paths b"
    if "ip \<in> set (enumerate 0 paths)" "sim_inv sn en paths a"
      "move_path (visit t (fst ip)) sn en ip a = Some b" for ip a b
  proof -
    obtain pi p where ip: "ip = (pi, p)" by (cases ip)
    have "mset (visit t pi (antsState a)) = mset (antsState a)"
      using vis by (simp add: visits_all_def)
    from move_path_inv[where visit = "visit t pi", OF that(2) this] that(1,3) ip show ?thesis by simp
  qed
  have i1: "sim_inv sn en paths s1"
    by (rule fold_opt_preserves[where P = "sim_inv sn en paths", OF _ i0 ph1]) (rule m; assumption)
  have d: "sim_inv sn en paths b"
    if "ip \<in> set (enumerate 0 paths)" "sim_inv sn en paths a" "dispatch sn en ip a = Some b" for ip a b
  proof -
    obtain pi p where ip: "ip = (pi, p)" by (cases ip)
    with that(1) have "p = paths ! pi" "pi < length paths" by (simp_all add: in_set_enumerate_eq)
    from dispatch_inv[OF that(2) this] that(3) ip show ?thesis by simp
  qed
  show ?thesis
    by (rule fold_opt_preserves[where P = "sim_inv sn en paths", OF _ i1 ph2]) (rule d; assumption)
qed

lemma sim_after_inv:
  assumes "sim_inv sn en paths s0" "visits_all visit"
    and "sim_after visit sn en paths ants s0 k = Some s"
  shows "sim_inv sn en paths s"
  using assms(3)
proof (induction k arbitrary: s)
  case 0
  with assms(1) show ?case by simp
next
  case (Suc k)
  then obtain s1 where s1: "sim_after visit sn en paths ants s0 k = Some s1"
    and t: "turn visit sn en paths k s1 = Some s"
    by (auto split: option.splits if_splits)
  from turn_inv[OF Suc.IH[OF s1] assms(2) t] show ?case .
qed

lemma materialise_ids:
  "distinct (concat (materialise cs n)) \<and> (\<forall>i \<in> set (concat (materialise cs n)). n \<le> i)"
proof (induction cs arbitrary: n)
  case Nil
  then show ?case by simp
next
  case (Cons c cs)
  define n' where "n' = (if c > 0 then n + c else n)"
  from Cons.IH[of n'] have IH: "distinct (concat (materialise cs n'))"
    "\<And>i. i \<in> set (concat (materialise cs n')) \<Longrightarrow> n' \<le> i" by blast+
  have eq: "concat (materialise (c # cs) n) = [n..n + c - 1] @ concat (materialise cs n')"
    by (simp add: n'_def)
  have "n \<le> n'" by (simp add: n'_def)
  have disj: "set [n..n + c - 1] \<inter> set (concat (materialise cs n')) = {}"
  proof (rule ccontr)
    assume "\<not> ?thesis"
    then obtain i where i: "i \<in> set [n..n + c - 1]" "i \<in> set (concat (materialise cs n'))" by blast
    from IH(2)[OF i(2)] i(1) show False by (auto simp: n'_def split: if_splits)
  qed
  have "distinct (concat (materialise (c # cs) n))"
    unfolding eq using IH(1) disj by simp
  moreover have "\<forall>i \<in> set (concat (materialise (c # cs) n)). n \<le> i"
    unfolding eq using IH(2) \<open>n \<le> n'\<close> by fastforce
  ultimately show ?case by blast
qed

lemma init_sim_inv: "sim_inv sn en paths (init_sim (materialise cs 1))"
proof (rule sim_invI)
  show "distinct (concat (waitQueues (init_sim (materialise cs 1))))"
    using materialise_ids[of cs 1] by (simp add: init_sim_def)
  show "\<And>i. i \<in> set (concat (waitQueues (init_sim (materialise cs 1)))) \<Longrightarrow>
          i \<noteq> 0 \<and> i \<notin> fst ` set (antsState (init_sim (materialise cs 1)))"
    using materialise_ids[of cs 1] by (fastforce simp: init_sim_def)
qed (simp_all add: init_sim_def)

lemma Run_after_setup:
  assumes "Run_after sortSlice visit ants paths g k = Some s"
    and "Start g = Some sn" "End g = Some en"
  shows "\<exists>cs. sim_after visit sn en (sortSlice paths) ants (init_sim (materialise cs 1)) k = Some s"
  using assms
  by (auto simp: Run_after_def Run_setup_def Let_def split: if_splits option.splits prod.splits)

text \<open>C4: at the end of every turn of \<open>Run\<close>, two different ants that have left the start
  are never in the same room unless that room is the start or the end room, and the
  occupancy table has no entry for the start room or the end room. This holds whatever
  order Go visits the map of ant states in.\<close>

theorem Run_rooms_exclusive:
  assumes vis: "visits_all visit"
    and run: "Run_after sortSlice visit ants paths g k = Some s"
    and se: "Start g = Some sn" "End g = Some en"
  shows "(\<forall>(i, a) \<in> set (antsState s). \<forall>(j, b) \<in> set (antsState s).
            i \<noteq> j \<and> room_of (sortSlice paths) a = room_of (sortSlice paths) b
            \<longrightarrow> room_of (sortSlice paths) a = sn \<or> room_of (sortSlice paths) a = en)
         \<and> occupied s sn = None \<and> occupied s en = None"
proof -
  from Run_after_setup[OF run se] obtain cs where
    sa: "sim_after visit sn en (sortSlice paths) ants (init_sim (materialise cs 1)) k = Some s"
    by blast
  from sim_after_inv[OF init_sim_inv vis sa] have inv: "sim_inv sn en (sortSlice paths) s" .
  have occ: "\<And>i a. (i, a) \<in> set (antsState s) \<Longrightarrow>
      room_of (sortSlice paths) a \<noteq> sn \<Longrightarrow> room_of (sortSlice paths) a \<noteq> en \<Longrightarrow>
      occupied s (room_of (sortSlice paths) a) = Some i"
    using inv unfolding sim_inv_def by fast
  have excl: "room_of (sortSlice paths) a = sn \<or> room_of (sortSlice paths) a = en"
    if "(i, a) \<in> set (antsState s)" "(j, b) \<in> set (antsState s)" "i \<noteq> j"
      "room_of (sortSlice paths) a = room_of (sortSlice paths) b" for i a j b
  proof (rule ccontr)
    assume n: "\<not> ?thesis"
    with occ[OF that(1)] have "occupied s (room_of (sortSlice paths) a) = Some i" by simp
    moreover from n that(4) occ[OF that(2)] have "occupied s (room_of (sortSlice paths) a) = Some j"
      by simp
    ultimately show False using that(3) by simp
  qed
  have "occupied s sn = None" "occupied s en = None"
    using inv by (simp_all add: sim_inv_def)
  with excl show ?thesis by blast
qed

theorem Run_rooms_exclusive_witness:
  "\<exists>s. Run_after (sort_key Length) (\<lambda>t pi xs. rev xs) 4
          [\<lparr>PRooms = [''start'', ''a'', ''c'', ''end''], Length = 3\<rparr>,
           \<lparr>PRooms = [''start'', ''b'', ''end''], Length = 2\<rparr>]
          \<lparr>Rooms = [], Start = Some ''start'', End = Some ''end''\<rparr> 2 = Some s
     \<and> (\<forall>(i, a) \<in> set (antsState s). \<forall>(j, b) \<in> set (antsState s).
            i \<noteq> j \<and> room_of (sort_key Length
                  [\<lparr>PRooms = [''start'', ''a'', ''c'', ''end''], Length = 3\<rparr>,
                   \<lparr>PRooms = [''start'', ''b'', ''end''], Length = 2\<rparr>]) a
                = room_of (sort_key Length
                  [\<lparr>PRooms = [''start'', ''a'', ''c'', ''end''], Length = 3\<rparr>,
                   \<lparr>PRooms = [''start'', ''b'', ''end''], Length = 2\<rparr>]) b
            \<longrightarrow> room_of (sort_key Length
                  [\<lparr>PRooms = [''start'', ''a'', ''c'', ''end''], Length = 3\<rparr>,
                   \<lparr>PRooms = [''start'', ''b'', ''end''], Length = 2\<rparr>]) a = ''start''
              \<or> room_of (sort_key Length
                  [\<lparr>PRooms = [''start'', ''a'', ''c'', ''end''], Length = 3\<rparr>,
                   \<lparr>PRooms = [''start'', ''b'', ''end''], Length = 2\<rparr>]) a = ''end'')
     \<and> occupied s ''start'' = None \<and> occupied s ''end'' = None
     \<and> length (antsState s) = 3"
proof -
  let ?g = "\<lparr>Rooms = [], Start = Some ''start'', End = Some ''end''\<rparr>"
  let ?ps = "[\<lparr>PRooms = [''start'', ''a'', ''c'', ''end''], Length = 3\<rparr>,
              \<lparr>PRooms = [''start'', ''b'', ''end''], Length = 2\<rparr>]"
  have "map_option (\<lambda>s. length (antsState s))
          (Run_after (sort_key Length) (\<lambda>t pi xs. rev xs) 4 ?ps ?g 2) = Some 3"
    by code_simp
  then obtain s where h: "Run_after (sort_key Length) (\<lambda>t pi xs. rev xs) 4 ?ps ?g 2 = Some s"
    and n: "length (antsState s) = 3"
    by auto
  have v: "visits_all (\<lambda>t pi xs. rev xs)" by (simp add: visits_all_def)
  have se: "Start ?g = Some ''start''" "End ?g = Some ''end''" by simp_all
  from Run_rooms_exclusive[OF v h se] h n show ?thesis by blast
qed

section \<open>No path\<close>

lemma Parse_start_end:
  assumes "Parse input = Inr res"
  shows "Start (RGraph res) \<noteq> None \<and> End (RGraph res) \<noteq> None"
  using assms by (auto simp: Parse_def split: sum.splits if_splits)

text \<open>C6: when the main loop of the extractor ends with total flow 0, \<open>MultiPath\<close> returns
  the empty list, and the program prints the echoed input, a blank line and
  \<open>ERROR: invalid data format, no path found\<close>, and exits with code 0.\<close>

theorem no_path_reported:
  assumes parsed: "Parse input = Inr res"
    and zero: "max_flow (RGraph res) 0 = Some (graph, 0)"
  shows "MultiPath (RGraph res) 0 = Some []
         \<and> main_prog sortSlice visit input
             = Some (OriginalLines res @ [[], ''ERROR: invalid data format, no path found''], 0)"
proof -
  from Parse_start_end[OF parsed] obtain sn en where
    se: "Start (RGraph res) = Some sn" "End (RGraph res) = Some en"
    by auto
  have mp: "MultiPath (RGraph res) 0 = Some []"
    using se zero by (simp add: MultiPath_def)
  then show ?thesis
    using parsed by (simp add: main_prog_def noPathMsg_def)
qed

theorem no_path_reported_witness:
  "\<exists>res. Parse [''1'', ''##start'', ''start 0 0'', ''a 1 0'', ''##end'', ''end 3 0'', ''start-a''] = Inr res
     \<and> MultiPath (RGraph res) 0 = Some []
     \<and> main_prog (sort_key Length) (\<lambda>t pi xs. xs)
          [''1'', ''##start'', ''start 0 0'', ''a 1 0'', ''##end'', ''end 3 0'', ''start-a'']
        = Some ([''1'', ''##start'', ''start 0 0'', ''a 1 0'', ''##end'', ''end 3 0'', ''start-a'',
                 [], ''ERROR: invalid data format, no path found''], 0)"
proof -
  let ?input = "[''1'', ''##start'', ''start 0 0'', ''a 1 0'', ''##end'', ''end 3 0'', ''start-a'']"
  let ?res = "\<lparr>Ants = 1,
      RGraph = \<lparr>Rooms = [(''start'', \<lparr>Name = ''start'', X = 0, Y = 0, Links = [''a'']\<rparr>),
                          (''a'', \<lparr>Name = ''a'', X = 1, Y = 0, Links = [''start'']\<rparr>),
                          (''end'', \<lparr>Name = ''end'', X = 3, Y = 0, Links = []\<rparr>)],
                 Start = Some ''start'', End = Some ''end''\<rparr>,
      OriginalLines = ?input\<rparr>"
  have p: "Parse ?input = Inr ?res" by code_simp
  have "map_option snd (max_flow (RGraph ?res) 0) = Some 0" by code_simp
  then obtain graph where z: "max_flow (RGraph ?res) 0 = Some (graph, 0)" by auto
  from no_path_reported[OF p z, of "sort_key Length" "\<lambda>t pi xs. xs"] p show ?thesis by simp
qed


section \<open>Residual graphs and their flows\<close>

lemma shape_length: "shape gr' = shape gr \<Longrightarrow> length gr' = length gr"
  by (drule arg_cong[where f = length]) (simp add: shape_def)

lemma shape_nth:
  assumes "shape gr' = shape gr" "u < length gr"
  shows "map (\<lambda>e. (to e, rev_e e, cap e)) (gr' ! u) = map (\<lambda>e. (to e, rev_e e, cap e)) (gr ! u)"
proof -
  from assms have "shape gr' ! u = shape gr ! u" by simp
  moreover have "u < length gr'" using assms shape_length by metis
  ultimately show ?thesis using assms(2) by (simp add: shape_def)
qed

lemma shape_row_length:
  assumes "shape gr' = shape gr" "u < length gr"
  shows "length (gr' ! u) = length (gr ! u)"
  using shape_nth[OF assms] by (rule map_eq_imp_length_eq)

lemma shape_half_edges:
  assumes "shape gr' = shape gr"
  shows "half_edges gr' = half_edges gr"
proof -
  have l: "length gr' = length gr" by (rule shape_length[OF assms])
  have "\<And>u. u < length gr \<Longrightarrow> length (gr' ! u) = length (gr ! u)"
    by (rule shape_row_length[OF assms])
  then show ?thesis unfolding half_edges_def l by auto
qed

lemma shape_edge:
  assumes "shape gr' = shape gr" "h \<in> half_edges gr"
  shows "to (edge_at gr' h) = to (edge_at gr h)" "rev_e (edge_at gr' h) = rev_e (edge_at gr h)"
    "cap (edge_at gr' h) = cap (edge_at gr h)"
proof -
  obtain u i where h: "h = (u, i)" by (cases h)
  with assms(2) have ui: "u < length gr" "i < length (gr ! u)" by (simp_all add: half_edges_def)
  from shape_nth[OF assms(1) ui(1)] ui(2)
  have "map (\<lambda>e. (to e, rev_e e, cap e)) (gr' ! u) ! i = map (\<lambda>e. (to e, rev_e e, cap e)) (gr ! u) ! i"
    by simp
  moreover have "i < length (gr' ! u)" using shape_row_length[OF assms(1) ui(1)] ui(2) by simp
  ultimately have "(\<lambda>e. (to e, rev_e e, cap e)) (gr' ! u ! i) = (\<lambda>e. (to e, rev_e e, cap e)) (gr ! u ! i)"
    using ui(2) by simp
  then show "to (edge_at gr' h) = to (edge_at gr h)" "rev_e (edge_at gr' h) = rev_e (edge_at gr h)"
    "cap (edge_at gr' h) = cap (edge_at gr h)"
    by (simp_all add: edge_at_def h)
qed

lemma shape_partner:
  assumes "shape gr' = shape gr" "h \<in> half_edges gr"
  shows "partner gr' h = partner gr h"
  using shape_edge[OF assms] by (simp add: partner_def)

lemma shape_wf:
  assumes "shape gr' = shape gr" "wf_graph gr"
  shows "wf_graph gr'"
  unfolding wf_graph_def
proof
  fix h assume "h \<in> half_edges gr'"
  then have h: "h \<in> half_edges gr" using shape_half_edges[OF assms(1)] by simp
  with assms(2) have w: "partner gr h \<in> half_edges gr" "partner gr (partner gr h) = h"
    "to (edge_at gr (partner gr h)) = fst h" "to (edge_at gr h) \<noteq> fst h"
    by (auto simp: wf_graph_def)
  show "partner gr' h \<in> half_edges gr' \<and> partner gr' (partner gr' h) = h
        \<and> to (edge_at gr' (partner gr' h)) = fst h \<and> to (edge_at gr' h) \<noteq> fst h"
    using w shape_partner[OF assms(1) h] shape_partner[OF assms(1) w(1)]
      shape_half_edges[OF assms(1)] shape_edge(1)[OF assms(1) w(1)] shape_edge(1)[OF assms(1) h]
    by simp
qed

lemma set_flow_shape:
  assumes "h \<in> half_edges gr"
  shows "shape (set_flow h x gr) = shape gr"
proof -
  obtain u i where h: "h = (u, i)" by (cases h)
  with assms have ui: "u < length gr" "i < length (gr ! u)" by (simp_all add: half_edges_def)
  have "map (\<lambda>e. (to e, rev_e e, cap e)) ((gr ! u)[i := (gr ! u ! i)\<lparr>flow := x\<rparr>])
          = map (\<lambda>e. (to e, rev_e e, cap e)) (gr ! u)"
    using ui(2) by (simp add: map_update list_update_same_conv)
  then show ?thesis
    using ui(1) by (simp add: shape_def set_flow_def h edge_at_def map_update list_update_same_conv)
qed

lemma set_flow_at:
  assumes "h \<in> half_edges gr" "k \<in> half_edges gr"
  shows "flow_at (set_flow h x gr) k = (if k = h then x else flow_at gr k)"
proof -
  obtain u i where h: "h = (u, i)" by (cases h)
  obtain a b where k: "k = (a, b)" by (cases k)
  from assms h k have r: "u < length gr" "i < length (gr ! u)" "a < length gr" "b < length (gr ! a)"
    by (simp_all add: half_edges_def)
  show ?thesis
    using r by (auto simp: flow_at_def edge_at_def set_flow_def h k nth_list_update)
qed

lemma push_flow_eq:
  assumes wf: "wf_graph gr" and h: "(u, i) \<in> half_edges gr"
  shows "push_flow u i d gr
           = Some (set_flow (partner gr (u, i)) (flow_at gr (partner gr (u, i)) - d)
                    (set_flow (u, i) (flow_at gr (u, i) + d) gr))"
proof -
  define g1 where "g1 = set_flow (u, i) (flow_at gr (u, i) + d) gr"
  define v where "v = to (gr ! u ! i)"
  define j where "j = rev_e (gr ! u ! i)"
  have pv: "partner gr (u, i) = (v, j)" by (simp add: partner_def edge_at_def v_def j_def)
  from h have r: "\<not> (length gr \<le> u \<or> length (gr ! u) \<le> i)" by (simp add: half_edges_def)
  from wf h have p: "(v, j) \<in> half_edges gr" "(v, j) \<noteq> (u, i)"
    unfolding pv[symmetric] by (auto simp: wf_graph_def partner_def)
  have s1: "shape g1 = shape gr" unfolding g1_def by (rule set_flow_shape[OF h])
  have g1: "gr[u := (gr ! u)[i := (gr ! u ! i)\<lparr>flow := flow (gr ! u ! i) + d\<rparr>]] = g1"
    by (simp add: g1_def set_flow_def edge_at_def flow_at_def)
  have p1: "(v, j) \<in> half_edges g1" using p(1) shape_half_edges[OF s1] by simp
  then have r1: "\<not> (length g1 \<le> v \<or> length (g1 ! v) \<le> j)"
    by (simp add: half_edges_def)
  have "flow_at g1 (v, j) = flow_at gr (v, j)"
    unfolding g1_def set_flow_at[OF h p(1), of "flow_at gr (u, i) + d"] if_not_P[OF p(2)]
    by (rule refl)
  then have f1: "flow (g1 ! v ! j) = flow_at gr (v, j)"
    by (simp add: flow_at_def edge_at_def)
  have "push_flow u i d gr = Some (g1[v := (g1 ! v)[j := (g1 ! v ! j)\<lparr>flow := flow (g1 ! v ! j) - d\<rparr>]])"
    unfolding push_flow_def if_not_P[OF r] Let_def g1 v_def[symmetric] j_def[symmetric] if_not_P[OF r1]
    by (rule refl)
  also have "g1[v := (g1 ! v)[j := (g1 ! v ! j)\<lparr>flow := flow (g1 ! v ! j) - d\<rparr>]]
               = set_flow (v, j) (flow_at gr (v, j) - d) g1"
    unfolding f1 by (simp add: set_flow_def edge_at_def)
  finally show ?thesis unfolding pv g1_def .
qed

lemma push_flow_props:
  assumes wf: "wf_graph gr" and h: "h \<in> half_edges gr"
  shows "\<exists>gr'. push_flow (fst h) (snd h) d gr = Some gr' \<and> shape gr' = shape gr
           \<and> (\<forall>k \<in> half_edges gr. flow_at gr' k
                 = (if k = h then flow_at gr k + d
                    else if k = partner gr h then flow_at gr k - d else flow_at gr k))"
proof -
  obtain u i where hh: "h = (u, i)" by (cases h)
  let ?g1 = "set_flow (u, i) (flow_at gr (u, i) + d) gr"
  let ?g2 = "set_flow (partner gr (u, i)) (flow_at gr (partner gr (u, i)) - d) ?g1"
  from h hh have h': "(u, i) \<in> half_edges gr" by simp
  from wf h' have p: "partner gr (u, i) \<in> half_edges gr" "partner gr (u, i) \<noteq> (u, i)"
    by (auto simp: wf_graph_def partner_def)
  have s1: "shape ?g1 = shape gr" by (rule set_flow_shape[OF h'])
  have p1: "partner gr (u, i) \<in> half_edges ?g1" using p(1) shape_half_edges[OF s1] by simp
  have s2: "shape ?g2 = shape gr" using set_flow_shape[OF p1] s1 by simp
  have fl: "flow_at ?g2 k = (if k = (u, i) then flow_at gr k + d
                    else if k = partner gr (u, i) then flow_at gr k - d else flow_at gr k)"
    if k: "k \<in> half_edges gr" for k
  proof -
    have k1: "k \<in> half_edges ?g1" using k shape_half_edges[OF s1] by simp
    show ?thesis
      unfolding set_flow_at[OF p1 k1] set_flow_at[OF h' k] using p(2) by auto
  qed
  from push_flow_eq[OF wf h', of d] s2 fl show ?thesis by (simp add: hh)
qed

section \<open>The breadth-first search\<close>

lemma tree_depth_mono:
  assumes "tree_depth par source w d" "par ! v = None" "v < length par"
  shows "tree_depth (par[v := x]) source w d"
  using assms(1)
proof (induction rule: tree_depth.induct)
  case root
  show ?case by (rule tree_depth.root)
next
  case (step w u ei d)
  have "w \<noteq> v" using step.hyps(3) assms(2) by auto
  then have "par[v := x] ! w = Some (u, ei)" using step.hyps(3) by simp
  with step show ?case by (auto intro: tree_depth.step)
qed

lemma unfound_update:
  assumes "v < length par" "par ! v = None"
  shows "Suc (unfound (par[v := Some x])) = unfound par"
proof -
  have par: "par = take v par @ None # drop (Suc v) par"
    using assms by (metis id_take_nth_drop)
  have upd: "par[v := Some x] = take v par @ Some x # drop (Suc v) par"
    using assms(1) by (simp add: upd_conv_take_nth_drop)
  show ?thesis
    unfolding unfound_def upd by (subst (3) par) simp
qed

lemma fold_opt_enumerate:
  assumes "P k s"
    and "\<And>i t. k \<le> i \<Longrightarrow> i < k + length es \<Longrightarrow> P i t
           \<Longrightarrow> \<exists>t'. f (i, es ! (i - k)) t = Some t' \<and> P (Suc i) t'"
  shows "\<exists>s'. fold_opt f (enumerate k es) s = Some s' \<and> P (k + length es) s'"
  using assms
proof (induction es arbitrary: k s)
  case Nil
  then show ?case by simp
next
  case (Cons e es)
  from Cons.prems(2)[of k s] Cons.prems(1) obtain t where
    t: "f (k, e) s = Some t" "P (Suc k) t" by auto
  have "\<exists>t'. f (i, es ! (i - Suc k)) u = Some t' \<and> P (Suc i) t'"
    if "Suc k \<le> i" "i < Suc k + length es" "P i u" for i u
  proof -
    have "(e # es) ! (i - k) = es ! (i - Suc k)" using that(1) by (simp add: nth_Cons')
    with Cons.prems(2)[of i u] that show ?thesis by auto
  qed
  from Cons.IH[OF t(2) this] t(1) show ?case by auto
qed


lemma wf_to_less:
  assumes "wf_graph gr" "h \<in> half_edges gr"
  shows "to (edge_at gr h) < length gr"
proof -
  from assms have "partner gr h \<in> half_edges gr" by (simp add: wf_graph_def)
  then show ?thesis by (simp add: partner_def half_edges_def)
qed

lemma tree_ok_depth:
  assumes "tree_ok gr source sink par" "v < length gr" "par ! v \<noteq> None"
  shows "\<exists>d. tree_depth par source v d"
proof (cases "v = source")
  case True
  then show ?thesis using tree_depth.root by blast
next
  case False
  from assms(3) obtain u ei where p: "par ! v = Some (u, ei)" by auto
  from assms(1,2) False p obtain d where "tree_depth par source u d"
    unfolding tree_ok_def by blast
  moreover from assms(1,2) have "v < length par" by (simp add: tree_ok_def)
  ultimately have "tree_depth par source v (Suc d)"
    using False p by (intro tree_depth.step)
  then show ?thesis by blast
qed

lemma tree_ok_found:
  assumes ok: "tree_ok gr source sink par"
    and h: "(u, i) \<in> half_edges gr" and res: "0 < residual gr (u, i)"
    and u: "par ! u \<noteq> None" "u \<noteq> sink"
    and v: "v = to (edge_at gr (u, i))" "v < length gr" "par ! v = None"
  shows "tree_ok gr source sink (par[v := Some (u, i)])"
proof -
  let ?par = "par[v := Some (u, i)]"
  from ok have len: "length par = length gr" and src: "source < length gr" "par ! source \<noteq> None"
    by (simp_all add: tree_ok_def)
  from h have ul: "u < length gr" by (simp add: half_edges_def)
  have vs: "v \<noteq> source" using src(2) v(3) by auto
  have vl: "v < length par" using v(2) len by simp
  from tree_ok_depth[OF ok ul u(1)] obtain d where d: "tree_depth par source u d" by blast
  have facts: "(a, b) \<in> half_edges gr \<and> to (edge_at gr (a, b)) = w
                \<and> 0 < residual gr (a, b) \<and> a \<noteq> sink \<and> (\<exists>d. tree_depth ?par source a d)"
    if w: "w < length gr" "w \<noteq> source" "?par ! w = Some (a, b)" for w a b
  proof (cases "w = v")
    case True
    with w(3) vl have "a = u" "b = i" by simp_all
    with h res u(2) v(1) True tree_depth_mono[OF d v(3) vl] show ?thesis by blast
  next
    case False
    with w(3) have old: "par ! w = Some (a, b)" by simp
    with ok w(1,2) have f: "(a, b) \<in> half_edges gr" "to (edge_at gr (a, b)) = w"
      "0 < residual gr (a, b)" "a \<noteq> sink" and "\<exists>d. tree_depth par source a d"
      unfolding tree_ok_def by blast+
    then obtain d' where "tree_depth par source a d'" by blast
    from tree_depth_mono[OF this v(3) vl] f show ?thesis by blast
  qed
  have "?par ! source \<noteq> None" using vs src(2) by simp
  with len src(1) facts show ?thesis unfolding tree_ok_def by auto
qed

lemma scan_step_inv:
  assumes wf: "wf_graph gr"
    and inv: "scan_inv gr source sink u i q par"
    and u: "par ! u \<noteq> None" "u \<noteq> sink" "u < length gr" "i < length (gr ! u)"
  shows "\<exists>par' q'. scan_step u (i, gr ! u ! i) (par, q) = Some (par', q')
           \<and> scan_inv gr source sink u (Suc i) q' par' \<and> par' ! u \<noteq> None
           \<and> 2 * unfound par' + length q' \<le> 2 * unfound par + length q"
proof -
  define e where "e = gr ! u ! i"
  define v where "v = to e"
  from u have h: "(u, i) \<in> half_edges gr" by (simp add: half_edges_def)
  have e: "edge_at gr (u, i) = e" by (simp add: edge_at_def e_def)
  from wf_to_less[OF wf h] have vl: "v < length gr" by (simp add: v_def e)
  from inv have ok: "tree_ok gr source sink par"
    and qs: "\<forall>w \<in> set q. w < length gr \<and> par ! w \<noteq> None"
    and cl: "\<And>k. k \<in> half_edges gr \<Longrightarrow> par ! fst k \<noteq> None \<Longrightarrow> fst k \<notin> set q
                \<Longrightarrow> 0 < residual gr k \<Longrightarrow> (fst k = u \<longrightarrow> snd k < i)
                \<Longrightarrow> par ! to (edge_at gr k) \<noteq> None"
    unfolding scan_inv_def by blast+
  from ok have len: "length par = length gr" by (simp add: tree_ok_def)
  have nl: "\<not> length par \<le> v" using vl len by simp
  have res: "residual gr (u, i) = cap e - flow e" by (simp add: residual_def e)
  show ?thesis
  proof (cases "par ! v = None \<and> 0 < cap e - flow e")
    case True
    let ?par = "par[v := Some (u, i)]"
    have st: "scan_step u (i, gr ! u ! i) (par, q) = Some (?par, q @ [v])"
      unfolding scan_step_def prod.case e_def[symmetric] if_not_P[OF nl] v_def[symmetric]
      using True by simp
    have ok': "tree_ok gr source sink ?par"
      using tree_ok_found[OF ok h _ u(1,2) _ vl] True res e by (simp add: v_def)
    have keep: "?par ! w \<noteq> None" if "par ! w \<noteq> None" for w
      using that True by (cases "w = v") auto
    have vfound: "?par ! v \<noteq> None" using vl len by simp
    have qs': "\<forall>w \<in> set (q @ [v]). w < length gr \<and> ?par ! w \<noteq> None"
      using qs keep vl vfound by auto
    have cl': "?par ! to (edge_at gr k) \<noteq> None"
      if k: "k \<in> half_edges gr" "?par ! fst k \<noteq> None" "fst k \<notin> set (q @ [v])"
        "0 < residual gr k" "fst k = u \<longrightarrow> snd k < Suc i" for k
    proof (cases "k = (u, i)")
      case True
      then show ?thesis using vfound by (simp add: e v_def)
    next
      case False
      have fk: "fst k \<noteq> v" using k(3) by simp
      then have a: "par ! fst k \<noteq> None" using k(2) by simp
      have b: "fst k \<notin> set q" using k(3) by simp
      have c: "fst k = u \<longrightarrow> snd k < i"
      proof
        assume "fst k = u"
        with k(5) False show "snd k < i" by (cases k) (auto simp: less_Suc_eq)
      qed
      from keep[OF cl[OF k(1) a b k(4) c]] show ?thesis .
    qed
    have inv': "scan_inv gr source sink u (Suc i) (q @ [v]) ?par"
      unfolding scan_inv_def using ok' qs' cl' by blast
    have "Suc (unfound ?par) = unfound par"
      using unfound_update[of v par] vl len True by simp
    then have "2 * unfound ?par + length (q @ [v]) \<le> 2 * unfound par + length q" by simp
    with st inv' keep[OF u(1)] show ?thesis by blast
  next
    case False
    have st: "scan_step u (i, gr ! u ! i) (par, q) = Some (par, q)"
      unfolding scan_step_def prod.case e_def[symmetric] if_not_P[OF nl] v_def[symmetric]
      using False by simp
    have cl': "par ! to (edge_at gr k) \<noteq> None"
      if k: "k \<in> half_edges gr" "par ! fst k \<noteq> None" "fst k \<notin> set q"
        "0 < residual gr k" "fst k = u \<longrightarrow> snd k < Suc i" for k
    proof (cases "k = (u, i)")
      case True
      with k(4) res have "0 < cap e - flow e" by simp
      with False have "par ! v \<noteq> None" by simp
      then show ?thesis using True by (simp add: e v_def)
    next
      case nk: False
      have c: "fst k = u \<longrightarrow> snd k < i"
      proof
        assume "fst k = u"
        with k(5) nk show "snd k < i" by (cases k) (auto simp: less_Suc_eq)
      qed
      from cl[OF k(1,2,3,4) c] show ?thesis .
    qed
    have inv': "scan_inv gr source sink u (Suc i) q par"
      unfolding scan_inv_def using ok qs cl' by blast
    with st u(1) show ?thesis by auto
  qed
qed

lemma scan_edges_inv:
  assumes wf: "wf_graph gr"
    and inv: "scan_inv gr source sink u 0 q par"
    and u: "par ! u \<noteq> None" "u \<noteq> sink" "u < length gr"
  shows "\<exists>par' q'. scan_edges gr u (par, q) = Some (par', q')
           \<and> scan_inv gr source sink u (length (gr ! u)) q' par'
           \<and> 2 * unfound par' + length q' \<le> 2 * unfound par + length q"
proof -
  define P where "P i t \<longleftrightarrow> scan_inv gr source sink u i (snd t) (fst t) \<and> fst t ! u \<noteq> None
      \<and> 2 * unfound (fst t) + length (snd t) \<le> 2 * unfound par + length q" for i t
  have P0: "P 0 (par, q)" using inv u(1) by (simp add: P_def)
  have stepP: "\<exists>t'. scan_step u (i, (gr ! u) ! (i - 0)) t = Some t' \<and> P (Suc i) t'"
    if "0 \<le> i" "i < 0 + length (gr ! u)" "P i t" for i t
  proof -
    obtain p' q' where t: "t = (p', q')" by (cases t)
    from that(3) t have a: "scan_inv gr source sink u i q' p'" "p' ! u \<noteq> None"
      "2 * unfound p' + length q' \<le> 2 * unfound par + length q"
      by (simp_all add: P_def)
    from scan_step_inv[OF wf a(1,2) u(2,3)] that(2) obtain p2 q2 where
      "scan_step u (i, gr ! u ! i) (p', q') = Some (p2, q2)"
      "scan_inv gr source sink u (Suc i) q2 p2" "p2 ! u \<noteq> None"
      "2 * unfound p2 + length q2 \<le> 2 * unfound p' + length q'"
      by auto
    with a(3) t show ?thesis by (auto simp: P_def)
  qed
  from fold_opt_enumerate[where P = P and f = "scan_step u" and k = 0 and es = "gr ! u", OF P0 stepP]
  obtain t' where "fold_opt (scan_step u) (enumerate 0 (gr ! u)) (par, q) = Some t'"
    "P (0 + length (gr ! u)) t'" by blast
  then show ?thesis by (cases t') (auto simp: P_def scan_edges_def)
qed

lemma bfs_loop_correct:
  assumes wf: "wf_graph gr" and inv: "bfs_inv gr source sink q par" and sink: "sink < length gr"
  shows "\<exists>par'. bfs_loop gr sink q par = Some par' \<and> tree_ok gr source sink par'
           \<and> (par' ! sink = None \<longrightarrow> closed_under_residual gr par')"
  using inv
proof (induction "2 * unfound par + length q" arbitrary: q par rule: less_induct)
  case less
  note inv = less.prems
  from inv have ok: "tree_ok gr source sink par"
    and qs: "\<forall>v \<in> set q. v < length gr \<and> par ! v \<noteq> None"
    and cl: "\<And>k. k \<in> half_edges gr \<Longrightarrow> par ! fst k \<noteq> None \<Longrightarrow> fst k \<notin> set q
                \<Longrightarrow> 0 < residual gr k \<Longrightarrow> par ! to (edge_at gr k) \<noteq> None"
    unfolding bfs_inv_def by blast+
  show ?case
  proof (cases q)
    case Nil
    have "closed_under_residual gr par"
      unfolding closed_under_residual_def using cl Nil by auto
    moreover have "bfs_loop gr sink q par = Some par"
      using Nil by (subst bfs_loop.simps) simp
    ultimately show ?thesis using ok by (intro exI[of _ par] conjI impI)
  next
    case (Cons u q')
    show ?thesis
    proof (cases "u = sink")
      case True
      have "bfs_loop gr sink q par = Some par"
        using Cons True by (subst bfs_loop.simps) simp
      moreover have "par ! sink \<noteq> None" using qs Cons True by simp
      ultimately show ?thesis using ok by auto
    next
      case False
      from qs Cons have u: "u < length gr" "par ! u \<noteq> None" by simp_all
      have s0: "scan_inv gr source sink u 0 q' par"
        unfolding scan_inv_def
      proof (intro conjI ballI impI)
        show "tree_ok gr source sink par" by (rule ok)
      next
        fix v assume "v \<in> set q'"
        with qs Cons show "v < length gr" "par ! v \<noteq> None" by simp_all
      next
        fix h assume h: "h \<in> half_edges gr"
          and c: "par ! fst h \<noteq> None \<and> fst h \<notin> set q' \<and> 0 < residual gr h \<and> (fst h = u \<longrightarrow> snd h < 0)"
        then have "fst h \<noteq> u" by auto
        with c Cons have "fst h \<notin> set q" by simp
        with cl[OF h] c show "par ! to (edge_at gr h) \<noteq> None" by blast
      qed
      from scan_edges_inv[OF wf s0 u(2) False u(1)] obtain par1 q1 where
        sc: "scan_edges gr u (par, q') = Some (par1, q1)"
        and s1: "scan_inv gr source sink u (length (gr ! u)) q1 par1"
        and m: "2 * unfound par1 + length q1 \<le> 2 * unfound par + length q'"
        by blast
      have inv1: "bfs_inv gr source sink q1 par1"
        unfolding bfs_inv_def
      proof (intro conjI ballI impI)
        show "tree_ok gr source sink par1" using s1 by (simp add: scan_inv_def)
      next
        fix v assume "v \<in> set q1"
        with s1 show "v < length gr" "par1 ! v \<noteq> None" by (simp_all add: scan_inv_def)
      next
        fix h assume h: "h \<in> half_edges gr"
          and c: "par1 ! fst h \<noteq> None \<and> fst h \<notin> set q1 \<and> 0 < residual gr h"
        have "fst h = u \<longrightarrow> snd h < length (gr ! u)"
          using h by (auto simp: half_edges_def)
        with s1 h c show "par1 ! to (edge_at gr h) \<noteq> None"
          unfolding scan_inv_def by blast
      qed
      have "2 * unfound par1 + length q1 < 2 * unfound par + length q"
        using m Cons by simp
      from less.hyps[OF this inv1] obtain par' where
        r: "bfs_loop gr sink q1 par1 = Some par'" "tree_ok gr source sink par'"
           "par' ! sink = None \<longrightarrow> closed_under_residual gr par'"
        by (elim exE conjE)
      have nl: "\<not> length gr \<le> u" using u(1) by simp
      have "bfs_loop gr sink q par = Some par'"
        using Cons False nl sc r(1) by (subst bfs_loop.simps) simp
      with r(2,3) show ?thesis by (intro exI[of _ par'] conjI)
    qed
  qed
qed

lemma bfs_search_correct:
  assumes wf: "wf_graph gr" and src: "source < length gr" and sink: "sink < length gr"
  shows "\<exists>par. bfs_search gr source sink = Some par \<and> tree_ok gr source sink par
           \<and> (par ! sink = None \<longrightarrow> closed_under_residual gr par)"
proof -
  let ?par = "(replicate (length gr) None)[source := Some (source, 0)]"
  have found: "?par ! v \<noteq> None \<longleftrightarrow> v = source" if "v < length gr" for v
    using that src by (cases "v = source") auto
  have ok: "tree_ok gr source sink ?par"
    unfolding tree_ok_def using src found by auto
  have "bfs_inv gr source sink [source] ?par"
    unfolding bfs_inv_def using ok src found by (auto simp: half_edges_def)
  from bfs_loop_correct[OF wf this sink] src show ?thesis
    by (simp add: bfs_search_def)
qed

section \<open>The walks along the tree\<close>

lemma tree_depth_unique:
  assumes "tree_depth par source v d" "tree_depth par source v d'"
  shows "d = d'"
  using assms
proof (induction arbitrary: d' rule: tree_depth.induct)
  case root
  from root show ?case by (cases rule: tree_depth.cases) auto
next
  case (step v u ei d)
  from step.prems step.hyps(1,3) obtain d0 where "d' = Suc d0" "tree_depth par source u d0"
    by (cases rule: tree_depth.cases) auto
  with step.IH show ?case by simp
qed

lemma chain_props:
  assumes ok: "tree_ok gr source sink par"
    and td: "tree_depth par source v d" and v: "v < length gr"
  shows "length (chain_of par d v) = d
         \<and> (\<forall>h \<in> set (chain_of par d v).
               h \<in> half_edges gr \<and> 0 < residual gr h \<and> fst h \<noteq> sink
               \<and> to (edge_at gr h) \<noteq> source \<and> par ! fst h \<noteq> None
               \<and> (\<exists>d' < d. tree_depth par source (fst h) d')
               \<and> to (edge_at gr h) \<in> insert v (fst ` set (chain_of par d v)))
         \<and> distinct (chain_of par d v)"
  using td v
proof (induction rule: tree_depth.induct)
  case root
  show ?case by simp
next
  case (step v u ei d)
  from ok step.hyps(1,3) step.prems have e: "(u, ei) \<in> half_edges gr"
    "to (edge_at gr (u, ei)) = v" "0 < residual gr (u, ei)" "u \<noteq> sink"
    unfolding tree_ok_def by blast+
  from e(1) have ul: "u < length gr" by (simp add: half_edges_def)
  from step.IH[OF ul] have IH: "length (chain_of par d u) = d"
    "\<And>h. h \<in> set (chain_of par d u) \<Longrightarrow>
        h \<in> half_edges gr \<and> 0 < residual gr h \<and> fst h \<noteq> sink
        \<and> to (edge_at gr h) \<noteq> source \<and> par ! fst h \<noteq> None
        \<and> (\<exists>d' < d. tree_depth par source (fst h) d')
        \<and> to (edge_at gr h) \<in> insert u (fst ` set (chain_of par d u))"
    "distinct (chain_of par d u)"
    by blast+
  have ch: "chain_of par (Suc d) v = (u, ei) # chain_of par d u"
    using step.hyps(3) by simp
  have pu: "par ! u \<noteq> None"
  proof (cases "u = source")
    case True
    with ok show ?thesis by (simp add: tree_ok_def)
  next
    case False
    with step.hyps(4) show ?thesis by (cases rule: tree_depth.cases) auto
  qed
  have notin: "(u, ei) \<notin> set (chain_of par d u)"
  proof
    assume "(u, ei) \<in> set (chain_of par d u)"
    from IH(2)[OF this] obtain d' where "d' < d" "tree_depth par source u d'" by auto
    with tree_depth_unique[OF step.hyps(4) this(2)] show False by simp
  qed
  have hd: "(u, ei) \<in> half_edges gr \<and> 0 < residual gr (u, ei) \<and> fst (u, ei) \<noteq> sink
        \<and> to (edge_at gr (u, ei)) \<noteq> source \<and> par ! fst (u, ei) \<noteq> None
        \<and> (\<exists>d' < Suc d. tree_depth par source (fst (u, ei)) d')
        \<and> to (edge_at gr (u, ei)) \<in> insert v (fst ` set (chain_of par (Suc d) v))"
    using e step.hyps(1,4) pu by auto
  have tl: "h \<in> half_edges gr \<and> 0 < residual gr h \<and> fst h \<noteq> sink
        \<and> to (edge_at gr h) \<noteq> source \<and> par ! fst h \<noteq> None
        \<and> (\<exists>d' < Suc d. tree_depth par source (fst h) d')
        \<and> to (edge_at gr h) \<in> insert v (fst ` set (chain_of par (Suc d) v))"
    if "h \<in> set (chain_of par d u)" for h
  proof -
    from IH(2)[OF that] have a: "h \<in> half_edges gr" "0 < residual gr h" "fst h \<noteq> sink"
      "to (edge_at gr h) \<noteq> source" "par ! fst h \<noteq> None"
      and b: "\<exists>d' < d. tree_depth par source (fst h) d'"
      and c: "to (edge_at gr h) \<in> insert u (fst ` set (chain_of par d u))"
      by blast+
    from b have b': "\<exists>d' < Suc d. tree_depth par source (fst h) d'" using less_Suc_eq by blast
    from c have c': "to (edge_at gr h) \<in> insert v (fst ` set (chain_of par (Suc d) v))"
      unfolding ch by auto
    from a b' c' show ?thesis by blast
  qed
  have all: "h \<in> half_edges gr \<and> 0 < residual gr h \<and> fst h \<noteq> sink
        \<and> to (edge_at gr h) \<noteq> source \<and> par ! fst h \<noteq> None
        \<and> (\<exists>d' < Suc d. tree_depth par source (fst h) d')
        \<and> to (edge_at gr h) \<in> insert v (fst ` set (chain_of par (Suc d) v))"
    if "h \<in> set (chain_of par (Suc d) v)" for h
  proof -
    from that have "h = (u, ei) \<or> h \<in> set (chain_of par d u)" unfolding ch by simp
    then show ?thesis using hd tl by metis
  qed
  have len: "length (chain_of par (Suc d) v) = Suc d" unfolding ch using IH(1) by simp
  have dist: "distinct (chain_of par (Suc d) v)" unfolding ch using IH(3) notin by simp
  have all': "\<forall>h \<in> set (chain_of par (Suc d) v).
        h \<in> half_edges gr \<and> 0 < residual gr h \<and> fst h \<noteq> sink
        \<and> to (edge_at gr h) \<noteq> source \<and> par ! fst h \<noteq> None
        \<and> (\<exists>d' < Suc d. tree_depth par source (fst h) d')
        \<and> to (edge_at gr h) \<in> insert v (fst ` set (chain_of par (Suc d) v))"
    by (intro ballI) (rule all)
  show ?case by (rule conjI[OF len conjI[OF all' dist]])
qed


lemma bneck_unit:
  assumes ok: "tree_ok gr source sink par"
    and td: "tree_depth par source v d" and v: "v < length gr"
    and unit: "\<forall>h \<in> set (chain_of par d v). residual gr h = 1"
  shows "bneck_loop gr par source v b = Some (if d = 0 then b else min b 1)"
  using td v unit
proof (induction arbitrary: b rule: tree_depth.induct)
  case root
  show ?case by (subst bneck_loop.simps) simp
next
  case (step v u ei d)
  from ok step.hyps(1,3) step.prems(1) have e: "(u, ei) \<in> half_edges gr"
    unfolding tree_ok_def by blast
  then have r: "\<not> (length gr \<le> u \<or> length (gr ! u) \<le> ei)" "u < length gr"
    by (simp_all add: half_edges_def)
  have ch: "chain_of par (Suc d) v = (u, ei) # chain_of par d u"
    using step.hyps(3) by simp
  from step.prems(2) have res: "residual gr (u, ei) = 1"
    and rest: "\<forall>h \<in> set (chain_of par d u). residual gr h = 1"
    unfolding ch by simp_all
  from res have cf: "cap (gr ! u ! ei) - flow (gr ! u ! ei) = 1"
    by (simp add: residual_def edge_at_def)
  have nl: "\<not> length par \<le> v" using step.hyps(2) by simp
  have "bneck_loop gr par source v b
          = bneck_loop gr par source u (if 1 < b then 1 else b)"
    by (subst bneck_loop.simps)
      (simp only: step.hyps(1) if_False nl step.hyps(3) option.case prod.case r(1) Let_def cf)
  also have "\<dots> = Some (if d = 0 then (if 1 < b then 1 else b) else min (if 1 < b then 1 else b) 1)"
    by (rule step.IH[OF r(2) rest])
  also have "\<dots> = Some (if Suc d = 0 then b else min b 1)" by auto
  finally show ?case .
qed

lemma wf_partner:
  assumes "wf_graph gr" "h \<in> half_edges gr"
  shows "partner gr h \<in> half_edges gr" "partner gr (partner gr h) = h"
    "to (edge_at gr (partner gr h)) = fst h" "to (edge_at gr h) \<noteq> fst h"
  using assms unfolding wf_graph_def by blast+

lemma excess_eq_sum: "excess gr x = (\<Sum>i < length (gr ! x). flow_at gr (x, i))"
proof -
  have "excess gr x = (\<Sum>i = 0..<length (map flow (gr ! x)). map flow (gr ! x) ! i)"
    unfolding excess_def by (rule sum_list_sum_nth)
  also have "\<dots> = (\<Sum>i < length (gr ! x). flow_at gr (x, i))"
    by (simp add: atLeast0LessThan flow_at_def edge_at_def)
  finally show ?thesis .
qed

lemma excess_push:
  assumes wf: "wf_graph gr" and h: "h \<in> half_edges gr"
    and sh: "shape gr' = shape gr"
    and fl: "\<forall>k \<in> half_edges gr. flow_at gr' k
                 = (if k = h then flow_at gr k + c
                    else if k = partner gr h then flow_at gr k - c else flow_at gr k)"
    and x: "x < length gr"
  shows "excess gr' x = excess gr x + (if x = fst h then c else 0)
                          - (if x = to (edge_at gr h) then c else 0)"
proof -
  obtain u i where hh: "h = (u, i)" by (cases h)
  define v where "v = to (edge_at gr h)"
  define j where "j = rev_e (edge_at gr h)"
  have p: "partner gr h = (v, j)" by (simp add: partner_def v_def j_def)
  have pin: "(v, j) \<in> half_edges gr" using wf_partner(1)[OF wf h] p by simp
  have vu: "v \<noteq> u" using wf_partner(4)[OF wf h] by (simp add: v_def hh)
  from h hh have il: "u < length gr" "i < length (gr ! u)" by (simp_all add: half_edges_def)
  from pin have jl: "v < length gr" "j < length (gr ! v)" by (simp_all add: half_edges_def)
  have len: "length (gr' ! x) = length (gr ! x)" by (rule shape_row_length[OF sh x])
  have each: "flow_at gr' (x, k) = flow_at gr (x, k)
                + (if x = u \<and> k = i then c else 0) - (if x = v \<and> k = j then c else 0)"
    if "k < length (gr ! x)" for k
  proof -
    from that x have "(x, k) \<in> half_edges gr" by (simp add: half_edges_def)
    with fl have "flow_at gr' (x, k) = (if (x, k) = h then flow_at gr (x, k) + c
                    else if (x, k) = partner gr h then flow_at gr (x, k) - c else flow_at gr (x, k))"
      by blast
    moreover have "partner gr (u, i) = (v, j)" using p hh by simp
    ultimately show ?thesis using vu by (auto simp: hh)
  qed
  have "excess gr' x = (\<Sum>k < length (gr ! x). flow_at gr' (x, k))"
    unfolding excess_eq_sum len by (rule refl)
  also have "\<dots> = (\<Sum>k < length (gr ! x). flow_at gr (x, k)
                + (if x = u \<and> k = i then c else 0) - (if x = v \<and> k = j then c else 0))"
    by (rule sum.cong) (simp_all add: each)
  also have "\<dots> = (\<Sum>k < length (gr ! x). flow_at gr (x, k))
                + (\<Sum>k < length (gr ! x). if x = u \<and> k = i then c else 0)
                - (\<Sum>k < length (gr ! x). if x = v \<and> k = j then c else 0)"
    by (simp add: sum.distrib sum_subtractf)
  also have "(\<Sum>k < length (gr ! x). if x = u \<and> k = i then c else 0) = (if x = u then c else 0)"
  proof (cases "x = u")
    case True
    then have "(\<Sum>k < length (gr ! x). if x = u \<and> k = i then c else 0)
                 = (\<Sum>k \<in> {..<length (gr ! u)}. if k = i then c else 0)" by simp
    also have "\<dots> = c" using il(2) by (simp add: sum.delta)
    finally show ?thesis using True by simp
  next
    case False
    then show ?thesis by simp
  qed
  also have "(\<Sum>k < length (gr ! x). if x = v \<and> k = j then c else 0) = (if x = v then c else 0)"
  proof (cases "x = v")
    case True
    then have "(\<Sum>k < length (gr ! x). if x = v \<and> k = j then c else 0)
                 = (\<Sum>k \<in> {..<length (gr ! v)}. if k = j then c else 0)" by simp
    also have "\<dots> = c" using jl(2) by (simp add: sum.delta)
    finally show ?thesis using True by simp
  next
    case False
    then show ?thesis by simp
  qed
  finally show ?thesis by (simp add: excess_eq_sum hh v_def)
qed


lemma tree_depth_zero: "tree_depth par source u 0 \<Longrightarrow> u = source"
  by (cases rule: tree_depth.cases) auto

lemma augment_effect:
  assumes ok: "tree_ok gr0 source sink par" and wf0: "wf_graph gr0"
    and td: "tree_depth par source v d" and v: "v < length gr0"
    and sh: "shape gr = shape gr0"
  shows "\<exists>gr'. augment_loop par source c v gr = Some gr' \<and> shape gr' = shape gr0
           \<and> (\<forall>k \<in> half_edges gr0. flow_at gr' k = flow_at gr k
                  + c * int (count_list (chain_of par d v) k)
                  - c * int (count_list (map (partner gr0) (chain_of par d v)) k))
           \<and> (\<forall>x < length gr0. excess gr' x = excess gr x
                  + (if 0 < d \<and> x = source then c else 0) - (if 0 < d \<and> x = v then c else 0))"
  using td v sh
proof (induction arbitrary: gr rule: tree_depth.induct)
  case root
  have "augment_loop par source c source gr = Some gr"
    by (subst augment_loop.simps) simp
  with root show ?case by simp
next
  case (step v u ei d)
  note sh = step.prems(2)
  from ok step.hyps(1,3) step.prems(1) have e0: "(u, ei) \<in> half_edges gr0"
    and tv: "to (edge_at gr0 (u, ei)) = v"
    unfolding tree_ok_def by blast+
  have he: "half_edges gr = half_edges gr0" by (rule shape_half_edges[OF sh])
  have lg: "length gr = length gr0" by (rule shape_length[OF sh])
  have wf: "wf_graph gr" by (rule shape_wf[OF sh wf0])
  have e: "(u, ei) \<in> half_edges gr" using e0 he by simp
  from e0 have ul: "u < length gr0" by (simp add: half_edges_def)
  have pe: "partner gr (u, ei) = partner gr0 (u, ei)" by (rule shape_partner[OF sh e0])
  have te: "to (edge_at gr (u, ei)) = v" using shape_edge(1)[OF sh e0] tv by simp
  from push_flow_props[OF wf e, of c] obtain g1 where
    g1: "push_flow u ei c gr = Some g1" "shape g1 = shape gr"
      and f1: "\<forall>k \<in> half_edges gr. flow_at g1 k
                 = (if k = (u, ei) then flow_at gr k + c
                    else if k = partner gr (u, ei) then flow_at gr k - c else flow_at gr k)"
    by auto
  have sh1: "shape g1 = shape gr0" using g1(2) sh by simp
  from step.IH[OF ul sh1] obtain gr' where
    r: "augment_loop par source c u g1 = Some gr'" "shape gr' = shape gr0"
    and fr: "\<And>k. k \<in> half_edges gr0 \<Longrightarrow> flow_at gr' k = flow_at g1 k
                  + c * int (count_list (chain_of par d u) k)
                  - c * int (count_list (map (partner gr0) (chain_of par d u)) k)"
    and er: "\<And>x. x < length gr0 \<Longrightarrow> excess gr' x = excess g1 x
                  + (if 0 < d \<and> x = source then c else 0) - (if 0 < d \<and> x = u then c else 0)"
    by blast
  have nl: "\<not> length par \<le> v" using step.hyps(2) by simp
  have run: "augment_loop par source c v gr = Some gr'"
    by (subst augment_loop.simps)
      (simp only: step.hyps(1) if_False nl step.hyps(3) option.case prod.case g1(1) r(1))
  have ch: "chain_of par (Suc d) v = (u, ei) # chain_of par d u"
    using step.hyps(3) by simp
  have pne: "partner gr0 (u, ei) \<noteq> (u, ei)"
    using wf_partner(4)[OF wf0 e0] by (auto simp: partner_def)
  have flows: "flow_at gr' k = flow_at gr k
                  + c * int (count_list (chain_of par (Suc d) v) k)
                  - c * int (count_list (map (partner gr0) (chain_of par (Suc d) v)) k)"
    if k: "k \<in> half_edges gr0" for k
  proof -
    from f1 k he pe have "flow_at g1 k = (if k = (u, ei) then flow_at gr k + c
                    else if k = partner gr0 (u, ei) then flow_at gr k - c else flow_at gr k)"
      by simp
    with fr[OF k] pne show ?thesis unfolding ch by (auto simp: algebra_simps)
  qed
  have exc: "excess gr' x = excess gr x
                  + (if 0 < Suc d \<and> x = source then c else 0) - (if 0 < Suc d \<and> x = v then c else 0)"
    if x: "x < length gr0" for x
  proof -
    from x lg have xg: "x < length gr" by simp
    from excess_push[OF wf e g1(2) f1 xg] te
    have e1: "excess g1 x = excess gr x + (if x = u then c else 0) - (if x = v then c else 0)"
      by simp
    show ?thesis
    proof (cases "d = 0")
      case True
      with step.hyps(4) have "u = source" using tree_depth_zero by blast
      with er[OF x] e1 True show ?thesis by simp
    next
      case False
      with er[OF x] e1 show ?thesis by simp
    qed
  qed
  from run r(2) flows exc show ?case by blast
qed

section \<open>One augmentation\<close>

lemma net_ok_shape:
  assumes sh: "shape gr' = shape gr" and ok: "net_ok source sink gr"
  shows "net_ok source sink gr'"
proof -
  from ok have wf: "wf_graph gr" by (simp add: net_ok_def)
  have he: "half_edges gr' = half_edges gr" by (rule shape_half_edges[OF sh])
  have len: "length gr' = length gr" by (rule shape_length[OF sh])
  have edges: "0 \<le> cap (edge_at gr' h)
            \<and> (cap (edge_at gr' h) = 0 \<or> cap (edge_at gr' (partner gr' h)) = 0)
            \<and> (1 < cap (edge_at gr' h) \<longrightarrow> fst h = source - 1 \<or> to (edge_at gr' h) = sink + 1)
            \<and> (0 < cap (edge_at gr' h)
                 \<longrightarrow> (even (fst h) \<and> to (edge_at gr' h) = fst h + 1)
                     \<or> (odd (fst h) \<and> even (to (edge_at gr' h))))"
    if "h \<in> half_edges gr'" for h
  proof -
    from that he have h: "h \<in> half_edges gr" by simp
    have p: "partner gr h \<in> half_edges gr" by (rule wf_partner(1)[OF wf h])
    from ok h have "0 \<le> cap (edge_at gr h)
            \<and> (cap (edge_at gr h) = 0 \<or> cap (edge_at gr (partner gr h)) = 0)
            \<and> (1 < cap (edge_at gr h) \<longrightarrow> fst h = source - 1 \<or> to (edge_at gr h) = sink + 1)
            \<and> (0 < cap (edge_at gr h)
                 \<longrightarrow> (even (fst h) \<and> to (edge_at gr h) = fst h + 1)
                     \<or> (odd (fst h) \<and> even (to (edge_at gr h))))"
      unfolding net_ok_def by blast
    then show ?thesis
      unfolding shape_partner[OF sh h] shape_edge[OF sh h] shape_edge[OF sh p] .
  qed
  from ok have "odd source" "even sink" "source < length gr" "sink + 1 < length gr" "source \<noteq> sink + 1"
    by (simp_all add: net_ok_def)
  with shape_wf[OF sh wf] edges len show ?thesis unfolding net_ok_def by simp
qed

lemma flow_ok_partner:
  assumes "flow_ok gr" "h \<in> half_edges gr"
  shows "flow_at gr h \<le> cap (edge_at gr h)" "flow_at gr (partner gr h) = - flow_at gr h"
  using assms unfolding flow_ok_def by blast+

lemma net_ok_edge:
  assumes "net_ok source sink gr" "h \<in> half_edges gr"
  shows "0 \<le> cap (edge_at gr h)"
    "cap (edge_at gr h) = 0 \<or> cap (edge_at gr (partner gr h)) = 0"
    "1 < cap (edge_at gr h) \<Longrightarrow> fst h = source - 1 \<or> to (edge_at gr h) = sink + 1"
    "0 < cap (edge_at gr h) \<Longrightarrow> (even (fst h) \<and> to (edge_at gr h) = fst h + 1)
                     \<or> (odd (fst h) \<and> even (to (edge_at gr h)))"
  using assms unfolding net_ok_def by blast+

lemma dead_flow:
  assumes inv: "ek_inv source sink gr" and h: "h \<in> half_edges gr"
    and d: "fst h = source - 1 \<or> fst h = sink + 1
            \<or> to (edge_at gr h) = source - 1 \<or> to (edge_at gr h) = sink + 1"
  shows "flow_at gr h = 0"
proof -
  from inv have net: "net_ok source sink gr" and fl: "flow_ok gr" and dd: "dead_ok source sink gr"
    by (simp_all add: ek_inv_def)
  from net have wf: "wf_graph gr" by (simp add: net_ok_def)
  show ?thesis
  proof (cases "fst h = source - 1 \<or> fst h = sink + 1")
    case True
    with dd h show ?thesis unfolding dead_ok_def by blast
  next
    case False
    with d have "fst (partner gr h) = source - 1 \<or> fst (partner gr h) = sink + 1"
      by (simp add: partner_def)
    with dd wf_partner(1)[OF wf h] have "flow_at gr (partner gr h) = 0"
      unfolding dead_ok_def by blast
    with flow_ok_partner(2)[OF fl h] show ?thesis by simp
  qed
qed

text \<open>A half-edge with residual capacity that the search may follow has residual capacity
  exactly 1, and touches neither the in-node of the start room nor the out-node of the end
  room on the side it leaves from or arrives at.\<close>

lemma residual_unit:
  assumes inv: "ek_inv source sink gr" and h: "h \<in> half_edges gr"
    and res: "0 < residual gr h"
    and ns: "to (edge_at gr h) \<noteq> source" and nt: "fst h \<noteq> sink"
  shows "residual gr h = 1" "fst h \<noteq> source - 1" "to (edge_at gr h) \<noteq> sink + 1"
proof -
  from inv have net: "net_ok source sink gr" and fl: "flow_ok gr"
    by (simp_all add: ek_inv_def)
  from net have wf: "wf_graph gr" and par: "odd source" "even sink" "source \<noteq> sink + 1"
    by (simp_all add: net_ok_def)
  note ne = net_ok_edge[OF net h]
  have p: "partner gr h \<in> half_edges gr" by (rule wf_partner(1)[OF wf h])
  note np = net_ok_edge[OF net p]
  have tp: "to (edge_at gr (partner gr h)) = fst h" by (rule wf_partner(3)[OF wf h])
  have fp: "fst (partner gr h) = to (edge_at gr h)" by (simp add: partner_def)
  have loop: "to (edge_at gr h) \<noteq> fst h" by (rule wf_partner(4)[OF wf h])
  have r: "residual gr h = cap (edge_at gr h) - flow_at gr h"
    by (simp add: residual_def flow_at_def)
  from par(1) have s1: "source - 1 + 1 = source" "even (source - 1)" by (auto elim: oddE)
  show a: "fst h \<noteq> source - 1"
  proof
    assume A: "fst h = source - 1"
    with dead_flow[OF inv h] have "flow_at gr h = 0" by simp
    with res r have "0 < cap (edge_at gr h)" by simp
    from ne(4)[OF this] A s1 have "to (edge_at gr h) = source" by auto
    with ns show False by simp
  qed
  show b: "to (edge_at gr h) \<noteq> sink + 1"
  proof
    assume B: "to (edge_at gr h) = sink + 1"
    with dead_flow[OF inv h] have "flow_at gr h = 0" by simp
    with res r have "0 < cap (edge_at gr h)" by simp
    from ne(4)[OF this] B par(2) have "fst h = sink" by auto
    with nt show False by simp
  qed
  have c1: "cap (edge_at gr h) \<le> 1"
    using ne(3) a b by fastforce
  show "residual gr h = 1"
  proof (cases "fst h = sink + 1 \<or> to (edge_at gr h) = source - 1")
    case True
    with dead_flow[OF inv h] have "flow_at gr h = 0" by blast
    with res r c1 show ?thesis by simp
  next
    case False
    have "cap (edge_at gr (partner gr h)) \<le> 1"
      using np(3) False fp tp by fastforce
    moreover have "- flow_at gr h \<le> cap (edge_at gr (partner gr h))"
      using flow_ok_partner[OF fl p] flow_ok_partner(2)[OF fl h] by simp
    ultimately show ?thesis using res r c1 ne(2) by linarith
  qed
qed

lemma count_partner:
  assumes wf: "wf_graph gr" and k: "k \<in> half_edges gr"
    and ch: "set chain \<subseteq> half_edges gr"
  shows "count_list (map (partner gr) chain) k = count_list chain (partner gr k)"
  using ch
proof (induction chain)
  case Nil
  show ?case by simp
next
  case (Cons h chain)
  then have h: "h \<in> half_edges gr" and rest: "set chain \<subseteq> half_edges gr" by simp_all
  have "partner gr h = k \<longleftrightarrow> h = partner gr k"
    using wf_partner(2)[OF wf h] wf_partner(2)[OF wf k] by auto
  with Cons.IH[OF rest] show ?case by simp
qed

lemma count_le_one: "distinct xs \<Longrightarrow> count_list xs x \<le> 1"
  by (induction xs) auto

lemma count_pos_mem: "0 < count_list xs x \<longleftrightarrow> x \<in> set xs"
  by (induction xs) auto

lemma augment_inv:
  assumes inv: "ek_inv source sink gr" and ok: "tree_ok gr source sink par"
    and found: "par ! sink \<noteq> None"
  shows "bneck_loop gr par source sink INF_cap = Some 1
         \<and> (\<exists>gr'. augment_loop par source 1 sink gr = Some gr' \<and> shape gr' = shape gr
                \<and> ek_inv source sink gr' \<and> excess gr' source = excess gr source + 1)"
proof -
  from inv have net: "net_ok source sink gr" and fl: "flow_ok gr"
    and dd: "dead_ok source sink gr" and cons: "conserved source sink gr"
    by (simp_all add: ek_inv_def)
  from net have wf: "wf_graph gr" and par: "odd source" "even sink" "source \<noteq> sink + 1"
    and sl: "source < length gr" and tl: "sink < length gr"
    by (simp_all add: net_ok_def)
  from par have st: "sink \<noteq> source" by auto
  from tree_ok_depth[OF ok tl found] obtain d where td: "tree_depth par source sink d" by blast
  have dpos: "0 < d"
  proof (rule ccontr)
    assume "\<not> 0 < d"
    with td have "tree_depth par source sink 0" by simp
    from tree_depth_zero[OF this] st show False by simp
  qed
  define chain where "chain = chain_of par d sink"
  from chain_props[OF ok td tl] have cp: "length chain = d" "distinct chain"
    and ce: "\<And>h. h \<in> set chain \<Longrightarrow> h \<in> half_edges gr \<and> 0 < residual gr h \<and> fst h \<noteq> sink
               \<and> to (edge_at gr h) \<noteq> source \<and> par ! fst h \<noteq> None
               \<and> to (edge_at gr h) \<in> insert sink (fst ` set chain)"
    unfolding chain_def by blast+
  have sub: "set chain \<subseteq> half_edges gr" using ce by blast
  have unit: "residual gr h = 1" "fst h \<noteq> source - 1" "to (edge_at gr h) \<noteq> sink + 1"
    if "h \<in> set chain" for h
    using residual_unit[OF inv, of h] ce[OF that] by blast+
  have Bnone: "par ! (sink + 1) = None"
  proof (rule ccontr)
    assume "par ! (sink + 1) \<noteq> None"
    then obtain u ei where p: "par ! (sink + 1) = Some (u, ei)" by auto
    from net have "sink + 1 < length gr" by (simp add: net_ok_def)
    with ok p par(3) have e: "(u, ei) \<in> half_edges gr" "to (edge_at gr (u, ei)) = sink + 1"
      "0 < residual gr (u, ei)" "u \<noteq> sink"
      unfolding tree_ok_def by metis+
    from residual_unit(3)[OF inv e(1,3)] e(2,4) par(3) show False by simp
  qed
  have srcB: "fst h \<noteq> sink + 1" if "h \<in> set chain" for h
    using ce[OF that] Bnone by auto
  have tgt: "to (edge_at gr h) \<noteq> source - 1" if "h \<in> set chain" for h
  proof -
    from ce[OF that] have "to (edge_at gr h) = sink \<or> to (edge_at gr h) \<in> fst ` set chain" by blast
    then show ?thesis
    proof
      assume "to (edge_at gr h) = sink"
      with par show ?thesis by (auto elim: oddE)
    next
      assume "to (edge_at gr h) \<in> fst ` set chain"
      then obtain h' where "h' \<in> set chain" "to (edge_at gr h) = fst h'" by auto
      with unit(2)[of h'] show ?thesis by simp
    qed
  qed
  have bn: "bneck_loop gr par source sink INF_cap = Some 1"
    using bneck_unit[OF ok td tl, of INF_cap] unit(1) dpos
    by (simp add: chain_def INF_cap_def)
  from augment_effect[OF ok wf td tl refl, of 1] obtain gr' where
    run: "augment_loop par source 1 sink gr = Some gr'" and sh: "shape gr' = shape gr"
    and fr: "\<And>k. k \<in> half_edges gr \<Longrightarrow> flow_at gr' k = flow_at gr k
                  + int (count_list chain k) - int (count_list (map (partner gr) chain) k)"
    and er: "\<And>x. x < length gr \<Longrightarrow> excess gr' x = excess gr x
                  + (if x = source then 1 else 0) - (if x = sink then 1 else 0)"
    unfolding chain_def using dpos by (auto simp: )
  have he: "half_edges gr' = half_edges gr" by (rule shape_half_edges[OF sh])
  have fr': "flow_at gr' k = flow_at gr k
                  + int (count_list chain k) - int (count_list chain (partner gr k))"
    if "k \<in> half_edges gr" for k
    using fr[OF that] count_partner[OF wf that sub] by simp
  have flow': "flow_ok gr'"
    unfolding flow_ok_def
  proof
    fix k assume "k \<in> half_edges gr'"
    then have k: "k \<in> half_edges gr" using he by simp
    have pk: "partner gr k \<in> half_edges gr" by (rule wf_partner(1)[OF wf k])
    have capk: "flow_at gr' k \<le> cap (edge_at gr k)"
    proof (cases "k \<in> set chain")
      case True
      from unit(1)[OF True] have "flow_at gr k + 1 = cap (edge_at gr k)"
        by (simp add: residual_def flow_at_def)
      moreover have "count_list chain k \<le> 1" by (rule count_le_one[OF cp(2)])
      ultimately show ?thesis using fr'[OF k] by simp
    next
      case False
      then have "count_list chain k = 0" using count_pos_mem[of chain k] by simp
      with fr'[OF k] flow_ok_partner(1)[OF fl k] show ?thesis by simp
    qed
    have "flow_at gr' (partner gr k) = - flow_at gr' k"
      using fr'[OF pk] fr'[OF k] wf_partner(2)[OF wf k] flow_ok_partner(2)[OF fl k] by simp
    with capk show "flow_at gr' k \<le> cap (edge_at gr' k)
                    \<and> flow_at gr' (partner gr' k) = - flow_at gr' k"
      unfolding shape_partner[OF sh k] shape_edge[OF sh k] by simp
  qed
  have dead': "dead_ok source sink gr'"
    unfolding dead_ok_def
  proof (intro ballI impI)
    fix k assume "k \<in> half_edges gr'" and at: "fst k = source - 1 \<or> fst k = sink + 1"
    then have k: "k \<in> half_edges gr" using he by simp
    have "k \<notin> set chain" using unit(2)[of k] srcB[of k] at by blast
    then have c1: "count_list chain k = 0" using count_pos_mem[of chain k] by simp
    have "partner gr k \<notin> set chain"
    proof
      assume m: "partner gr k \<in> set chain"
      have "to (edge_at gr (partner gr k)) = fst k" by (rule wf_partner(3)[OF wf k])
      with unit(3)[OF m] tgt[OF m] at show False by simp
    qed
    then have c2: "count_list chain (partner gr k) = 0"
      using count_pos_mem[of chain "partner gr k"] by simp
    from dd k at have "flow_at gr k = 0" unfolding dead_ok_def by blast
    with fr'[OF k] c1 c2 show "flow_at gr' k = 0" by simp
  qed
  have cons': "conserved source sink gr'"
    unfolding conserved_def shape_length[OF sh]
    using er cons by (simp add: conserved_def)
  have "ek_inv source sink gr'"
    unfolding ek_inv_def using net_ok_shape[OF sh net] flow' dead' cons' by simp
  moreover have "excess gr' source = excess gr source + 1"
    using er[OF sl] st by simp
  ultimately show ?thesis using bn run sh by blast
qed

text \<open>One call of \<open>bfs\<close> under the invariant: either the sink is not reached, nothing
  changes and the nodes found are closed under residual half-edges, or the bottleneck is 1
  and one unit is pushed.\<close>

lemma bfs_step:
  assumes inv: "ek_inv source sink gr"
  shows "\<exists>par. bfs_search gr source sink = Some par \<and> tree_ok gr source sink par
           \<and> (par ! sink = None \<longrightarrow> bfs gr source sink = Some (gr, 0) \<and> closed_under_residual gr par)
           \<and> (par ! sink \<noteq> None \<longrightarrow> bneck_loop gr par source sink INF_cap = Some 1
                \<and> (\<exists>gr'. bfs gr source sink = Some (gr', 1) \<and> shape gr' = shape gr
                      \<and> ek_inv source sink gr' \<and> excess gr' source = excess gr source + 1))"
proof -
  from inv have net: "net_ok source sink gr" by (simp add: ek_inv_def)
  then have wf: "wf_graph gr" and sl: "source < length gr" and tl: "sink < length gr"
    by (simp_all add: net_ok_def)
  from bfs_search_correct[OF wf sl tl] obtain par where
    s: "bfs_search gr source sink = Some par" and ok: "tree_ok gr source sink par"
    and cl: "par ! sink = None \<longrightarrow> closed_under_residual gr par"
    by (elim exE conjE)
  from ok tl have nl: "\<not> length par \<le> sink" by (simp add: tree_ok_def)
  have none: "bfs gr source sink = Some (gr, 0)" if "par ! sink = None"
    unfolding bfs_def s option.case if_not_P[OF nl] using that by simp
  have some: "bneck_loop gr par source sink INF_cap = Some 1
                \<and> (\<exists>gr'. bfs gr source sink = Some (gr', 1) \<and> shape gr' = shape gr
                      \<and> ek_inv source sink gr' \<and> excess gr' source = excess gr source + 1)"
    if f: "par ! sink \<noteq> None"
  proof -
    from augment_inv[OF inv ok f] obtain gr' where
      b: "bneck_loop gr par source sink INF_cap = Some 1"
      and a: "augment_loop par source 1 sink gr = Some gr'" "shape gr' = shape gr"
        "ek_inv source sink gr'" "excess gr' source = excess gr source + 1"
      by (elim exE conjE)
    have "bfs gr source sink = Some (gr', 1)"
      unfolding bfs_def s option.case if_not_P[OF nl] if_not_P[OF f] b using a(1) by simp
    with b a show ?thesis by (intro conjI exI[of _ gr'])
  qed
  show ?thesis
  proof (intro exI[of _ par] conjI impI)
    show "bfs_search gr source sink = Some par" by (rule s)
    show "tree_ok gr source sink par" by (rule ok)
    show "bfs gr source sink = Some (gr, 0)" if "par ! sink = None" by (rule none[OF that])
    show "closed_under_residual gr par" if "par ! sink = None" using cl that by simp
    show "bneck_loop gr par source sink INF_cap = Some 1" if "par ! sink \<noteq> None"
      using some[OF that] by (elim conjE)
    show "\<exists>gr'. bfs gr source sink = Some (gr', 1) \<and> shape gr' = shape gr
                      \<and> ek_inv source sink gr' \<and> excess gr' source = excess gr source + 1"
      if "par ! sink \<noteq> None"
      using some[OF that] by (elim conjE)
  qed
qed

section \<open>The network built from a graph\<close>

lemma addEdge_length: "length (addEdge u v c gr) = length gr"
  by (simp add: addEdge_def Let_def)

lemma addEdge_row:
  assumes "u < length gr" "v < length gr" "u \<noteq> v" "x < length gr"
  shows "addEdge u v c gr ! x =
           (if x = u then gr ! u @ [\<lparr>to = v, rev_e = length (gr ! v), cap = c, flow = 0\<rparr>]
            else if x = v then gr ! v @ [\<lparr>to = u, rev_e = length (gr ! u), cap = 0, flow = 0\<rparr>]
            else gr ! x)"
  using assms by (auto simp: addEdge_def Let_def nth_list_update)

lemma addEdge_half_edges:
  assumes "u < length gr" "v < length gr" "u \<noteq> v"
  shows "half_edges (addEdge u v c gr)
           = half_edges gr \<union> {(u, length (gr ! u)), (v, length (gr ! v))}"
proof -
  have "(x, i) \<in> half_edges (addEdge u v c gr)
          \<longleftrightarrow> (x, i) \<in> half_edges gr \<union> {(u, length (gr ! u)), (v, length (gr ! v))}" for x i
  proof (cases "x < length gr")
    case True
    from addEdge_row[OF assms True, of c] True assms show ?thesis
      by (auto simp: half_edges_def addEdge_length less_Suc_eq)
  next
    case False
    with assms show ?thesis by (auto simp: half_edges_def addEdge_length)
  qed
  then show ?thesis by auto
qed

lemma addEdge_old:
  assumes "u < length gr" "v < length gr" "u \<noteq> v" "h \<in> half_edges gr"
  shows "edge_at (addEdge u v c gr) h = edge_at gr h"
proof -
  obtain x i where h: "h = (x, i)" by (cases h)
  with assms(4) have xi: "x < length gr" "i < length (gr ! x)" by (simp_all add: half_edges_def)
  from addEdge_row[OF assms(1-3) xi(1), of c] xi(2) show ?thesis
    by (auto simp: edge_at_def h nth_append)
qed

lemma addEdge_new:
  assumes "u < length gr" "v < length gr" "u \<noteq> v"
  shows "edge_at (addEdge u v c gr) (u, length (gr ! u))
           = \<lparr>to = v, rev_e = length (gr ! v), cap = c, flow = 0\<rparr>"
    and "edge_at (addEdge u v c gr) (v, length (gr ! v))
           = \<lparr>to = u, rev_e = length (gr ! u), cap = 0, flow = 0\<rparr>"
  using addEdge_row[OF assms assms(1), of c] addEdge_row[OF assms assms(2), of c] assms(3)
  by (simp_all add: edge_at_def)


lemma built_from_empty: "built_from [] (replicate n [])"
  by (auto simp: built_from_def wf_graph_def half_edges_def)

lemma addEdge_built:
  assumes b: "built_from T gr" and u: "u < length gr" and v: "v < length gr"
    and uv: "u \<noteq> v" and c: "0 < c"
  shows "built_from (T @ [(u, v, c)]) (addEdge u v c gr)"
proof -
  define gr' where "gr' = addEdge u v c gr"
  define hu where "hu = (u, length (gr ! u))"
  define hv where "hv = (v, length (gr ! v))"
  from b have wf: "wf_graph gr" by (simp add: built_from_def)
  have he: "half_edges gr' = half_edges gr \<union> {hu, hv}"
    unfolding gr'_def hu_def hv_def by (rule addEdge_half_edges[OF u v uv])
  have old: "edge_at gr' h = edge_at gr h" if "h \<in> half_edges gr" for h
    unfolding gr'_def by (rule addEdge_old[OF u v uv that])
  have eu: "edge_at gr' hu = \<lparr>to = v, rev_e = length (gr ! v), cap = c, flow = 0\<rparr>"
    and ev: "edge_at gr' hv = \<lparr>to = u, rev_e = length (gr ! u), cap = 0, flow = 0\<rparr>"
    unfolding gr'_def hu_def hv_def by (rule addEdge_new[OF u v uv])+
  have pu: "partner gr' hu = hv" and pv: "partner gr' hv = hu"
    unfolding partner_def eu ev by (simp_all add: hu_def hv_def)
  have pold: "partner gr' h = partner gr h" if "h \<in> half_edges gr" for h
    by (simp add: partner_def old[OF that])
  have wf': "wf_graph gr'"
    unfolding wf_graph_def
  proof
    fix h assume "h \<in> half_edges gr'"
    then consider (o) "h \<in> half_edges gr" | (u) "h = hu" | (v) "h = hv" using he by auto
    then show "partner gr' h \<in> half_edges gr' \<and> partner gr' (partner gr' h) = h
               \<and> to (edge_at gr' (partner gr' h)) = fst h \<and> to (edge_at gr' h) \<noteq> fst h"
    proof cases
      case o
      note p = wf_partner[OF wf o]
      show ?thesis
        unfolding pold[OF o] pold[OF p(1)] old[OF o] old[OF p(1)]
        using p he by simp
    next
      case u
      show ?thesis unfolding u pu pv eu ev using he uv by (simp add: hu_def)
    next
      case v
      show ?thesis unfolding v pu pv eu ev using he uv by (simp add: hv_def)
    qed
  qed
  have edges: "flow_at gr' h = 0
            \<and> ((0 < cap (edge_at gr' h) \<and> cap (edge_at gr' (partner gr' h)) = 0
                 \<and> (fst h, to (edge_at gr' h), cap (edge_at gr' h)) \<in> set (T @ [(u, v, c)]))
                \<or> (cap (edge_at gr' h) = 0 \<and> 0 < cap (edge_at gr' (partner gr' h))
                   \<and> (to (edge_at gr' h), fst h, cap (edge_at gr' (partner gr' h))) \<in> set (T @ [(u, v, c)])))"
    if "h \<in> half_edges gr'" for h
  proof -
    from that consider (o) "h \<in> half_edges gr" | (u) "h = hu" | (v) "h = hv" using he by auto
    then show ?thesis
    proof cases
      case o
      note p = wf_partner[OF wf o]
      from b o have "flow_at gr h = 0
            \<and> ((0 < cap (edge_at gr h) \<and> cap (edge_at gr (partner gr h)) = 0
                 \<and> (fst h, to (edge_at gr h), cap (edge_at gr h)) \<in> set T)
                \<or> (cap (edge_at gr h) = 0 \<and> 0 < cap (edge_at gr (partner gr h))
                   \<and> (to (edge_at gr h), fst h, cap (edge_at gr (partner gr h))) \<in> set T))"
        unfolding built_from_def by blast
      then show ?thesis
        unfolding flow_at_def pold[OF o] old[OF o] old[OF p(1)] by auto
    next
      case u
      show ?thesis unfolding u pu flow_at_def eu ev using c by (simp add: hu_def)
    next
      case v
      show ?thesis unfolding v pv flow_at_def eu ev using c by (simp add: hv_def)
    qed
  qed
  have len: "length gr' = length gr" unfolding gr'_def by (rule addEdge_length)
  have mult: "length (filter (\<lambda>e. to e = y \<and> 0 < cap e) (gr' ! a))
              = length (filter (\<lambda>t. fst t = a \<and> fst (snd t) = y) (T @ [(u, v, c)]))"
    if a: "a < length gr'" for a y
  proof -
    from a len have al: "a < length gr" by simp
    from b al have m: "length (filter (\<lambda>e. to e = y \<and> 0 < cap e) (gr ! a))
              = length (filter (\<lambda>t. fst t = a \<and> fst (snd t) = y) T)"
      unfolding built_from_def by blast
    show ?thesis
      unfolding gr'_def addEdge_row[OF u v uv al] using m c uv by auto
  qed
  show ?thesis
    unfolding gr'_def[symmetric] built_from_def using wf' edges mult by blast
qed

lemma add_all_built:
  assumes "built_from T gr"
    and "\<forall>t \<in> set es. fst t < length gr \<and> fst (snd t) < length gr \<and> fst t \<noteq> fst (snd t) \<and> 0 < snd (snd t)"
  shows "built_from (T @ es) (add_all es gr) \<and> length (add_all es gr) = length gr"
  using assms
proof (induction es arbitrary: T gr)
  case Nil
  then show ?case by (simp add: add_all_def)
next
  case (Cons t es)
  obtain u v c where t: "t = (u, v, c)" by (cases t)
  with Cons.prems(2) have c: "u < length gr" "v < length gr" "u \<noteq> v" "0 < c" by simp_all
  have b1: "built_from (T @ [(u, v, c)]) (addEdge u v c gr)"
    by (rule addEdge_built[OF Cons.prems(1) c])
  have r: "\<forall>t \<in> set es. fst t < length (addEdge u v c gr) \<and> fst (snd t) < length (addEdge u v c gr)
             \<and> fst t \<noteq> fst (snd t) \<and> 0 < snd (snd t)"
    using Cons.prems(2) by (simp add: addEdge_length)
  from Cons.IH[OF b1 r] show ?case by (simp add: add_all_def t addEdge_length)
qed

lemma add_room_edges_eq:
  "add_room_edges names sn en gr = add_all (room_triples names sn en) gr"
  by (simp add: add_room_edges_def add_all_def room_triples_def fold_map comp_def Let_def)

lemma fold_concat': "fold f (concat xss) = fold (fold f) xss"
  by (induction xss) simp_all

lemma add_link_edges_eq:
  "add_link_edges g names gr = add_all (link_triples g names) gr"
  by (simp add: add_link_edges_def add_all_def link_triples_def fold_concat' fold_map comp_def Let_def)

lemma build_residual_eq:
  "build_residual g names sn en
     = add_all (room_triples names sn en @ link_triples g names) (replicate (2 * length names) [])"
  by (simp add: build_residual_def add_room_edges_eq add_link_edges_eq add_all_def)

lemma idOf_fold_notin:
  "x \<notin> set xs \<Longrightarrow> fold (\<lambda>(i, nm) m. m(nm \<mapsto> i)) (enumerate k xs) m x = m x"
  by (induction xs arbitrary: k m) auto

lemma idOf_fold_nth:
  "distinct (xs :: string list) \<Longrightarrow> i < length xs \<Longrightarrow>
     fold (\<lambda>(i, nm) m. m(nm \<mapsto> i)) (enumerate k xs) m (xs ! i) = Some (k + i)"
proof (induction xs arbitrary: k m i)
  case Nil
  then show ?case by simp
next
  case (Cons y ys)
  define F :: "nat \<times> string \<Rightarrow> (string \<rightharpoonup> nat) \<Rightarrow> (string \<rightharpoonup> nat)"
    where "F = (\<lambda>(i, nm) m. m(nm \<mapsto> i))"
  have st: "fold F (enumerate k (y # ys)) m = fold F (enumerate (Suc k) ys) (m(y \<mapsto> k))"
    by (simp add: F_def)
  show ?case
  proof (cases i)
    case 0
    from Cons.prems have "y \<notin> set ys" by simp
    from idOf_fold_notin[OF this, of "Suc k" "m(y \<mapsto> k)"]
    have "fold F (enumerate (Suc k) ys) (m(y \<mapsto> k)) y = Some k"
      unfolding F_def by simp
    then show ?thesis unfolding F_def[symmetric] st using 0 by simp
  next
    case (Suc j)
    with Cons.prems have "distinct ys" "j < length ys" by simp_all
    from Cons.IH[OF this, of "Suc k" "m(y \<mapsto> k)"]
    have "fold F (enumerate (Suc k) ys) (m(y \<mapsto> k)) (ys ! j) = Some (Suc k + j)"
      unfolding F_def .
    then show ?thesis unfolding F_def[symmetric] st using Suc by simp
  qed
qed

lemma idOf_nth:
  assumes "distinct names" "i < length names"
  shows "idOf names (names ! i) = i"
  using idOf_fold_nth[OF assms, of 0 Map.empty] by (simp add: idOf_def idOf_map_def)

lemma idOf_less:
  assumes "distinct names" "names \<noteq> []"
  shows "idOf names x < length names"
proof (cases "x \<in> set names")
  case True
  then obtain i where "i < length names" "names ! i = x" by (auto simp: in_set_conv_nth)
  with idOf_nth[OF assms(1) this(1)] show ?thesis by simp
next
  case False
  from idOf_fold_notin[OF this, of 0 Map.empty] assms(2) show ?thesis
    by (simp add: idOf_def idOf_map_def)
qed

lemma idOf_inj:
  assumes "distinct names" "x \<in> set names" "y \<in> set names" "idOf names x = idOf names y"
  shows "x = y"
proof -
  from assms(2,3) obtain i j where "i < length names" "names ! i = x" "j < length names" "names ! j = y"
    by (auto simp: in_set_conv_nth)
  with idOf_nth[OF assms(1) this(1)] idOf_nth[OF assms(1) this(3)] assms(4) show ?thesis by auto
qed

lemma room_names_props:
  assumes v: "valid_graph g" and se: "Start g = Some sn" "End g = Some en"
  shows "distinct (room_names g)" "set (room_names g) = fst ` set (Rooms g)"
    "sn \<in> set (room_names g)" "en \<in> set (room_names g)" "sn \<noteq> en" "room_names g \<noteq> []"
proof -
  from v have d: "distinct (map fst (Rooms g))" by (simp add: valid_graph_def)
  then show "distinct (room_names g)" by (simp add: room_names_def)
  show s: "set (room_names g) = fst ` set (Rooms g)" by (simp add: room_names_def)
  from v se show m: "sn \<in> set (room_names g)" "en \<in> set (room_names g)" "sn \<noteq> en"
    unfolding s valid_graph_def by auto
  from m(1) show "room_names g \<noteq> []" by auto
qed

lemma triples_ok:
  assumes d: "distinct names" and sn: "sn \<in> set names"
    and t: "t \<in> set (room_triples names sn en @ link_triples g names)"
  shows "fst t < 2 * length names" "fst (snd t) < 2 * length names" "0 < snd (snd t)"
    "(even (fst t) \<and> fst (snd t) = fst t + 1) \<or> (odd (fst t) \<and> even (fst (snd t)))"
    "1 < snd (snd t) \<Longrightarrow> fst t = outIdx names sn - 1 \<or> fst (snd t) = inIdx names en + 1"
proof -
  from sn have ne: "names \<noteq> []" by auto
  note il = idOf_less[OF d ne]
  from t consider (room) nm where "nm \<in> set names"
      "t = (inIdx names nm, outIdx names nm, if nm = sn \<or> nm = en then INF_cap else 1)"
    | (link) nm vn where "t = (outIdx names nm, inIdx names vn, 1)"
    by (auto simp: room_triples_def link_triples_def)
  then have "fst t < 2 * length names \<and> fst (snd t) < 2 * length names \<and> 0 < snd (snd t)
    \<and> ((even (fst t) \<and> fst (snd t) = fst t + 1) \<or> (odd (fst t) \<and> even (fst (snd t))))
    \<and> (1 < snd (snd t) \<longrightarrow> fst t = outIdx names sn - 1 \<or> fst (snd t) = inIdx names en + 1)"
  proof cases
    case room
    from il[of nm] show ?thesis
      unfolding room(2) by (auto simp: inIdx_def outIdx_def INF_cap_def)
  next
    case link
    from il[of nm] il[of vn] show ?thesis
      unfolding link by (auto simp: inIdx_def outIdx_def)
  qed
  then show "fst t < 2 * length names" "fst (snd t) < 2 * length names" "0 < snd (snd t)"
    "(even (fst t) \<and> fst (snd t) = fst t + 1) \<or> (odd (fst t) \<and> even (fst (snd t)))"
    "1 < snd (snd t) \<Longrightarrow> fst t = outIdx names sn - 1 \<or> fst (snd t) = inIdx names en + 1"
    by blast+
qed

lemma build_built:
  assumes d: "distinct names" and sn: "sn \<in> set names"
  shows "built_from (room_triples names sn en @ link_triples g names)
           (build_residual g names sn en)"
    and "length (build_residual g names sn en) = 2 * length names"
proof -
  let ?T = "room_triples names sn en @ link_triples g names"
  have c: "\<forall>t \<in> set ?T. fst t < length (replicate (2 * length names) ([] :: edge list))
             \<and> fst (snd t) < length (replicate (2 * length names) ([] :: edge list))
             \<and> fst t \<noteq> fst (snd t) \<and> 0 < snd (snd t)"
  proof
    fix t assume t: "t \<in> set ?T"
    have "fst t \<noteq> fst (snd t)" using triples_ok(4)[OF d sn t] by auto
    with triples_ok(1,2,3)[OF d sn t]
    show "fst t < length (replicate (2 * length names) ([] :: edge list))
             \<and> fst (snd t) < length (replicate (2 * length names) ([] :: edge list))
             \<and> fst t \<noteq> fst (snd t) \<and> 0 < snd (snd t)"
      by simp
  qed
  from add_all_built[OF built_from_empty c]
  show "built_from ?T (build_residual g names sn en)"
    and "length (build_residual g names sn en) = 2 * length names"
    unfolding build_residual_eq by simp_all
qed

lemma built_flow_zero:
  assumes "built_from T gr" "h \<in> half_edges gr"
  shows "flow_at gr h = 0"
  using assms unfolding built_from_def by blast

lemma built_excess_zero:
  assumes b: "built_from T gr" and x: "x < length gr"
  shows "excess gr x = 0"
proof -
  have "flow_at gr (x, i) = 0" if "i < length (gr ! x)" for i
    using built_flow_zero[OF b, of "(x, i)"] that x by (simp add: half_edges_def)
  then show ?thesis unfolding excess_eq_sum by simp
qed

lemma build_ek_inv:
  assumes d: "distinct names" and sn: "sn \<in> set names" and en: "en \<in> set names"
    and ne: "sn \<noteq> en"
  shows "ek_inv (outIdx names sn) (inIdx names en) (build_residual g names sn en)"
proof -
  let ?T = "room_triples names sn en @ link_triples g names"
  let ?gr = "build_residual g names sn en"
  let ?s = "outIdx names sn"
  let ?t = "inIdx names en"
  note b = build_built[OF d sn, where en = en and g = g]
  from b(1) have wf: "wf_graph ?gr" by (simp add: built_from_def)
  from sn have nn: "names \<noteq> []" by auto
  note il = idOf_less[OF d nn]
  have idne: "idOf names sn \<noteq> idOf names en" using idOf_inj[OF d sn en] ne by blast
  have edge: "0 \<le> cap (edge_at ?gr h)
            \<and> (cap (edge_at ?gr h) = 0 \<or> cap (edge_at ?gr (partner ?gr h)) = 0)
            \<and> (1 < cap (edge_at ?gr h) \<longrightarrow> fst h = ?s - 1 \<or> to (edge_at ?gr h) = ?t + 1)
            \<and> (0 < cap (edge_at ?gr h)
                 \<longrightarrow> (even (fst h) \<and> to (edge_at ?gr h) = fst h + 1)
                     \<or> (odd (fst h) \<and> even (to (edge_at ?gr h))))"
    if h: "h \<in> half_edges ?gr" for h
  proof -
    from b(1) h consider
      (fwd) "0 < cap (edge_at ?gr h)" "cap (edge_at ?gr (partner ?gr h)) = 0"
        "(fst h, to (edge_at ?gr h), cap (edge_at ?gr h)) \<in> set ?T"
      | (rev) "cap (edge_at ?gr h) = 0"
      unfolding built_from_def by blast
    then show ?thesis
    proof cases
      case fwd
      from triples_ok[OF d sn fwd(3)] fwd(1,2) show ?thesis by auto
    next
      case rev
      then show ?thesis by simp
    qed
  qed
  have net: "net_ok ?s ?t ?gr"
    unfolding net_ok_def using wf edge il[of sn] il[of en] idne b(2)
    by (auto simp: inIdx_def outIdx_def)
  have fl: "flow_ok ?gr"
    unfolding flow_ok_def
  proof
    fix h assume h: "h \<in> half_edges ?gr"
    from edge[OF h] built_flow_zero[OF b(1) h] built_flow_zero[OF b(1) wf_partner(1)[OF wf h]]
    show "flow_at ?gr h \<le> cap (edge_at ?gr h) \<and> flow_at ?gr (partner ?gr h) = - flow_at ?gr h"
      by simp
  qed
  have dd: "dead_ok ?s ?t ?gr"
    unfolding dead_ok_def using built_flow_zero[OF b(1)] by blast
  have co: "conserved ?s ?t ?gr"
    unfolding conserved_def using built_excess_zero[OF b(1)] by blast
  from net fl dd co show ?thesis by (simp add: ek_inv_def)
qed

lemma bfs_cases:
  assumes inv: "ek_inv source sink gr"
  shows "bfs gr source sink = Some (gr, 0)
         \<or> (\<exists>gr'. bfs gr source sink = Some (gr', 1) \<and> shape gr' = shape gr
                \<and> ek_inv source sink gr' \<and> excess gr' source = excess gr source + 1)"
proof -
  from bfs_step[OF inv] obtain par where
    n: "par ! sink = None \<longrightarrow> bfs gr source sink = Some (gr, 0) \<and> closed_under_residual gr par"
    and s: "par ! sink \<noteq> None \<longrightarrow> bneck_loop gr par source sink INF_cap = Some 1
                \<and> (\<exists>gr'. bfs gr source sink = Some (gr', 1) \<and> shape gr' = shape gr
                      \<and> ek_inv source sink gr' \<and> excess gr' source = excess gr source + 1)"
    by (elim exE conjE)
  show ?thesis
  proof (cases "par ! sink = None")
    case True
    with n show ?thesis by simp
  next
    case False
    with s show ?thesis by simp
  qed
qed

lemma ek_after_inv:
  assumes inv0: "ek_inv source sink gr0" and e0: "excess gr0 source = 0"
    and run: "ek_after source sink maxPaths gr0 k = Some (gr, tot)"
  shows "ek_inv source sink gr \<and> shape gr = shape gr0 \<and> tot = int k \<and> excess gr source = tot"
  using run
proof (induction k arbitrary: gr tot)
  case 0
  with inv0 e0 show ?case by simp
next
  case (Suc k)
  from Suc.prems obtain g1 t1 pushed where
    prev: "ek_after source sink maxPaths gr0 k = Some (g1, t1)"
    and step: "bfs g1 source sink = Some (gr, pushed)" "pushed \<noteq> 0" "tot = t1 + pushed"
    by (auto split: option.splits if_splits)
  from Suc.IH[OF prev] have i1: "ek_inv source sink g1" "shape g1 = shape gr0" "t1 = int k"
    "excess g1 source = t1" by simp_all
  from bfs_cases[OF i1(1)] step i1 show ?case by auto
qed

text \<open>C7: on the network built from a valid graph, whenever the search of an iteration of
  the main loop reaches the sink, the bottleneck computed along the path is exactly 1, the
  call pushes exactly one unit, and so the total flow after \<open>k\<close> augmentations is \<open>k\<close>. The
  counter agrees with the network: the flow out of the source is \<open>k\<close> before the call and one
  more after it.\<close>

theorem bottleneck_is_one:
  assumes v: "valid_graph g" and se: "Start g = Some sn" "End g = Some en"
    and run: "ek_after (outIdx (room_names g) sn) (inIdx (room_names g) en) maxPaths
                (build_residual g (room_names g) sn en) k = Some (gr, tot)"
    and search: "bfs_search gr (outIdx (room_names g) sn) (inIdx (room_names g) en) = Some par"
    and found: "par ! inIdx (room_names g) en \<noteq> None"
  shows "bneck_loop gr par (outIdx (room_names g) sn) (inIdx (room_names g) en) INF_cap = Some 1
         \<and> (\<exists>gr'. bfs gr (outIdx (room_names g) sn) (inIdx (room_names g) en) = Some (gr', 1)
                \<and> excess gr' (outIdx (room_names g) sn) = excess gr (outIdx (room_names g) sn) + 1)
         \<and> tot = int k \<and> excess gr (outIdx (room_names g) sn) = tot"
proof -
  let ?names = "room_names g"
  let ?s = "outIdx ?names sn"
  let ?t = "inIdx ?names en"
  note rn = room_names_props[OF v se]
  have inv0: "ek_inv ?s ?t (build_residual g ?names sn en)"
    by (rule build_ek_inv[OF rn(1,3,4,5)])
  have "length (build_residual g ?names sn en) = 2 * length ?names"
    by (rule build_built(2)[OF rn(1,3)])
  moreover have "idOf ?names sn < length ?names" by (rule idOf_less[OF rn(1,6)])
  ultimately have "?s < length (build_residual g ?names sn en)" by (simp add: outIdx_def)
  from built_excess_zero[OF build_built(1)[OF rn(1,3)] this]
  have e0: "excess (build_residual g ?names sn en) ?s = 0" .
  from ek_after_inv[OF inv0 e0 run] have inv: "ek_inv ?s ?t gr" and tot: "tot = int k"
    and ex: "excess gr ?s = tot"
    by simp_all
  from bfs_step[OF inv] obtain par' where
    s: "bfs_search gr ?s ?t = Some par'"
    and f: "par' ! ?t \<noteq> None \<longrightarrow> bneck_loop gr par' ?s ?t INF_cap = Some 1
                \<and> (\<exists>gr'. bfs gr ?s ?t = Some (gr', 1) \<and> shape gr' = shape gr
                      \<and> ek_inv ?s ?t gr' \<and> excess gr' ?s = excess gr ?s + 1)"
    by (elim exE conjE)
  from s search have "par' = par" by simp
  with f found tot ex show ?thesis by auto
qed

theorem bottleneck_is_one_witness:
  "\<exists>gr tot par.
     ek_after (outIdx [''a'', ''b'', ''end'', ''start''] ''start'')
              (inIdx [''a'', ''b'', ''end'', ''start''] ''end'') 0
        (build_residual
           \<lparr>Rooms = [(''start'', \<lparr>Name = ''start'', X = 0, Y = 0, Links = [''a'', ''b'']\<rparr>),
                     (''a'', \<lparr>Name = ''a'', X = 1, Y = 0, Links = [''start'', ''end'', ''b'']\<rparr>),
                     (''b'', \<lparr>Name = ''b'', X = 2, Y = 0, Links = [''start'', ''end'', ''a'']\<rparr>),
                     (''end'', \<lparr>Name = ''end'', X = 3, Y = 0, Links = [''a'', ''b'']\<rparr>)],
             Start = Some ''start'', End = Some ''end''\<rparr>
           [''a'', ''b'', ''end'', ''start''] ''start'' ''end'') 1 = Some (gr, tot)
     \<and> bfs_search gr (outIdx [''a'', ''b'', ''end'', ''start''] ''start'')
                      (inIdx [''a'', ''b'', ''end'', ''start''] ''end'') = Some par
     \<and> par ! inIdx [''a'', ''b'', ''end'', ''start''] ''end'' \<noteq> None
     \<and> bneck_loop gr par (outIdx [''a'', ''b'', ''end'', ''start''] ''start'')
          (inIdx [''a'', ''b'', ''end'', ''start''] ''end'') INF_cap = Some 1
     \<and> tot = 1"
proof -
  let ?g = "\<lparr>Rooms = [(''start'', \<lparr>Name = ''start'', X = 0, Y = 0, Links = [''a'', ''b'']\<rparr>),
                     (''a'', \<lparr>Name = ''a'', X = 1, Y = 0, Links = [''start'', ''end'', ''b'']\<rparr>),
                     (''b'', \<lparr>Name = ''b'', X = 2, Y = 0, Links = [''start'', ''end'', ''a'']\<rparr>),
                     (''end'', \<lparr>Name = ''end'', X = 3, Y = 0, Links = [''a'', ''b'']\<rparr>)],
             Start = Some ''start'', End = Some ''end''\<rparr>"
  let ?names = "[''a'', ''b'', ''end'', ''start'']"
  have nm: "room_names ?g = ?names" by code_simp
  have v: "valid_graph ?g" by code_simp
  have se: "Start ?g = Some ''start''" "End ?g = Some ''end''" by simp_all
  have "(case ek_after (outIdx ?names ''start'') (inIdx ?names ''end'') 0
                (build_residual ?g ?names ''start'' ''end'') 1 of
           None \<Rightarrow> False
         | Some (gr, tot) \<Rightarrow>
             (case bfs_search gr (outIdx ?names ''start'') (inIdx ?names ''end'') of
                None \<Rightarrow> False
              | Some par \<Rightarrow> par ! inIdx ?names ''end'' \<noteq> None))"
    by code_simp
  then obtain gr tot par where
    run: "ek_after (outIdx ?names ''start'') (inIdx ?names ''end'') 0
                (build_residual ?g ?names ''start'' ''end'') 1 = Some (gr, tot)"
    and search: "bfs_search gr (outIdx ?names ''start'') (inIdx ?names ''end'') = Some par"
    and found: "par ! inIdx ?names ''end'' \<noteq> None"
    by (auto split: option.splits)
  from bottleneck_is_one[OF v se, unfolded nm, OF run search found] run search found
  show ?thesis by auto
qed

lemma shape_caps:
  assumes "shape gr' = shape gr" "u < length gr"
  shows "map cap (gr' ! u) = map cap (gr ! u)"
proof -
  have "map (snd \<circ> snd) (map (\<lambda>e. (to e, rev_e e, cap e)) (gr' ! u))
          = map (snd \<circ> snd) (map (\<lambda>e. (to e, rev_e e, cap e)) (gr ! u))"
    using shape_nth[OF assms] by simp
  then show ?thesis by (simp add: comp_def)
qed

lemma excess_le_caps:
  assumes fl: "flow_ok gr" and u: "u < length gr"
  shows "excess gr u \<le> sum_list (map cap (gr ! u))"
proof -
  have "sum_list (map flow (gr ! u)) \<le> sum_list (map cap (gr ! u))"
  proof (rule sum_list_mono)
    fix e assume "e \<in> set (gr ! u)"
    then obtain i where i: "i < length (gr ! u)" "e = gr ! u ! i" by (auto simp: in_set_conv_nth)
    with u have "(u, i) \<in> half_edges gr" by (simp add: half_edges_def)
    from flow_ok_partner(1)[OF fl this] i show "flow e \<le> cap e"
      by (simp add: flow_at_def edge_at_def)
  qed
  then show ?thesis by (simp add: excess_def)
qed

lemma ek_loop_total:
  assumes inv: "ek_inv source sink gr"
  shows "\<exists>gr' tot'. ek_loop source sink maxPaths gr tot = Some (gr', tot')
           \<and> ek_inv source sink gr' \<and> shape gr' = shape gr
           \<and> tot' - tot = excess gr' source - excess gr source
           \<and> (maxPaths \<le> 0 \<longrightarrow> bfs gr' source sink = Some (gr', 0))"
  using inv
proof (induction "nat (sum_list (map cap (gr ! source)) - excess gr source)"
        arbitrary: gr tot rule: less_induct)
  case less
  note inv = less.prems
  from inv have net: "net_ok source sink gr" and fl: "flow_ok gr" by (simp_all add: ek_inv_def)
  from net have sl: "source < length gr" by (simp add: net_ok_def)
  from bfs_cases[OF inv] show ?case
  proof
    assume z: "bfs gr source sink = Some (gr, 0)"
    have "ek_loop source sink maxPaths gr tot = Some (gr, tot)"
      by (subst ek_loop.simps) (simp add: z)
    with inv z show ?thesis by simp
  next
    assume "\<exists>gr'. bfs gr source sink = Some (gr', 1) \<and> shape gr' = shape gr
                \<and> ek_inv source sink gr' \<and> excess gr' source = excess gr source + 1"
    then obtain g1 where b: "bfs gr source sink = Some (g1, 1)" and sh: "shape g1 = shape gr"
      and i1: "ek_inv source sink g1" and e1: "excess g1 source = excess gr source + 1"
      by (elim exE conjE)
    show ?thesis
    proof (cases "maxPaths > 0 \<and> tot + 1 \<ge> maxPaths")
      case True
      have "ek_loop source sink maxPaths gr tot = Some (g1, tot + 1)"
        using True by (subst ek_loop.simps) (simp add: b)
      with i1 sh e1 True show ?thesis by simp
    next
      case False
      have step: "ek_loop source sink maxPaths gr tot = ek_loop source sink maxPaths g1 (tot + 1)"
        using False by (subst ek_loop.simps) (auto simp: b)
      from i1 have fl1: "flow_ok g1" by (simp add: ek_inv_def)
      have l1: "source < length g1" using sl shape_length[OF sh] by simp
      have caps: "map cap (g1 ! source) = map cap (gr ! source)" by (rule shape_caps[OF sh sl])
      from excess_le_caps[OF fl1 l1] caps e1
      have "nat (sum_list (map cap (g1 ! source)) - excess g1 source)
              < nat (sum_list (map cap (gr ! source)) - excess gr source)"
        by simp
      from less.hyps[OF this i1, of "tot + 1"] obtain gr' tot' where
        r: "ek_loop source sink maxPaths g1 (tot + 1) = Some (gr', tot')"
          "ek_inv source sink gr'" "shape gr' = shape g1"
          "tot' - (tot + 1) = excess gr' source - excess g1 source"
          "maxPaths \<le> 0 \<longrightarrow> bfs gr' source sink = Some (gr', 0)"
        by (elim exE conjE)
      from r sh e1 step show ?thesis by simp
    qed
  qed
qed


section \<open>The paths read off the flow are disjoint\<close>

lemma filter_le_one_unique:
  assumes le: "length (filter P xs) \<le> 1" and i: "i < length xs" and j: "j < length xs"
    and pi: "P (xs ! i)" and pj: "P (xs ! j)"
  shows "i = j"
proof -
  have aux: False if ij: "a < b" and b: "b < length xs" and pa: "P (xs ! a)" and pb: "P (xs ! b)"
    for a b
  proof -
    have xs: "xs = take b xs @ xs ! b # drop (Suc b) xs" by (rule id_take_nth_drop[OF b])
    have "xs ! a \<in> set (take b xs)" using ij b by (auto simp: in_set_conv_nth intro!: exI[of _ a])
    with pa have "filter P (take b xs) \<noteq> []" by (auto simp: filter_empty_conv)
    then have "1 \<le> length (filter P (take b xs))" by (cases "filter P (take b xs)") auto
    moreover have "length (filter P xs) = length (filter P (take b xs))
        + length (filter P (xs ! b # drop (Suc b) xs))"
      by (subst xs) simp
    ultimately show False using le pb by simp
  qed
  show ?thesis
  proof (rule ccontr)
    assume "i \<noteq> j"
    then consider "i < j" | "j < i" by linarith
    then show False using aux i j pi pj by cases blast+
  qed
qed

lemma distinct_filter_le_one:
  "distinct (map f xs) \<Longrightarrow> length (filter (\<lambda>t. f t = y) xs) \<le> 1"
proof (induction xs)
  case Nil then show ?case by simp
next
  case (Cons x xs)
  show ?case
  proof (cases "f x = y")
    case True
    with Cons.prems have "\<forall>t \<in> set xs. f t \<noteq> y" by (auto simp: image_iff)
    then have "filter (\<lambda>t. f t = y) xs = []" by (simp add: filter_empty_conv)
    with True show ?thesis by simp
  next
    case False with Cons show ?thesis by simp
  qed
qed

lemma built_simple:
  assumes b: "built_from T gr" and d: "distinct (map (\<lambda>t. (fst t, fst (snd t))) T)"
  shows "simple_net gr"
  unfolding simple_net_def
proof (intro ballI impI)
  fix h k assume h: "h \<in> half_edges gr" and k: "k \<in> half_edges gr"
    and c: "fst h = fst k \<and> 0 < cap (edge_at gr h) \<and> 0 < cap (edge_at gr k)
         \<and> to (edge_at gr h) = to (edge_at gr k)"
  let ?a = "fst h" let ?b = "to (edge_at gr h)"
  let ?P = "\<lambda>e. to e = ?b \<and> 0 < cap e"
  from h have a: "?a < length gr" and hi: "snd h < length (gr ! ?a)" by (auto simp: half_edges_def)
  from k c have ki: "snd k < length (gr ! ?a)" by (auto simp: half_edges_def)
  from b a have "length (filter ?P (gr ! ?a))
      = length (filter (\<lambda>t. fst t = ?a \<and> fst (snd t) = ?b) T)"
    unfolding built_from_def by blast
  also have "\<dots> = length (filter (\<lambda>t. (fst t, fst (snd t)) = (?a, ?b)) T)" by simp
  also have "\<dots> \<le> 1" by (rule distinct_filter_le_one[OF d])
  finally have le: "length (filter ?P (gr ! ?a)) \<le> 1" .
  have "snd h = snd k"
    by (rule filter_le_one_unique[OF le hi ki]) (use c in \<open>auto simp: edge_at_def\<close>)
  with c show "h = k" by (simp add: prod_eq_iff)
qed

lemma simple_shape:
  assumes sh: "shape gr' = shape gr" and s: "simple_net gr"
  shows "simple_net gr'"
proof -
  have e: "to (edge_at gr' h) = to (edge_at gr h) \<and> cap (edge_at gr' h) = cap (edge_at gr h)"
    if "h \<in> half_edges gr" for h
    using shape_edge[OF sh that] by simp
  show ?thesis using s unfolding simple_net_def shape_half_edges[OF sh] by (simp add: e)
qed

lemma distinct_concat_map:
  assumes "distinct xs" "\<forall>x \<in> set xs. distinct (f x)"
    "\<forall>x \<in> set xs. \<forall>y \<in> set xs. x \<noteq> y \<longrightarrow> set (f x) \<inter> set (f y) = {}"
  shows "distinct (concat (map f xs))"
  using assms by (induction xs) auto

lemma links_in_names:
  assumes v: "valid_graph g" and nm: "nm \<in> set (room_names g)"
  shows "distinct (links_of g nm)" "set (links_of g nm) \<subseteq> set (room_names g)"
    "nm \<notin> set (links_of g nm)"
proof -
  from v have d: "distinct (map fst (Rooms g))" by (simp add: valid_graph_def)
  from nm obtain r where r: "(nm, r) \<in> set (Rooms g)" by (auto simp: room_names_def)
  with d have m: "map_of (Rooms g) nm = Some r" by simp
  from v r have p: "distinct (Links r)" "nm \<notin> set (Links r)"
    "\<forall>l \<in> set (Links r). case map_of (Rooms g) l of None \<Rightarrow> False | Some r' \<Rightarrow> nm \<in> set (Links r')"
    unfolding valid_graph_def by blast+
  from p(1,2) m show "distinct (links_of g nm)" "nm \<notin> set (links_of g nm)"
    by (simp_all add: links_of_def)
  show "set (links_of g nm) \<subseteq> set (room_names g)"
  proof
    fix l assume "l \<in> set (links_of g nm)"
    with m have "l \<in> set (Links r)" by (simp add: links_of_def)
    with p(3) obtain r' where "map_of (Rooms g) l = Some r'" by (auto split: option.splits)
    then have "(l, r') \<in> set (Rooms g)" by (rule map_of_SomeD)
    then show "l \<in> set (room_names g)" by (force simp: room_names_def)
  qed
qed

lemma triples_distinct:
  assumes v: "valid_graph g" and d: "distinct (room_names g)"
  shows "distinct (map (\<lambda>t. (fst t, fst (snd t)))
           (room_triples (room_names g) sn en @ link_triples g (room_names g)))"
proof -
  let ?names = "room_names g"
  let ?key = "\<lambda>t :: nat \<times> nat \<times> int. (fst t, fst (snd t))"
  have inj: "x = y" if "x \<in> set ?names" "y \<in> set ?names" "idOf ?names x = idOf ?names y" for x y
    using idOf_inj[OF d that] .
  have r: "distinct (map ?key (room_triples ?names sn en))"
    unfolding room_triples_def using d
    by (auto simp: distinct_map comp_def inj_on_def inIdx_def outIdx_def intro: inj)
  have lk: "map ?key (link_triples g ?names)
      = concat (map (\<lambda>nm. map (\<lambda>vn. (outIdx ?names nm, inIdx ?names vn)) (sort (links_of g nm))) ?names)"
    unfolding link_triples_def by (simp add: map_concat comp_def)
  have l: "distinct (map ?key (link_triples g ?names))"
    unfolding lk
  proof (rule distinct_concat_map[OF d], intro ballI)
    fix nm assume nm: "nm \<in> set ?names"
    note li = links_in_names[OF v nm]
    show "distinct (map (\<lambda>vn. (outIdx ?names nm, inIdx ?names vn)) (sort (links_of g nm)))"
      using li(1,2) by (auto simp: distinct_map inj_on_def inIdx_def intro: inj)
  next
    show "\<forall>x\<in>set ?names. \<forall>y\<in>set ?names. x \<noteq> y \<longrightarrow>
       set (map (\<lambda>vn. (outIdx ?names x, inIdx ?names vn)) (sort (links_of g x))) \<inter>
       set (map (\<lambda>vn. (outIdx ?names y, inIdx ?names vn)) (sort (links_of g y))) = {}"
      by (auto simp: outIdx_def dest: inj)
  qed
  have dj: "set (map ?key (room_triples ?names sn en)) \<inter> set (map ?key (link_triples g ?names)) = {}"
    unfolding lk room_triples_def by (auto simp: inIdx_def outIdx_def) presburger
  from r l dj show ?thesis by simp
qed

lemma linked_shape:
  assumes sh: "shape gr' = shape gr"
  shows "linked gr' u v = linked gr u v"
proof -
  have e: "to (edge_at gr' h) = to (edge_at gr h) \<and> cap (edge_at gr' h) = cap (edge_at gr h)"
    if "h \<in> half_edges gr" for h
    using shape_edge[OF sh that] by simp
  show ?thesis unfolding linked_def shape_half_edges[OF sh] by (simp add: e)
qed

lemma walk_shape:
  assumes sh: "shape gr' = shape gr"
  shows "walk gr' u cs t = walk gr u cs t"
  by (induction cs arbitrary: u) (simp_all add: linked_shape[OF sh])

lemma finite_half_edges: "finite (half_edges gr)"
proof -
  have "half_edges gr = (SIGMA u:{..<length gr}. {..<length (gr ! u)})"
    by (auto simp: half_edges_def)
  then show ?thesis by simp
qed

lemma below_refl: "below gr gr"
  by (simp add: below_def)

lemma below_trans:
  assumes "below g1 g2" "below g2 g3"
  shows "below g1 g3"
proof -
  from assms have s: "shape g2 = shape g1" "shape g3 = shape g2" by (simp_all add: below_def)
  have "flow_at g3 k \<le> 0" if k: "k \<in> half_edges g1" and f: "flow_at g1 k \<le> 0" for k
  proof -
    from assms(1) k f have "flow_at g2 k \<le> 0" unfolding below_def by blast
    moreover have "k \<in> half_edges g2" using k shape_half_edges[OF s(1)] by simp
    ultimately show ?thesis using assms(2) unfolding below_def by blast
  qed
  with s show ?thesis by (simp add: below_def)
qed

lemma below_spent:
  assumes b: "below gr gr'" and s: "spent_edge gr a b"
  shows "spent_edge gr' a b"
proof -
  from b have sh: "shape gr' = shape gr" by (simp add: below_def)
  show ?thesis unfolding spent_edge_def
  proof (intro ballI impI)
    fix k assume "k \<in> half_edges gr'" and c: "fst k = a \<and> to (edge_at gr' k) = b"
    then have k: "k \<in> half_edges gr" using shape_half_edges[OF sh] by simp
    from c shape_edge(1)[OF sh k] have "fst k = a \<and> to (edge_at gr k) = b" by simp
    with s k have "flow_at gr k \<le> 0" unfolding spent_edge_def by blast
    with b k show "flow_at gr' k \<le> 0" unfolding below_def by blast
  qed
qed

lemma dead_flow':
  assumes inv: "trace_inv source sink gr" and h: "h \<in> half_edges gr"
    and d: "fst h = source - 1 \<or> fst h = sink + 1
            \<or> to (edge_at gr h) = source - 1 \<or> to (edge_at gr h) = sink + 1"
  shows "flow_at gr h = 0"
proof -
  from inv have net: "net_ok source sink gr" and fl: "flow_ok gr" and dd: "dead_ok source sink gr"
    by (simp_all add: trace_inv_def)
  from net have wf: "wf_graph gr" by (simp add: net_ok_def)
  show ?thesis
  proof (cases "fst h = source - 1 \<or> fst h = sink + 1")
    case True
    with dd h show ?thesis unfolding dead_ok_def by blast
  next
    case False
    with d have "fst (partner gr h) = source - 1 \<or> fst (partner gr h) = sink + 1"
      by (simp add: partner_def)
    with dd wf_partner(1)[OF wf h] have "flow_at gr (partner gr h) = 0"
      unfolding dead_ok_def by blast
    with flow_ok_partner(2)[OF fl h] show ?thesis by simp
  qed
qed

text \<open>A half-edge that carries flow.\<close>

lemma pos_flow_edge:
  assumes inv: "trace_inv source sink gr" and h: "h \<in> half_edges gr"
    and f: "0 < flow_at gr h"
  shows "flow_at gr h = 1" "0 < cap (edge_at gr h)"
    "fst h \<noteq> source - 1" "fst h \<noteq> sink + 1"
    "to (edge_at gr h) \<noteq> source - 1" "to (edge_at gr h) \<noteq> sink + 1"
    "(even (fst h) \<and> to (edge_at gr h) = fst h + 1) \<or> (odd (fst h) \<and> even (to (edge_at gr h)))"
    "flow_at gr (partner gr h) = - 1"
proof -
  from inv have net: "net_ok source sink gr" and fl: "flow_ok gr"
    by (simp_all add: trace_inv_def)
  from flow_ok_partner(1)[OF fl h] f show c: "0 < cap (edge_at gr h)" by simp
  from dead_flow'[OF inv h] f
  show d: "fst h \<noteq> source - 1" "fst h \<noteq> sink + 1"
    "to (edge_at gr h) \<noteq> source - 1" "to (edge_at gr h) \<noteq> sink + 1"
    by auto
  from net_ok_edge(3)[OF net h] d have "cap (edge_at gr h) \<le> 1" by force
  with flow_ok_partner(1)[OF fl h] f show o: "flow_at gr h = 1" by simp
  from net_ok_edge(4)[OF net h c]
  show "(even (fst h) \<and> to (edge_at gr h) = fst h + 1) \<or> (odd (fst h) \<and> even (to (edge_at gr h)))" .
  from flow_ok_partner(2)[OF fl h] o show "flow_at gr (partner gr h) = - 1" by simp
qed

lemma consumes_flows:
  assumes inv: "trace_inv source sink gr" and c: "consumes gr h gr'"
    and k: "k \<in> half_edges gr"
  shows "flow_at gr' k = (if k = h then 0 else if k = partner gr h then 0 else flow_at gr k)"
proof -
  from c have h: "h \<in> half_edges gr" and f: "0 < flow_at gr h" by (simp_all add: consumes_def)
  note p = pos_flow_edge[OF inv h f]
  from c k have "flow_at gr' k = (if k = h then flow_at gr k - 1
                else if k = partner gr h then flow_at gr k + 1 else flow_at gr k)"
    unfolding consumes_def by blast
  with p(1,8) show ?thesis by auto
qed

lemma consumes_inv:
  assumes inv: "trace_inv source sink gr" and c: "consumes gr h gr'"
  shows "trace_inv source sink gr'" "below gr gr'" "posflow gr' < posflow gr"
    "\<And>x. x < length gr \<Longrightarrow> excess gr' x = excess gr x - (if x = fst h then 1 else 0)
                          + (if x = to (edge_at gr h) then 1 else 0)"
    "spent_edge gr' (fst h) (to (edge_at gr h))"
proof -
  from inv have net: "net_ok source sink gr" and fl: "flow_ok gr" and dd: "dead_ok source sink gr"
    and sim: "simple_net gr"
    by (simp_all add: trace_inv_def)
  from net have wf: "wf_graph gr" by (simp add: net_ok_def)
  from c have h: "h \<in> half_edges gr" and f: "0 < flow_at gr h" and sh: "shape gr' = shape gr"
    and fl0: "\<forall>k \<in> half_edges gr. flow_at gr' k
             = (if k = h then flow_at gr k - 1
                else if k = partner gr h then flow_at gr k + 1 else flow_at gr k)"
    by (simp_all add: consumes_def)
  note p = pos_flow_edge[OF inv h f]
  note he = shape_half_edges[OF sh]
  note ph = wf_partner[OF wf h]
  have pne: "partner gr h \<noteq> h" using ph(4) by (auto simp: partner_def prod_eq_iff)
  note fw = consumes_flows[OF inv c]
  have fl': "flow_ok gr'"
    unfolding flow_ok_def he
  proof
    fix k assume k: "k \<in> half_edges gr"
    note pk = wf_partner[OF wf k]
    have e: "cap (edge_at gr' k) = cap (edge_at gr k)" "partner gr' k = partner gr k"
      using shape_edge(3)[OF sh k] shape_partner[OF sh k] by simp_all
    have pp: "partner gr k = h \<longleftrightarrow> k = partner gr h" using pk(2) ph(2) by auto
    have pp2: "partner gr k = partner gr h \<longleftrightarrow> k = h" using pk(2) ph(2) by metis
    from flow_ok_partner[OF fl k] net_ok_edge(1)[OF net k]
    show "flow_at gr' k \<le> cap (edge_at gr' k) \<and> flow_at gr' (partner gr' k) = - flow_at gr' k"
      unfolding e fw[OF k] fw[OF pk(1)] pp pp2 using pne by auto
  qed
  have dd': "dead_ok source sink gr'"
    unfolding dead_ok_def he
  proof (intro ballI impI)
    fix k assume k: "k \<in> half_edges gr" and d: "fst k = source - 1 \<or> fst k = sink + 1"
    with dd have "flow_at gr k = 0" unfolding dead_ok_def by blast
    then show "flow_at gr' k = 0" unfolding fw[OF k] by simp
  qed
  show "trace_inv source sink gr'"
    unfolding trace_inv_def using net_ok_shape[OF sh net] fl' dd' simple_shape[OF sh sim] by simp
  show "below gr gr'" unfolding below_def using sh fw by simp
  show "\<And>x. x < length gr \<Longrightarrow> excess gr' x = excess gr x - (if x = fst h then 1 else 0)
                          + (if x = to (edge_at gr h) then 1 else 0)"
  proof -
    fix x assume x: "x < length gr"
    have fl1: "\<forall>k \<in> half_edges gr. flow_at gr' k
                 = (if k = h then flow_at gr k + (- 1)
                    else if k = partner gr h then flow_at gr k - (- 1) else flow_at gr k)"
      using fl0 by simp
    from excess_push[OF wf h sh fl1 x]
    show "excess gr' x = excess gr x - (if x = fst h then 1 else 0)
                          + (if x = to (edge_at gr h) then 1 else 0)" by simp
  qed
  show "posflow gr' < posflow gr"
  proof -
    have "posflow gr' = (\<Sum>k \<in> half_edges gr. nat (flow_at gr' k))"
      unfolding posflow_def he ..
    also have "\<dots> = (\<Sum>k \<in> half_edges gr - {h}. nat (flow_at gr' k)) + nat (flow_at gr' h)"
      using sum.remove[OF finite_half_edges h, of "\<lambda>k. nat (flow_at gr' k)"] by simp
    also have "(\<Sum>k \<in> half_edges gr - {h}. nat (flow_at gr' k))
                 = (\<Sum>k \<in> half_edges gr - {h}. nat (flow_at gr k))"
    proof (rule sum.cong[OF refl])
      fix k assume "k \<in> half_edges gr - {h}"
      then have k: "k \<in> half_edges gr" "k \<noteq> h" by auto
      show "nat (flow_at gr' k) = nat (flow_at gr k)"
        unfolding fw[OF k(1)] using k(2) p(8) by auto
    qed
    also have "nat (flow_at gr' h) = 0" unfolding fw[OF h] by simp
    finally have "posflow gr' = (\<Sum>k \<in> half_edges gr - {h}. nat (flow_at gr k))" by simp
    moreover have "posflow gr = (\<Sum>k \<in> half_edges gr - {h}. nat (flow_at gr k)) + 1"
      unfolding posflow_def
      using sum.remove[OF finite_half_edges h, of "\<lambda>k. nat (flow_at gr k)"] p(1) by simp
    ultimately show ?thesis by simp
  qed
  show "spent_edge gr' (fst h) (to (edge_at gr h))"
    unfolding spent_edge_def he
  proof (intro ballI impI)
    fix k assume k: "k \<in> half_edges gr"
      and e: "fst k = fst h \<and> to (edge_at gr' k) = to (edge_at gr h)"
    from e shape_edge(1)[OF sh k] have e': "fst k = fst h" "to (edge_at gr k) = to (edge_at gr h)"
      by simp_all
    show "flow_at gr' k \<le> 0"
    proof (cases "k = h")
      case True then show ?thesis unfolding fw[OF k] by simp
    next
      case False
      have "\<not> 0 < cap (edge_at gr k)"
      proof
        assume "0 < cap (edge_at gr k)"
        with sim k h e' p(2) have "k = h" unfolding simple_net_def by blast
        with False show False ..
      qed
      with flow_ok_partner(1)[OF fl k] have "flow_at gr k \<le> 0" by simp
      then show ?thesis unfolding fw[OF k] by simp
    qed
  qed
qed

lemma consume_first_cases:
  assumes wf: "wf_graph gr" and u: "u < length gr" and eis: "\<forall>i \<in> set eis. i < length (gr ! u)"
  shows "((\<forall>i \<in> set eis. flow_at gr (u, i) \<le> 0) \<and> consume_first u eis gr = Some (gr, None))
       \<or> (\<exists>i \<in> set eis. \<exists>gr'. consume_first u eis gr = Some (gr', Some (to (edge_at gr (u, i))))
              \<and> consumes gr (u, i) gr')"
  using eis
proof (induction eis)
  case Nil
  then show ?case by simp
next
  case (Cons ei eis)
  from Cons.prems u have h: "(u, ei) \<in> half_edges gr" by (simp add: half_edges_def)
  then have r: "\<not> (length gr \<le> u \<or> length (gr ! u) \<le> ei)" by (simp add: half_edges_def)
  show ?case
  proof (cases "0 < flow_at gr (u, ei)")
    case True
    from push_flow_props[OF wf h, of "- 1"] obtain gr' where
      g: "push_flow u ei (- 1) gr = Some gr'" "shape gr' = shape gr"
        "\<forall>k \<in> half_edges gr. flow_at gr' k
                 = (if k = (u, ei) then flow_at gr k + (- 1)
                    else if k = partner gr (u, ei) then flow_at gr k - (- 1) else flow_at gr k)"
      by auto
    from True have t: "0 < flow (gr ! u ! ei)" by (simp add: flow_at_def edge_at_def)
    have "consume_first u (ei # eis) gr = Some (gr', Some (to (edge_at gr (u, ei))))"
      using r t g(1) by (simp add: edge_at_def)
    moreover have "consumes gr (u, ei) gr'"
      unfolding consumes_def using h True g(2,3) by simp
    ultimately show ?thesis by auto
  next
    case False
    then have t: "\<not> 0 < flow (gr ! u ! ei)" by (simp add: flow_at_def edge_at_def)
    have s: "consume_first u (ei # eis) gr = consume_first u eis gr" using r t by simp
    from Cons.prems have "\<forall>i \<in> set eis. i < length (gr ! u)" by simp
    from Cons.IH[OF this] False show ?thesis unfolding s by auto
  qed
qed

lemma outs_ok_shape: "shape gr' = shape gr \<Longrightarrow> outs_ok outs gr \<Longrightarrow> outs_ok outs gr'"
  unfolding outs_ok_def using shape_length[of gr' gr] shape_row_length[of gr' gr] by simp

lemma surplus_sink: "surplus source sink gr sink = conserved source sink gr"
  by (auto simp: surplus_def conserved_def)

lemma surplus_source: "surplus source sink gr source = conserved source sink gr"
  by (auto simp: surplus_def conserved_def)

lemma below_shape: "below gr gr' \<Longrightarrow> shape gr' = shape gr"
  by (simp add: below_def)

lemma excess_nonpos:
  assumes "\<forall>i < length (gr ! u). flow_at gr (u, i) \<le> 0"
  shows "excess gr u \<le> 0"
  unfolding excess_eq_sum by (rule sum_nonpos) (use assms in simp)

text \<open>One call of \<open>consumeFlowAlong\<close> at a node with positive net outflow.\<close>

lemma consume_surplus:
  assumes inv: "trace_inv source sink gr" and oo: "outs_ok outs gr"
    and u: "u < length gr" and ex: "0 < excess gr u"
  shows "\<exists>i gr'. consumeFlowAlong outs u gr = Some (gr', Some (to (edge_at gr (u, i))))
           \<and> consumes gr (u, i) gr'"
proof -
  from inv have net: "net_ok source sink gr" by (simp add: trace_inv_def)
  then have wf: "wf_graph gr" by (simp add: net_ok_def)
  from oo u have s: "set (outs u) = {..<length (gr ! u)}" by (simp add: outs_ok_def)
  then have eis: "\<forall>i \<in> set (outs u). i < length (gr ! u)" by simp
  from consume_first_cases[OF wf u eis]
  show ?thesis
  proof
    assume "(\<forall>i \<in> set (outs u). flow_at gr (u, i) \<le> 0) \<and> consume_first u (outs u) gr = Some (gr, None)"
    then have "\<forall>i < length (gr ! u). flow_at gr (u, i) \<le> 0" unfolding s by simp
    from excess_nonpos[OF this] ex show ?thesis by simp
  next
    assume "\<exists>i \<in> set (outs u). \<exists>gr'. consume_first u (outs u) gr = Some (gr', Some (to (edge_at gr (u, i))))
              \<and> consumes gr (u, i) gr'"
    then show ?thesis unfolding consumeFlowAlong_def by blast
  qed
qed

lemma trace_loop_correct:
  assumes d: "distinct names" and en: "endName = names ! (sink div 2)"
  shows "trace_inv source sink gr \<Longrightarrow> outs_ok outs gr \<Longrightarrow> length gr = 2 * length names
    \<Longrightarrow> surplus source sink gr cur \<Longrightarrow> even cur \<Longrightarrow> cur < length gr \<Longrightarrow> cur \<noteq> source - 1
    \<Longrightarrow> \<exists>cs gr'. trace_loop names outs endName sink cur namePath gr
                  = Some (namePath @ map (roomNameOf names) cs, gr')
          \<and> trace_inv source sink gr' \<and> conserved source sink gr' \<and> below gr gr'
          \<and> posflow gr' \<le> posflow gr \<and> excess gr' source = excess gr source
          \<and> distinct cs \<and> (cs = [] \<longleftrightarrow> cur = sink)
          \<and> (\<forall>c \<in> set cs. even c \<and> c < length gr \<and> c \<noteq> source - 1 \<and> c \<noteq> sink
                \<and> \<not> spent_edge gr c (c + 1) \<and> spent_edge gr' c (c + 1))
          \<and> (cur \<noteq> sink \<longrightarrow> (\<exists>cs'. cs = cur # cs' \<and> walk gr (cur + 1) cs' sink))"
proof (induction "posflow gr" arbitrary: gr cur namePath rule: less_induct)
  case less
  note inv = less.prems(1) and oo = less.prems(2) and len = less.prems(3)
    and sur = less.prems(4) and ev = less.prems(5) and cl = less.prems(6) and ca = less.prems(7)
  from inv have net: "net_ok source sink gr" by (simp add: trace_inv_def)
  then have wf: "wf_graph gr" and os: "odd source" and et: "even sink"
    and sl: "source < length gr" and tl: "sink + 1 < length gr"
    by (simp_all add: net_ok_def)
  show ?case
  proof (cases "cur = sink")
    case True
    have "trace_loop names outs endName sink cur namePath gr = Some (namePath, gr)"
      using True by (subst trace_loop.simps) simp
    moreover have "conserved source sink gr" using sur True surplus_sink by simp
    ultimately show ?thesis using inv True below_refl[of gr]
      by (intro exI[of _ "[]"] exI[of _ gr]) simp
  next
    case False
    from os ev have cs: "cur \<noteq> source" by auto
    from sur cl cs False have e0: "excess gr cur = 1" by (simp add: surplus_def)
    from consume_surplus[OF inv oo cl] e0 obtain i g1 where
      c1: "consumeFlowAlong outs cur gr = Some (g1, Some (to (edge_at gr (cur, i))))"
      and k1: "consumes gr (cur, i) g1"
      by auto
    from k1 have h1: "(cur, i) \<in> half_edges gr" and f1: "0 < flow_at gr (cur, i)"
      and sh1: "shape g1 = shape gr"
      by (simp_all add: consumes_def)
    from pos_flow_edge(7)[OF inv h1 f1] ev have to1: "to (edge_at gr (cur, i)) = cur + 1" by simp
    note r1 = consumes_inv[OF inv k1]
    have l1: "length g1 = length gr" by (rule shape_length[OF sh1])
    from wf_to_less[OF wf h1] to1 have cl1: "cur + 1 < length g1" using l1 by simp
    from ev os ca have n1: "cur + 1 \<noteq> source" by auto
    from ev et have n2: "cur + 1 \<noteq> sink" by auto
    have ex1: "\<And>x. x < length gr \<Longrightarrow> x \<noteq> source \<Longrightarrow> x \<noteq> sink
                  \<Longrightarrow> excess g1 x = (if x = cur + 1 then 1 else 0)"
      using r1(4) sur unfolding surplus_def to1 by auto
    have es1: "excess g1 source = excess gr source" using r1(4)[OF sl] cs n1 to1 by simp
    have e1: "excess g1 (cur + 1) = 1" using ex1[of "cur + 1"] cl1 l1 n1 n2 by simp
    note oo1 = outs_ok_shape[OF sh1 oo]
    from consume_surplus[OF r1(1) oo1 cl1] e1 obtain j g2 where
      c2: "consumeFlowAlong outs (cur + 1) g1 = Some (g2, Some (to (edge_at g1 (cur + 1, j))))"
      and k2: "consumes g1 (cur + 1, j) g2"
      by auto
    define nx where "nx = to (edge_at g1 (cur + 1, j))"
    from k2 have h2: "(cur + 1, j) \<in> half_edges g1" and f2: "0 < flow_at g1 (cur + 1, j)"
      and sh2: "shape g2 = shape g1"
      by (simp_all add: consumes_def)
    note p2 = pos_flow_edge[OF r1(1) h2 f2]
    from p2(7) ev have nev: "even nx" by (simp add: nx_def)
    from p2(5) have na: "nx \<noteq> source - 1" by (simp add: nx_def)
    note r2 = consumes_inv[OF r1(1) k2]
    have l2: "length g2 = length gr" using shape_length[OF sh2] l1 by simp
    from net_ok_shape[OF sh1 net] have wf1: "wf_graph g1" by (simp add: net_ok_def)
    from wf_to_less[OF wf1 h2] have nl: "nx < length g2" using l1 l2 by (simp add: nx_def)
    from nev os have nns: "nx \<noteq> source" by auto
    have sur2: "surplus source sink g2 nx"
      unfolding surplus_def l2
    proof (intro allI impI)
      fix x assume x: "x < length gr" and xn: "x \<noteq> source \<and> x \<noteq> sink"
      from r2(4)[of x] x l1 ex1[OF x] xn
      show "excess g2 x = (if x = nx then 1 else 0)" by (auto simp: nx_def)
    qed
    have es2: "excess g2 source = excess gr source"
      using r2(4)[of source] sl l1 es1 n1 nns by (auto simp: nx_def)
    have pf: "posflow g2 < posflow gr" using r1(3) r2(3) by simp
    note oo2 = outs_ok_shape[OF sh2 oo1]
    have l2': "length g2 = 2 * length names" using l2 len by simp
    have b2: "below gr g2" by (rule below_trans[OF r1(2) r2(2)])
    define np where "np = namePath @ [roomNameOf names cur]"
    from less.hyps[OF pf r2(1) oo2 l2' sur2 nev nl na, of np]
    obtain cs' gr' where
      t: "trace_loop names outs endName sink nx np g2 = Some (np @ map (roomNameOf names) cs', gr')"
      and i': "trace_inv source sink gr'" and co': "conserved source sink gr'"
      and b': "below g2 gr'" and pf': "posflow gr' \<le> posflow g2"
      and es': "excess gr' source = excess g2 source" and dc': "distinct cs'"
      and all': "\<forall>c \<in> set cs'. even c \<and> c < length g2 \<and> c \<noteq> source - 1 \<and> c \<noteq> sink
                \<and> \<not> spent_edge g2 c (c + 1) \<and> spent_edge gr' c (c + 1)"
      and wk': "nx \<noteq> sink \<longrightarrow> (\<exists>cs''. cs' = nx # cs'' \<and> walk g2 (nx + 1) cs'' sink)"
      and em': "cs' = [] \<longleftrightarrow> nx = sink"
      by (elim exE conjE)
    have "linked g1 (cur + 1) nx"
      unfolding linked_def using h2 p2(2) by (force simp: nx_def)
    then have lk: "linked gr (cur + 1) nx" by (simp add: linked_shape[OF sh1])
    have sh2': "shape g2 = shape gr" using sh2 sh1 by simp
    have wk: "walk gr (cur + 1) cs' sink"
    proof (cases "nx = sink")
      case True with em' lk show ?thesis by simp
    next
      case False
      with wk' obtain cs'' where "cs' = nx # cs''" "walk g2 (nx + 1) cs'' sink" by blast
      with lk show ?thesis by (simp add: walk_shape[OF sh2'])
    qed
    have dv: "cur div 2 < length names" using cl len by simp
    have tv: "sink div 2 < length names" using tl len by simp
    have "cur div 2 \<noteq> sink div 2" using ev et False by (auto elim!: evenE)
    then have nm: "roomNameOf names cur \<noteq> endName"
      unfolding roomNameOf_def en using nth_eq_iff_index_eq[OF d dv tv] by simp
    have dv': "\<not> length names \<le> cur div 2" using dv by simp
    have unf: "trace_loop names outs endName sink cur namePath gr
                 = trace_loop names outs endName sink nx np g2"
      by (subst trace_loop.simps)
         (use c2 in \<open>simp add: False dv' nm c1 to1 Let_def nx_def np_def\<close>)
    have s1: "spent_edge g1 cur (cur + 1)" using r1(5) to1 by simp
    have s2: "spent_edge g2 cur (cur + 1)" by (rule below_spent[OF r2(2) s1])
    have s': "spent_edge gr' cur (cur + 1)" by (rule below_spent[OF b' s2])
    have ns: "\<not> spent_edge gr cur (cur + 1)"
      unfolding spent_edge_def using h1 f1 to1 by force
    have notin: "cur \<notin> set cs'" using all' s2 by blast
    have olds: "\<not> spent_edge gr c (c + 1)" if "c \<in> set cs'" for c
      using all' that below_spent[OF b2, of c "c + 1"] by blast
    have "trace_loop names outs endName sink cur namePath gr
            = Some (namePath @ map (roomNameOf names) (cur # cs'), gr')"
      unfolding unf t by (simp add: np_def)
    moreover have "below gr gr'" by (rule below_trans[OF b2 b'])
    moreover have "posflow gr' \<le> posflow gr" using pf pf' by simp
    moreover have "excess gr' source = excess gr source" using es' es2 by simp
    moreover have "distinct (cur # cs')" using notin dc' by simp
    moreover have "\<forall>c \<in> set (cur # cs'). even c \<and> c < length gr \<and> c \<noteq> source - 1 \<and> c \<noteq> sink
                \<and> \<not> spent_edge gr c (c + 1) \<and> spent_edge gr' c (c + 1)"
      using ev cl ca False ns s' all' olds l2 by auto
    ultimately show ?thesis using i' co' False wk
      by (intro exI[of _ "cur # cs'"] exI[of _ gr']) simp
  qed
qed

lemma source_flow_nonneg:
  assumes inv: "trace_inv source sink gr" and h: "h \<in> half_edges gr" and s: "fst h = source"
  shows "0 \<le> flow_at gr h"
proof -
  from inv have net: "net_ok source sink gr" and fl: "flow_ok gr"
    by (simp_all add: trace_inv_def)
  from net have wf: "wf_graph gr" and os: "odd source" by (simp_all add: net_ok_def)
  note ph = wf_partner[OF wf h]
  show ?thesis
  proof (cases "0 < cap (edge_at gr (partner gr h))")
    case True
    from net_ok_edge(4)[OF net ph(1) True] ph(3) s os
    have "fst (partner gr h) = source - 1" by auto
    then have "to (edge_at gr h) = source - 1" by (simp add: partner_def)
    from dead_flow'[OF inv h] this show ?thesis by simp
  next
    case False
    with flow_ok_partner(1)[OF fl ph(1)] have "flow_at gr (partner gr h) \<le> 0" by simp
    with flow_ok_partner(2)[OF fl h] show ?thesis by simp
  qed
qed

lemma excess_zero:
  assumes "\<forall>i < length (gr ! u). flow_at gr (u, i) = 0"
  shows "excess gr u = 0"
  unfolding excess_eq_sum by (rule sum.neutral) (use assms in simp)

lemma trace_paths_correct:
  assumes d: "distinct names" and en: "endName = names ! (sink div 2)"
  shows "trace_inv source sink gr \<Longrightarrow> conserved source sink gr \<Longrightarrow> outs_ok outs gr
    \<Longrightarrow> length gr = 2 * length names \<Longrightarrow> paths_inv source sink gr css
    \<Longrightarrow> \<exists>css' gr'. trace_paths names outs startName endName source sink maxPaths gr
                      (map (path_of names startName endName) css)
                    = Some (map (path_of names startName endName) css')
          \<and> paths_inv source sink gr' css' \<and> shape gr' = shape gr
          \<and> (maxPaths \<le> 0 \<longrightarrow> int (length css') = int (length css) + excess gr source)"
proof (induction "posflow gr" arbitrary: gr css rule: less_induct)
  case less
  note inv = less.prems(1) and co = less.prems(2) and oo = less.prems(3) and len = less.prems(4)
    and pin = less.prems(5)
  let ?P = "path_of names startName endName"
  from inv have net: "net_ok source sink gr" by (simp add: trace_inv_def)
  then have wf: "wf_graph gr" and os: "odd source" and et: "even sink"
    and sl: "source < length gr" and tl: "sink + 1 < length gr"
    by (simp_all add: net_ok_def)
  from oo sl have so: "set (outs source) = {..<length (gr ! source)}" by (simp add: outs_ok_def)
  then have eis: "\<forall>i \<in> set (outs source). i < length (gr ! source)" by simp
  from consume_first_cases[OF wf sl eis]
  show ?case
  proof
    assume a: "(\<forall>i \<in> set (outs source). flow_at gr (source, i) \<le> 0)
                 \<and> consume_first source (outs source) gr = Some (gr, None)"
    have "\<forall>i < length (gr ! source). flow_at gr (source, i) = 0"
    proof (intro allI impI)
      fix i assume i: "i < length (gr ! source)"
      with sl have h: "(source, i) \<in> half_edges gr" by (simp add: half_edges_def)
      from source_flow_nonneg[OF inv h] a i so show "flow_at gr (source, i) = 0" by force
    qed
    then have e: "excess gr source = 0" by (rule excess_zero)
    have "trace_paths names outs startName endName source sink maxPaths gr (map ?P css)
            = Some (map ?P css)"
      using a by (subst trace_paths.simps) (simp add: consumeFlowAlong_def)
    with pin e show ?thesis by (intro exI[of _ css] exI[of _ gr]) simp
  next
    assume "\<exists>i \<in> set (outs source). \<exists>gr'. consume_first source (outs source) gr
                = Some (gr', Some (to (edge_at gr (source, i)))) \<and> consumes gr (source, i) gr'"
    then obtain i g1 where
      c1: "consumeFlowAlong outs source gr = Some (g1, Some (to (edge_at gr (source, i))))"
      and k1: "consumes gr (source, i) g1"
      unfolding consumeFlowAlong_def by blast
    define w where "w = to (edge_at gr (source, i))"
    from k1 have h1: "(source, i) \<in> half_edges gr" and f1: "0 < flow_at gr (source, i)"
      and sh1: "shape g1 = shape gr"
      by (simp_all add: consumes_def)
    note p1 = pos_flow_edge[OF inv h1 f1]
    from p1(7) os have wev: "even w" by (simp add: w_def)
    from p1(5) have wa: "w \<noteq> source - 1" by (simp add: w_def)
    from wev os have ws: "w \<noteq> source" by auto
    note r1 = consumes_inv[OF inv k1]
    have l1: "length g1 = length gr" by (rule shape_length[OF sh1])
    from wf_to_less[OF wf h1] have wl: "w < length g1" using l1 by (simp add: w_def)
    have sur1: "surplus source sink g1 w"
      unfolding surplus_def l1
    proof (intro allI impI)
      fix x assume x: "x < length gr" and xn: "x \<noteq> source \<and> x \<noteq> sink"
      from co x xn have "excess gr x = 0" by (simp add: conserved_def)
      with r1(4)[OF x] xn show "excess g1 x = (if x = w then 1 else 0)" by (simp add: w_def)
    qed
    have es1: "excess g1 source = excess gr source - 1"
      using r1(4)[OF sl] ws by (simp add: w_def)
    note oo1 = outs_ok_shape[OF sh1 oo]
    have l1': "length g1 = 2 * length names" using l1 len by simp
    from trace_loop_correct[OF d en r1(1) oo1 l1' sur1 wev wl wa, of "[startName]"]
    obtain cs g2 where
      t: "trace_loop names outs endName sink w [startName] g1
            = Some ([startName] @ map (roomNameOf names) cs, g2)"
      and i2: "trace_inv source sink g2" and co2: "conserved source sink g2"
      and b2: "below g1 g2" and pf2: "posflow g2 \<le> posflow g1"
      and es2: "excess g2 source = excess g1 source" and dc: "distinct cs"
      and emp: "cs = [] \<longleftrightarrow> w = sink"
      and all2: "\<forall>c \<in> set cs. even c \<and> c < length g1 \<and> c \<noteq> source - 1 \<and> c \<noteq> sink
                \<and> \<not> spent_edge g1 c (c + 1) \<and> spent_edge g2 c (c + 1)"
      and wk2: "w \<noteq> sink \<longrightarrow> (\<exists>cs'. cs = w # cs' \<and> walk g1 (w + 1) cs' sink)"
      by (elim exE conjE)
    have lk: "linked gr source w"
      unfolding linked_def using h1 p1(2) by (force simp: w_def)
    have wk: "walk gr source cs sink"
    proof (cases "w = sink")
      case True with emp lk show ?thesis by simp
    next
      case False
      with wk2 obtain cs' where "cs = w # cs'" "walk g1 (w + 1) cs' sink" by blast
      with lk show ?thesis by (simp add: walk_shape[OF sh1])
    qed
    have b: "below gr g2" by (rule below_trans[OF r1(2) b2])
    have sh2: "shape g2 = shape gr" by (rule below_shape[OF b])
    have l2: "length g2 = length gr" by (rule shape_length[OF sh2])
    from pin have pd: "distinct (concat css)"
      and pall: "\<forall>c \<in> set (concat css). even c \<and> c < length gr \<and> c \<noteq> source - 1 \<and> c \<noteq> sink
             \<and> spent_edge gr c (c + 1)"
      and pcount: "length (filter (\<lambda>cs. cs = []) css) \<le> 1"
      and pdir: "[] \<in> set css \<longrightarrow> spent_edge gr source sink"
      and pwalk: "\<forall>cs \<in> set css. walk gr source cs sink"
      by (simp_all add: paths_inv_def)
    have pin2: "paths_inv source sink g2 (css @ [cs])"
      unfolding paths_inv_def
    proof (intro conjI)
      have "set (concat css) \<inter> set cs = {}"
      proof (rule ccontr)
        assume "set (concat css) \<inter> set cs \<noteq> {}"
        then obtain c where c: "c \<in> set (concat css)" "c \<in> set cs" by blast
        from pall c(1) have "spent_edge gr c (c + 1)" by blast
        from below_spent[OF r1(2) this] all2 c(2) show False by blast
      qed
      with pd dc show "distinct (concat (css @ [cs]))" by simp
      show "\<forall>c \<in> set (concat (css @ [cs])). even c \<and> c < length g2 \<and> c \<noteq> source - 1 \<and> c \<noteq> sink
             \<and> spent_edge g2 c (c + 1)"
        using pall all2 l1 l2 below_spent[OF b] by auto
      have ns: "\<not> spent_edge gr source w"
        unfolding spent_edge_def using h1 f1 by (force simp: w_def)
      show "length (filter (\<lambda>cs. cs = []) (css @ [cs])) \<le> 1"
      proof (cases "cs = []")
        case True
        with emp ns pdir have "[] \<notin> set css" by auto
        then have "filter (\<lambda>cs. cs = []) css = []" by (auto simp: filter_empty_conv)
        with True show ?thesis by simp
      next
        case False with pcount show ?thesis by simp
      qed
      show "[] \<in> set (css @ [cs]) \<longrightarrow> spent_edge g2 source sink"
      proof
        assume "[] \<in> set (css @ [cs])"
        then consider "[] \<in> set css" | "cs = []" by auto
        then show "spent_edge g2 source sink"
        proof cases
          case 1 with pdir below_spent[OF b] show ?thesis by blast
        next
          case 2
          with emp r1(5) have "spent_edge g1 source sink" by (simp add: w_def)
          from below_spent[OF b2 this] show ?thesis .
        qed
      qed
      show "\<forall>cs \<in> set (css @ [cs]). walk g2 source cs sink"
        using pwalk wk by (simp add: walk_shape[OF sh2])
    qed
    have pth: "\<lparr>PRooms = startName # map (roomNameOf names) cs @ [endName],
                Length = 1 + int (length cs)\<rparr> = ?P cs"
      by (simp add: path_of_def)
    show ?thesis
    proof (cases "maxPaths > 0 \<and> int (length (css @ [cs])) \<ge> maxPaths")
      case True
      have "trace_paths names outs startName endName source sink maxPaths gr (map ?P css)
            = Some (map ?P (css @ [cs]))"
        using True
        by (subst trace_paths.simps)
           (simp add: c1 w_def[symmetric] t Let_def pth)
      with pin2 sh2 True show ?thesis by (intro exI[of _ "css @ [cs]"] exI[of _ g2]) simp
    next
      case False
      have unf: "trace_paths names outs startName endName source sink maxPaths gr (map ?P css)
            = trace_paths names outs startName endName source sink maxPaths g2 (map ?P (css @ [cs]))"
        using False
        by (subst trace_paths.simps)
           (auto simp add: c1 w_def[symmetric] t Let_def pth)
      have pf: "posflow g2 < posflow gr" using pf2 r1(3) by simp
      note oo2 = outs_ok_shape[OF sh2 oo]
      have l2': "length g2 = 2 * length names" using l2 len by simp
      from less.hyps[OF pf i2 co2 oo2 l2' pin2] obtain css' gr' where
        r: "trace_paths names outs startName endName source sink maxPaths g2 (map ?P (css @ [cs]))
              = Some (map ?P css')"
          "paths_inv source sink gr' css'" "shape gr' = shape g2"
          "maxPaths \<le> 0 \<longrightarrow> int (length css') = int (length (css @ [cs])) + excess g2 source"
        by (elim exE conjE)
      from r es2 es1 sh2 show ?thesis unfolding unf
        by (intro exI[of _ css'] exI[of _ gr']) simp
    qed
  qed
qed

lemma sortedOuts_ok: "outs_ok (sortedOuts names gr) gr"
proof -
  have "set (sortedOuts names gr u) = {..<length (gr ! u)}" for u
  proof -
    have "set (sortedOuts names gr u) = fst ` set (enumerate 0 (gr ! u))"
      unfolding sortedOuts_def by (force simp: image_iff)
    also have "\<dots> = set (map fst (enumerate 0 (gr ! u)))" by (rule set_map[symmetric])
    also have "\<dots> = {..<length (gr ! u)}"
      unfolding map_fst_enumerate by (simp add: lessThan_atLeast0)
    finally show ?thesis .
  qed
  then show ?thesis by (simp add: outs_ok_def)
qed

lemma idOf_name:
  assumes "distinct names" "x \<in> set names"
  shows "names ! idOf names x = x"
proof -
  from assms(2) obtain i where "i < length names" "names ! i = x" by (auto simp: in_set_conv_nth)
  with idOf_nth[OF assms(1) this(1)] show ?thesis by simp
qed

lemma MultiPath_structure:
  assumes v: "valid_graph g" and se: "Start g = Some sn" "End g = Some en"
  shows "\<exists>gr tot css.
       max_flow g maxPaths = Some (gr, tot)
     \<and> MultiPath g maxPaths = Some (map (path_of (room_names g) sn en) css)
     \<and> ek_inv (outIdx (room_names g) sn) (inIdx (room_names g) en) gr
     \<and> shape gr = shape (build_residual g (room_names g) sn en)
     \<and> tot = excess gr (outIdx (room_names g) sn)
     \<and> (maxPaths \<le> 0 \<longrightarrow> bfs gr (outIdx (room_names g) sn) (inIdx (room_names g) en) = Some (gr, 0)
            \<and> int (length css) = tot)
     \<and> distinct (concat css)
     \<and> (\<forall>c \<in> set (concat css). even c \<and> c < 2 * length (room_names g)
            \<and> c \<noteq> inIdx (room_names g) sn \<and> c \<noteq> inIdx (room_names g) en)
     \<and> length (filter (\<lambda>cs. cs = []) css) \<le> 1
     \<and> (\<forall>cs \<in> set css. walk (build_residual g (room_names g) sn en)
            (outIdx (room_names g) sn) cs (inIdx (room_names g) en))"
proof -
  define names where "names = room_names g"
  define s where "s = outIdx names sn"
  define t where "t = inIdx names en"
  define gr0 where "gr0 = build_residual g names sn en"
  note rn = room_names_props[OF v se, folded names_def]
  have inv0: "ek_inv s t gr0" unfolding s_def t_def gr0_def by (rule build_ek_inv[OF rn(1,3,4,5)])
  note bb = build_built[OF rn(1,3), where en = en and g = g, folded gr0_def]
  have sl0: "s < length gr0" using bb(2) idOf_less[OF rn(1,6), of sn] by (simp add: s_def outIdx_def)
  have e0: "excess gr0 s = 0" by (rule built_excess_zero[OF bb(1) sl0])
  from ek_loop_total[OF inv0, of maxPaths 0] e0 obtain gr tot where
    ek: "ek_loop s t maxPaths gr0 0 = Some (gr, tot)" and inv: "ek_inv s t gr"
    and sh: "shape gr = shape gr0" and tot: "tot = excess gr s"
    and fin: "maxPaths \<le> 0 \<longrightarrow> bfs gr s t = Some (gr, 0)"
    by auto
  have mf: "max_flow g maxPaths = Some (gr, tot)"
    unfolding max_flow_def se using ek
    by (simp add: Let_def names_def[symmetric] s_def[symmetric] t_def[symmetric] gr0_def[symmetric])
  have ne: "Rooms g \<noteq> []" using rn(3) rn(2) by auto
  have sim0: "simple_net gr0"
    unfolding gr0_def names_def
    by (rule built_simple[OF bb(1)[unfolded gr0_def names_def]
               triples_distinct[OF v rn(1)[unfolded names_def]]])
  have ti: "trace_inv s t gr"
    using inv simple_shape[OF sh sim0] by (simp add: trace_inv_def ek_inv_def)
  from inv have co: "conserved s t gr" by (simp add: ek_inv_def)
  have len: "length gr = 2 * length names" using shape_length[OF sh] bb(2) by simp
  have enn: "en = names ! (t div 2)" unfolding t_def inIdx_def using idOf_name[OF rn(1,4)] by simp
  have s1: "s - 1 = inIdx names sn" by (simp add: s_def inIdx_def outIdx_def)
  show ?thesis
  proof (cases "tot = 0")
    case True
    have "MultiPath g maxPaths = Some (map (path_of names sn en) [])"
      unfolding MultiPath_def se using ne mf True by simp
    with mf inv sh tot fin True show ?thesis
      unfolding names_def[symmetric] s_def[symmetric] t_def[symmetric] gr0_def[symmetric]
      by (intro exI[of _ gr] exI[of _ tot] exI[of _ "[]"]) simp
  next
    case False
    have p0: "paths_inv s t gr []" by (simp add: paths_inv_def)
    note so = sortedOuts_ok[where names = names and gr = gr]
    from trace_paths_correct[OF rn(1) enn ti co so len p0,
           where startName = sn and maxPaths = maxPaths, simplified]
    obtain css gr' where
      tp: "trace_paths names (sortedOuts names gr) sn en s t maxPaths gr [] 
             = Some (map (path_of names sn en) css)"
      and pin: "paths_inv s t gr' css" and sh': "shape gr' = shape gr"
      and cnt: "maxPaths \<le> 0 \<longrightarrow> int (length css) = excess gr s"
      by (elim exE conjE)
    have mp: "MultiPath g maxPaths = Some (map (path_of names sn en) css)"
      unfolding MultiPath_def se using ne mf False tp
      by (simp add: Let_def names_def[symmetric] s_def[symmetric] t_def[symmetric])
    have l': "length gr' = 2 * length names" using shape_length[OF sh'] len by simp
    have sh0: "shape gr' = shape gr0" using sh' sh by simp
    from pin have "distinct (concat css)"
      "\<forall>c \<in> set (concat css). even c \<and> c < 2 * length names \<and> c \<noteq> inIdx names sn \<and> c \<noteq> t"
      "length (filter (\<lambda>cs. cs = []) css) \<le> 1"
      "\<forall>cs \<in> set css. walk gr0 s cs t"
      unfolding paths_inv_def l' s1 walk_shape[OF sh0] by blast+
    with mf mp inv sh tot fin cnt show ?thesis
      unfolding names_def[symmetric] s_def[symmetric] t_def[symmetric] gr0_def[symmetric]
      by (intro exI[of _ gr] exI[of _ tot] exI[of _ css]) simp
  qed
qed

lemma distinct_concat_nth:
  "distinct (concat css) \<Longrightarrow> i < j \<Longrightarrow> j < length css \<Longrightarrow> set (css ! i) \<inter> set (css ! j) = {}"
proof (induction css arbitrary: i j)
  case Nil
  then show ?case by simp
next
  case (Cons cs css)
  from Cons.prems(2) obtain j' where j: "j = Suc j'" by (cases j) auto
  show ?case
  proof (cases i)
    case 0
    have "css ! j' \<in> set css" using Cons.prems(3) j by simp
    with Cons.prems(1) 0 j show ?thesis by auto
  next
    case (Suc i')
    with Cons.IH[of i' j'] Cons.prems j show ?thesis by simp
  qed
qed

lemma zip_mid:
  "(a, b) \<in> set (zip (x # M @ [y]) (M @ [y])) \<Longrightarrow> M \<noteq> [] \<Longrightarrow> a \<in> set M \<or> b \<in> set M"
proof (induction M arbitrary: x)
  case Nil
  then show ?case by simp
next
  case (Cons m M)
  show ?case
  proof (cases "M = []")
    case True
    with Cons.prems show ?thesis by auto
  next
    case False
    from Cons.prems(1) have "(a, b) = (x, m) \<or> (a, b) \<in> set (zip (m # M @ [y]) (M @ [y]))"
      by simp
    then show ?thesis
    proof
      assume "(a, b) = (x, m)" then show ?thesis by simp
    next
      assume "(a, b) \<in> set (zip (m # M @ [y]) (M @ [y]))"
      from Cons.IH[OF this False] show ?thesis by auto
    qed
  qed
qed

lemma room_name_inj:
  assumes d: "distinct names" and c: "even c" "c < 2 * length names"
    and c': "even c'" "c' < 2 * length names"
    and eq: "roomNameOf names c = roomNameOf names c'"
  shows "c = c'"
proof -
  have "c div 2 < length names" "c' div 2 < length names" using c(2) c'(2) by simp_all
  with eq d have "c div 2 = c' div 2" by (simp add: roomNameOf_def nth_eq_iff_index_eq)
  with c(1) c'(1) show ?thesis by (auto elim!: evenE)
qed

lemma room_name_not:
  assumes d: "distinct names" and x: "x \<in> set names"
    and c: "even c" "c < 2 * length names" "c \<noteq> inIdx names x"
  shows "roomNameOf names c \<noteq> x"
proof
  assume e: "roomNameOf names c = x"
  have l: "c div 2 < length names" using c(2) by simp
  from idOf_nth[OF d l] e have "idOf names x = c div 2" by (simp add: roomNameOf_def)
  with c(1,3) show False by (auto simp: inIdx_def elim!: evenE)
qed

text \<open>Two lists of intermediate rooms that have no room in common and avoid both ends
  give paths that share nothing but the ends, and an edge only if both are the direct
  path.\<close>

lemma paths_apart:
  assumes mi: "set Mi \<inter> {sn, en} = {}" and mj: "set Mj \<inter> {sn, en} = {}"
    and dj: "set Mi \<inter> set Mj = {}"
    and pi: "PRooms p = sn # Mi @ [en]" and pj: "PRooms q = sn # Mj @ [en]"
  shows "set (PRooms p) \<inter> set (PRooms q) \<subseteq> {sn, en}"
    and "path_edges p \<inter> path_edges q \<noteq> {} \<Longrightarrow> Mi = [] \<and> Mj = []"
proof -
  show "set (PRooms p) \<inter> set (PRooms q) \<subseteq> {sn, en}" unfolding pi pj using dj by auto
  assume "path_edges p \<inter> path_edges q \<noteq> {}"
  then obtain e where e: "e \<in> path_edges p" "e \<in> path_edges q" by blast
  from e(1) obtain a b where ab: "e = {a, b}" "(a, b) \<in> set (zip (sn # Mi @ [en]) (Mi @ [en]))"
    unfolding path_edges_def pi by auto
  from e(2) obtain a' b' where ab': "e = {a', b'}" "(a', b') \<in> set (zip (sn # Mj @ [en]) (Mj @ [en]))"
    unfolding path_edges_def pj by auto
  have ini: "a \<in> set (sn # Mi @ [en])" "b \<in> set (sn # Mi @ [en])"
    using set_zip_leftD[OF ab(2)] set_zip_rightD[OF ab(2)] by auto
  have inj: "a' \<in> set (sn # Mj @ [en])" "b' \<in> set (sn # Mj @ [en])"
    using set_zip_leftD[OF ab'(2)] set_zip_rightD[OF ab'(2)] by auto
  have "Mi = []"
  proof (rule ccontr)
    assume "Mi \<noteq> []"
    from zip_mid[OF ab(2) this] obtain m where m: "m \<in> set Mi" "m \<in> e" using ab(1) by auto
    from m(2) ab'(1) inj have "m \<in> set (sn # Mj @ [en])" by auto
    with m(1) mi dj show False by auto
  qed
  moreover have "Mj = []"
  proof (rule ccontr)
    assume "Mj \<noteq> []"
    from zip_mid[OF ab'(2) this] obtain m where m: "m \<in> set Mj" "m \<in> e" using ab'(1) by auto
    from m(2) ab(1) ini have "m \<in> set (sn # Mi @ [en])" by auto
    with m(1) mj dj show False by auto
  qed
  ultimately show "Mi = [] \<and> Mj = []" ..
qed

text \<open>C1: on a valid graph with start and end marked, \<open>MultiPath\<close> returns (for every
  \<open>maxPaths\<close>), and any two paths at different places of the list it returns have no room
  in common but the start and the end room and no edge in common (an edge taken as the
  unordered pair of two consecutive rooms). Every path of the list leads from the
  start room to the end room and visits no room twice.\<close>

theorem MultiPath_disjoint:
  assumes v: "valid_graph g" and se: "Start g = Some sn" "End g = Some en"
  shows "\<exists>paths. MultiPath g maxPaths = Some paths
     \<and> (\<forall>i < length paths. \<forall>j < length paths. i \<noteq> j \<longrightarrow>
            set (PRooms (paths ! i)) \<inter> set (PRooms (paths ! j)) \<subseteq> {sn, en}
            \<and> path_edges (paths ! i) \<inter> path_edges (paths ! j) = {})
     \<and> (\<forall>p \<in> set paths. hd (PRooms p) = sn \<and> last (PRooms p) = en \<and> distinct (PRooms p))"
proof -
  define names where "names = room_names g"
  note rn = room_names_props[OF v se, folded names_def]
  from MultiPath_structure[OF v se, of maxPaths, folded names_def] obtain css where
    mp: "MultiPath g maxPaths = Some (map (path_of names sn en) css)"
    and dc: "distinct (concat css)"
    and al: "\<forall>c \<in> set (concat css). even c \<and> c < 2 * length names
            \<and> c \<noteq> inIdx names sn \<and> c \<noteq> inIdx names en"
    and cnt: "length (filter (\<lambda>cs. cs = []) css) \<le> 1"
    by (elim exE conjE)
  let ?P = "path_of names sn en"
  let ?M = "\<lambda>cs. map (roomNameOf names) cs"
  have pr: "PRooms (?P cs) = sn # ?M cs @ [en]" for cs by (simp add: path_of_def)
  have ends: "set (?M cs) \<inter> {sn, en} = {}" if "cs \<in> set css" for cs
  proof -
    have "roomNameOf names c \<noteq> sn \<and> roomNameOf names c \<noteq> en" if "c \<in> set cs" for c
    proof -
      from al that \<open>cs \<in> set css\<close> have "even c" "c < 2 * length names"
        "c \<noteq> inIdx names sn" "c \<noteq> inIdx names en"
        by auto
      with room_name_not[OF rn(1,3), of c] room_name_not[OF rn(1,4), of c] show ?thesis by simp
    qed
    then show ?thesis by auto
  qed
  have inj: "inj_on (roomNameOf names) (set (concat css))"
    using al by (intro inj_onI room_name_inj[OF rn(1)]) auto
  have apart: "set (?M (css ! i)) \<inter> set (?M (css ! j)) = {}"
    if ij: "i < length css" "j < length css" "i \<noteq> j" for i j
  proof -
    have "set (css ! i) \<inter> set (css ! j) = {}"
    proof (cases "i < j")
      case True then show ?thesis by (rule distinct_concat_nth[OF dc _ ij(2)])
    next
      case False
      with ij(3) have "j < i" by simp
      from distinct_concat_nth[OF dc this ij(1)] show ?thesis by auto
    qed
    note dj = this
    have sub: "set (css ! i) \<subseteq> set (concat css)" "set (css ! j) \<subseteq> set (concat css)"
      using nth_mem[OF ij(1)] nth_mem[OF ij(2)] by auto
    show ?thesis
    proof (rule ccontr)
      assume "set (?M (css ! i)) \<inter> set (?M (css ! j)) \<noteq> {}"
      then obtain c c' where c: "c \<in> set (css ! i)" "c' \<in> set (css ! j)"
        "roomNameOf names c = roomNameOf names c'"
        by auto
      from inj_onD[OF inj c(3)] c(1,2) sub have "c = c'" by blast
      with c(1,2) dj show False by blast
    qed
  qed
  have pair: "set (PRooms (?P (css ! i))) \<inter> set (PRooms (?P (css ! j))) \<subseteq> {sn, en}
            \<and> path_edges (?P (css ! i)) \<inter> path_edges (?P (css ! j)) = {}"
    if ij: "i < length css" "j < length css" "i \<noteq> j" for i j
  proof -
    have mi: "set (?M (css ! i)) \<inter> {sn, en} = {}" and mj: "set (?M (css ! j)) \<inter> {sn, en} = {}"
      using ends ij(1,2) by simp_all
    note pa = paths_apart[OF mi mj apart[OF ij] pr pr]
    have "path_edges (?P (css ! i)) \<inter> path_edges (?P (css ! j)) = {}"
    proof (rule ccontr)
      assume "path_edges (?P (css ! i)) \<inter> path_edges (?P (css ! j)) \<noteq> {}"
      from pa(2)[OF this] have "css ! i = []" "css ! j = []" by simp_all
      from filter_le_one_unique[OF cnt ij(1,2) this] ij(3) show False by simp
    qed
    with pa(1) show ?thesis by simp
  qed
  have each: "hd (PRooms p) = sn \<and> last (PRooms p) = en \<and> distinct (PRooms p)"
    if "p \<in> set (map ?P css)" for p
  proof -
    from that obtain cs where cs: "cs \<in> set css" "p = ?P cs" by auto
    have "set cs \<subseteq> set (concat css)" using cs(1) by auto
    with inj have "inj_on (roomNameOf names) (set cs)" by (rule inj_on_subset)
    moreover have "distinct cs" using dc cs(1) by (auto simp: distinct_concat_iff)
    ultimately have "distinct (?M cs)" by (simp add: distinct_map)
    with ends[OF cs(1)] rn(5) show ?thesis unfolding cs(2) pr by auto
  qed
  show ?thesis
    using mp pair each by (intro exI[of _ "map ?P css"]) simp
qed

theorem MultiPath_disjoint_witness:
  "MultiPath
     \<lparr>Rooms = [(''start'', \<lparr>Name = ''start'', X = 0, Y = 0, Links = [''a'', ''b'']\<rparr>),
               (''a'', \<lparr>Name = ''a'', X = 1, Y = 0, Links = [''start'', ''end'', ''b'']\<rparr>),
               (''b'', \<lparr>Name = ''b'', X = 2, Y = 0, Links = [''start'', ''end'', ''a'']\<rparr>),
               (''end'', \<lparr>Name = ''end'', X = 3, Y = 0, Links = [''a'', ''b'']\<rparr>)],
       Start = Some ''start'', End = Some ''end''\<rparr> 0
     = Some [\<lparr>PRooms = [''start'', ''a'', ''end''], Length = 2\<rparr>,
             \<lparr>PRooms = [''start'', ''b'', ''end''], Length = 2\<rparr>]
   \<and> set [''start'', ''a'', ''end''] \<inter> set [''start'', ''b'', ''end''] \<subseteq> {''start'', ''end''}
   \<and> path_edges \<lparr>PRooms = [''start'', ''a'', ''end''], Length = 2\<rparr>
       \<inter> path_edges \<lparr>PRooms = [''start'', ''b'', ''end''], Length = 2\<rparr> = {}"
proof -
  let ?g = "\<lparr>Rooms = [(''start'', \<lparr>Name = ''start'', X = 0, Y = 0, Links = [''a'', ''b'']\<rparr>),
               (''a'', \<lparr>Name = ''a'', X = 1, Y = 0, Links = [''start'', ''end'', ''b'']\<rparr>),
               (''b'', \<lparr>Name = ''b'', X = 2, Y = 0, Links = [''start'', ''end'', ''a'']\<rparr>),
               (''end'', \<lparr>Name = ''end'', X = 3, Y = 0, Links = [''a'', ''b'']\<rparr>)],
       Start = Some ''start'', End = Some ''end''\<rparr>"
  let ?p = "\<lparr>PRooms = [''start'', ''a'', ''end''], Length = 2\<rparr>"
  let ?q = "\<lparr>PRooms = [''start'', ''b'', ''end''], Length = 2\<rparr>"
  have v: "valid_graph ?g" by code_simp
  have se: "Start ?g = Some ''start''" "End ?g = Some ''end''" by simp_all
  have run: "MultiPath ?g 0 = Some [?p, ?q]" by code_simp
  from MultiPath_disjoint[OF v se, of 0] obtain paths where
    p: "MultiPath ?g 0 = Some paths"
    and d: "\<forall>i < length paths. \<forall>j < length paths. i \<noteq> j \<longrightarrow>
            set (PRooms (paths ! i)) \<inter> set (PRooms (paths ! j)) \<subseteq> {''start'', ''end''}
            \<and> path_edges (paths ! i) \<inter> path_edges (paths ! j) = {}"
    by (elim exE conjE)
  from p run have ps: "paths = [?p, ?q]" by simp
  have "(0::nat) < length paths" "(1::nat) < length paths" "(0::nat) \<noteq> 1" by (simp_all add: ps)
  with d have "set (PRooms (paths ! 0)) \<inter> set (PRooms (paths ! 1)) \<subseteq> {''start'', ''end''}
            \<and> path_edges (paths ! 0) \<inter> path_edges (paths ! 1) = {}"
    by blast
  then show ?thesis using run unfolding ps by simp
qed

section \<open>The result does not depend on the order of a map\<close>

lemma build_posToAnt_fold_None:
  assumes "\<forall>a \<in> set as. \<not> (PathIdx a = pi \<and> Pos a = pos \<and> Pos a > 0)"
  shows "fold (\<lambda>a m. if PathIdx a = pi \<and> Pos a > 0 then m(Pos a \<mapsto> ID a) else m) as m pos = m pos"
  using assms by (induction as arbitrary: m) auto

lemma build_posToAnt_None:
  assumes "\<forall>a \<in> set as. \<not> (PathIdx a = pi \<and> Pos a = pos \<and> Pos a > 0)"
  shows "build_posToAnt pi as pos = None"
  unfolding build_posToAnt_def using build_posToAnt_fold_None[OF assms, of Map.empty] by simp

lemma build_posToAnt_fold_ex:
  assumes "\<exists>a \<in> set as. PathIdx a = pi \<and> Pos a = pos \<and> Pos a > 0"
  shows "fold (\<lambda>a m. if PathIdx a = pi \<and> Pos a > 0 then m(Pos a \<mapsto> ID a) else m) as m pos \<noteq> None"
  using assms
proof (induction as arbitrary: m)
  case Nil
  then show ?case by simp
next
  case (Cons a as)
  let ?f = "\<lambda>a m. if PathIdx a = pi \<and> Pos a > 0 then m(Pos a \<mapsto> ID a) else m"
  show ?case
  proof (cases "\<exists>a \<in> set as. PathIdx a = pi \<and> Pos a = pos \<and> Pos a > 0")
    case True
    from Cons.IH[OF this] show ?thesis by simp
  next
    case False
    with Cons.prems have a: "PathIdx a = pi \<and> Pos a = pos \<and> Pos a > 0" by auto
    from False have "\<forall>a \<in> set as. \<not> (PathIdx a = pi \<and> Pos a = pos \<and> Pos a > 0)" by blast
    from build_posToAnt_fold_None[OF this, of "?f a m"] a show ?thesis by simp
  qed
qed

lemma build_posToAnt_ex:
  assumes "\<exists>a \<in> set as. PathIdx a = pi \<and> Pos a = pos \<and> Pos a > 0"
  shows "build_posToAnt pi as pos \<noteq> None"
  unfolding build_posToAnt_def by (rule build_posToAnt_fold_ex[OF assms])

text \<open>On a valid path the rooms strictly between its ends are neither the start nor the
  end room.\<close>

lemma valid_path_inner:
  assumes d: "distinct rooms" and h: "hd rooms = sn" and l: "last rooms = en"
    and k: "0 < k" "k + 1 < length rooms"
  shows "rooms ! k \<noteq> sn \<and> rooms ! k \<noteq> en"
proof -
  from k have ne: "rooms \<noteq> []" by auto
  have e: "rooms ! 0 = sn" "rooms ! (length rooms - 1) = en"
    using h l ne by (simp_all add: hd_conv_nth last_conv_nth)
  have k0: "k < length rooms" "0 < length rooms" "length rooms - 1 < length rooms"
    using k by auto
  have "rooms ! k \<noteq> rooms ! 0" using nth_eq_iff_index_eq[OF d k0(1) k0(2)] k by simp
  moreover have "rooms ! k \<noteq> rooms ! (length rooms - 1)"
    using nth_eq_iff_index_eq[OF d k0(1) k0(3)] k by simp
  ultimately show ?thesis unfolding e by simp
qed

text \<open>In a state of the simulation, at most one ant stands at an inner position of a
  path.\<close>

lemma inner_ant_unique:
  assumes inv: "sim_inv sn en paths s" and vp: "valid_paths sn en paths"
    and a: "(i, a) \<in> set (antsState s)" and b: "(j, b) \<in> set (antsState s)"
    and same: "PathIdx a = PathIdx b" "Pos a = Pos b"
    and pos: "0 < Pos a" "Pos a < Length (paths ! PathIdx a)"
  shows "i = j"
proof -
  from inv a have pa: "PathIdx a < length paths"
    and oa: "room_of paths a \<noteq> sn \<and> room_of paths a \<noteq> en \<longrightarrow> occupied s (room_of paths a) = Some i"
    unfolding sim_inv_def by fast+
  from inv b have ob: "room_of paths b \<noteq> sn \<and> room_of paths b \<noteq> en \<longrightarrow> occupied s (room_of paths b) = Some j"
    unfolding sim_inv_def by fast
  let ?p = "paths ! PathIdx a"
  from pa have "?p \<in> set paths" by simp
  with vp have v: "distinct (PRooms ?p)" "hd (PRooms ?p) = sn" "last (PRooms ?p) = en"
    "int (length (PRooms ?p)) = Length ?p + 1"
    unfolding valid_paths_def by blast+
  have k: "0 < nat (Pos a)" "nat (Pos a) + 1 < length (PRooms ?p)" using pos v(4) by simp_all
  from valid_path_inner[OF v(1,2,3) k] have r: "room_of paths a \<noteq> sn \<and> room_of paths a \<noteq> en"
    by (simp add: room_of_def)
  have "room_of paths b = room_of paths a" using same by (simp add: room_of_def)
  with r oa ob show ?thesis by simp
qed

text \<open>So the entry of \<open>posToAnt\<close> at a position the second loop reads does not depend on
  the order in which the map of ant states was visited.\<close>

lemma build_posToAnt_order:
  assumes inv: "sim_inv sn en paths s" and vp: "valid_paths sn en paths"
    and xs: "mset xs = mset (antsState s)" and ys: "mset ys = mset (antsState s)"
    and pos: "pos < Length (paths ! pi)"
  shows "build_posToAnt pi (map snd xs) pos = build_posToAnt pi (map snd ys) pos"
proof -
  from xs ys have sx: "set xs = set (antsState s)" and sy: "set ys = set (antsState s)"
    by (auto dest: mset_eq_setD)
  show ?thesis
  proof (cases "\<exists>a \<in> snd ` set (antsState s). PathIdx a = pi \<and> Pos a = pos \<and> Pos a > 0")
    case False
    then have "\<forall>a \<in> set (map snd xs). \<not> (PathIdx a = pi \<and> Pos a = pos \<and> Pos a > 0)"
      "\<forall>a \<in> set (map snd ys). \<not> (PathIdx a = pi \<and> Pos a = pos \<and> Pos a > 0)"
      using sx sy by auto
    then show ?thesis by (simp add: build_posToAnt_None)
  next
    case True
    then have "\<exists>a \<in> set (map snd xs). PathIdx a = pi \<and> Pos a = pos \<and> Pos a > 0"
      "\<exists>a \<in> set (map snd ys). PathIdx a = pi \<and> Pos a = pos \<and> Pos a > 0"
      using sx sy by auto
    from build_posToAnt_ex[OF this(1)] build_posToAnt_ex[OF this(2)] obtain k k' where
      k: "build_posToAnt pi (map snd xs) pos = Some k"
        "build_posToAnt pi (map snd ys) pos = Some k'"
      by auto
    from build_posToAnt_Some[OF k(1)] sx obtain i a where
      a: "(i, a) \<in> set (antsState s)" "ID a = k" "PathIdx a = pi" "Pos a = pos"
      by auto
    from build_posToAnt_Some[OF k(2)] sy obtain j b where
      b: "(j, b) \<in> set (antsState s)" "ID b = k'" "PathIdx b = pi" "Pos b = pos"
      by auto
    from True a(4) have p0: "0 < Pos a" by auto
    have "i = j"
      by (rule inner_ant_unique[OF inv vp a(1) b(1)]) (use a b p0 pos in simp_all)
    moreover have "ID a = i" "ID b = j" using sim_inv_ID[OF inv] a(1) b(1) by simp_all
    ultimately show ?thesis using k a(2) b(2) by simp
  qed
qed

lemma advance_cong:
  assumes "m pos = m' pos"
  shows "advance sn en p m pos s = advance sn en p m' pos s"
  unfolding advance_def assms ..

lemma fold_opt_advance_cong:
  assumes "\<forall>pos \<in> set ps. m pos = m' pos"
  shows "fold_opt (advance sn en p m) ps s = fold_opt (advance sn en p m') ps s"
  using assms
proof (induction ps arbitrary: s)
  case Nil
  then show ?case by simp
next
  case (Cons pos ps)
  from Cons.prems have e: "advance sn en p m pos s = advance sn en p m' pos s"
    by (intro advance_cong) simp
  from Cons.prems have "\<forall>pos \<in> set ps. m pos = m' pos" by simp
  from Cons.IH[OF this] e show ?case by (simp split: option.splits)
qed

lemma move_path_order:
  assumes inv: "sim_inv sn en paths s" and vp: "valid_paths sn en paths"
    and v: "mset (visit (antsState s)) = mset (antsState s)"
    and v': "mset (visit' (antsState s)) = mset (antsState s)"
    and ip: "(pi, p) \<in> set (enumerate 0 paths)"
  shows "move_path visit sn en (pi, p) s = move_path visit' sn en (pi, p) s"
proof -
  from ip have p: "p = paths ! pi" by (simp add: in_set_enumerate_eq)
  have "\<forall>pos \<in> set (positions p).
          build_posToAnt pi (map snd (visit (antsState s))) pos
            = build_posToAnt pi (map snd (visit' (antsState s))) pos"
  proof
    fix pos assume "pos \<in> set (positions p)"
    then have "pos < Length (paths ! pi)" unfolding positions_def p by auto
    from build_posToAnt_order[OF inv vp v v' this]
    show "build_posToAnt pi (map snd (visit (antsState s))) pos
            = build_posToAnt pi (map snd (visit' (antsState s))) pos" .
  qed
  from fold_opt_advance_cong[OF this] show ?thesis by (simp add: move_path_def)
qed

lemma fold_opt_cong_inv:
  assumes "\<And>x s. x \<in> set xs \<Longrightarrow> P s \<Longrightarrow> f x s = g x s"
    and "\<And>x s s'. x \<in> set xs \<Longrightarrow> P s \<Longrightarrow> f x s = Some s' \<Longrightarrow> P s'"
    and "P s"
  shows "fold_opt f xs s = fold_opt g xs s"
  using assms
proof (induction xs arbitrary: s)
  case Nil
  then show ?case by simp
next
  case (Cons x xs)
  have e: "f x s = g x s" using Cons.prems(1)[of x s] Cons.prems(3) by simp
  show ?case
  proof (cases "f x s")
    case None
    with e show ?thesis by simp
  next
    case (Some s')
    have P': "P s'" using Cons.prems(2)[of x s s'] Cons.prems(3) Some by simp
    have "fold_opt f xs s' = fold_opt g xs s'"
    proof (rule Cons.IH)
      fix y t assume "y \<in> set xs" "P t"
      then show "f y t = g y t" using Cons.prems(1)[of y t] by simp
    next
      fix y t t' assume "y \<in> set xs" "P t" "f y t = Some t'"
      then show "P t'" using Cons.prems(2)[of y t t'] by simp
    next
      show "P s'" by (rule P')
    qed
    with Some e show ?thesis by simp
  qed
qed

lemma sim_inv_moves: "sim_inv sn en paths (s\<lparr>moves := ms\<rparr>) = sim_inv sn en paths s"
  by (simp add: sim_inv_def)

lemma turn_order:
  assumes inv: "sim_inv sn en paths s" and vp: "valid_paths sn en paths"
    and v: "visits_all visit" and v': "visits_all visit'"
  shows "turn visit sn en paths t s = turn visit' sn en paths t s"
proof -
  have "fold_opt (\<lambda>ip. move_path (visit t (fst ip)) sn en ip) (enumerate 0 paths) (s\<lparr>moves := []\<rparr>)
      = fold_opt (\<lambda>ip. move_path (visit' t (fst ip)) sn en ip) (enumerate 0 paths) (s\<lparr>moves := []\<rparr>)"
  proof (rule fold_opt_cong_inv[where P = "sim_inv sn en paths"])
    fix x s1 assume x: "x \<in> set (enumerate 0 paths)" and i: "sim_inv sn en paths s1"
    obtain pi p where xp: "x = (pi, p)" by (cases x)
    from v v' have m: "mset (visit t pi (antsState s1)) = mset (antsState s1)"
      "mset (visit' t pi (antsState s1)) = mset (antsState s1)"
      by (simp_all add: visits_all_def)
    from move_path_order[where visit = "visit t pi" and visit' = "visit' t pi",
           OF i vp m x[unfolded xp]]
    show "move_path (visit t (fst x)) sn en x s1 = move_path (visit' t (fst x)) sn en x s1"
      by (simp add: xp)
  next
    fix x s1 s2 assume x: "x \<in> set (enumerate 0 paths)" and i: "sim_inv sn en paths s1"
      and st: "move_path (visit t (fst x)) sn en x s1 = Some s2"
    obtain pi p where xp: "x = (pi, p)" by (cases x)
    from v have m: "mset (visit t pi (antsState s1)) = mset (antsState s1)"
      by (simp add: visits_all_def)
    show "sim_inv sn en paths s2"
      by (rule move_path_inv[where visit = "visit t pi", OF i m x[unfolded xp]])
         (use st xp in simp)
  next
    show "sim_inv sn en paths (s\<lparr>moves := []\<rparr>)" using inv by (simp add: sim_inv_moves)
  qed
  then show ?thesis by (simp add: turn_def)
qed

lemma run_loop_order_aux:
  assumes r: "run_loop v sn en paths ants t s out = Some y" and vb: "visits_all v'"
  shows "visits_all v \<longrightarrow> valid_paths sn en paths \<longrightarrow> sim_inv sn en paths s
           \<longrightarrow> run_loop v' sn en paths ants t s out = Some y"
proof (rule run_loop.raw_induct[where P = "\<lambda>v sn en paths ants t s out y.
          visits_all v \<longrightarrow> valid_paths sn en paths \<longrightarrow> sim_inv sn en paths s
           \<longrightarrow> run_loop v' sn en paths ants t s out = Some y", OF _ r])
  fix rl v sn en paths ants t s out y
  assume IH: "\<And>v sn en paths ants t s out y. rl v sn en paths ants t s out = Some y \<Longrightarrow>
          visits_all v \<longrightarrow> valid_paths sn en paths \<longrightarrow> sim_inv sn en paths s
           \<longrightarrow> run_loop v' sn en paths ants t s out = Some y"
    and body: "(if finished s < ants
      then case turn v sn en paths t s of None \<Rightarrow> None
           | Some s' \<Rightarrow>
               if moves s' \<noteq> []
               then rl v sn en paths ants (Suc t) s' (out @ [Join (moves s')])
               else Some out
      else Some out) = Some y"
  show "visits_all v \<longrightarrow> valid_paths sn en paths \<longrightarrow> sim_inv sn en paths s
           \<longrightarrow> run_loop v' sn en paths ants t s out = Some y"
  proof (intro impI)
    assume va: "visits_all v" and vp: "valid_paths sn en paths" and inv: "sim_inv sn en paths s"
    show "run_loop v' sn en paths ants t s out = Some y"
    proof (cases "finished s < ants")
      case False
      with body show ?thesis by (subst run_loop.simps) simp
    next
      case True
      from body True obtain s' where tn: "turn v sn en paths t s = Some s'"
        by (auto split: option.splits)
      have tn': "turn v' sn en paths t s = Some s'"
        using turn_order[OF inv vp va vb, of t] tn by simp
      have inv': "sim_inv sn en paths s'" by (rule turn_inv[OF inv va tn])
      show ?thesis
      proof (cases "moves s' \<noteq> []")
        case False
        with body True tn show ?thesis by (subst run_loop.simps) (simp add: tn')
      next
        case m: True
        from body True tn m have "rl v sn en paths ants (Suc t) s' (out @ [Join (moves s')]) = Some y"
          by simp
        from IH[OF this] va vp inv'
        show ?thesis using True m by (subst run_loop.simps) (simp add: tn')
      qed
    qed
  qed
qed

lemma run_loop_order:
  assumes v: "visits_all v" and v': "visits_all v'"
    and vp: "valid_paths sn en paths" and inv: "sim_inv sn en paths s"
  shows "run_loop v sn en paths ants t s out = run_loop v' sn en paths ants t s out"
proof (cases "run_loop v sn en paths ants t s out")
  case (Some y)
  with run_loop_order_aux[OF Some v'] v vp inv show ?thesis by simp
next
  case None
  show ?thesis
  proof (cases "run_loop v' sn en paths ants t s out")
    case None' : None
    with None show ?thesis by simp
  next
    case (Some y)
    from run_loop_order_aux[OF Some v] v' vp inv None show ?thesis by simp
  qed
qed

text \<open>The paths \<open>MultiPath\<close> returns are valid paths.\<close>

lemma MultiPath_valid_paths:
  assumes v: "valid_graph g" and se: "Start g = Some sn" "End g = Some en"
    and mp: "MultiPath g maxPaths = Some paths"
  shows "valid_paths sn en paths"
proof -
  define names where "names = room_names g"
  note rn = room_names_props[OF v se, folded names_def]
  from MultiPath_structure[OF v se, of maxPaths, folded names_def] mp obtain css where
    ps: "paths = map (path_of names sn en) css"
    and dc: "distinct (concat css)"
    and al: "\<forall>c \<in> set (concat css). even c \<and> c < 2 * length names
            \<and> c \<noteq> inIdx names sn \<and> c \<noteq> inIdx names en"
    by auto
  show ?thesis unfolding valid_paths_def
  proof
    fix p assume "p \<in> set paths"
    then obtain cs where cs: "cs \<in> set css" "p = path_of names sn en cs" unfolding ps by auto
    have al': "\<forall>c \<in> set cs. even c \<and> c < 2 * length names
            \<and> c \<noteq> inIdx names sn \<and> c \<noteq> inIdx names en"
      using al cs(1) by auto
    have "inj_on (roomNameOf names) (set cs)"
      using al' by (intro inj_onI room_name_inj[OF rn(1)]) auto
    moreover have "distinct cs" using dc cs(1) by (auto simp: distinct_concat_iff)
    ultimately have d: "distinct (map (roomNameOf names) cs)" by (simp add: distinct_map)
    have "roomNameOf names c \<noteq> sn \<and> roomNameOf names c \<noteq> en" if "c \<in> set cs" for c
      using al' that room_name_not[OF rn(1,3), of c] room_name_not[OF rn(1,4), of c] by simp
    then have e: "sn \<notin> set (map (roomNameOf names) cs)" "en \<notin> set (map (roomNameOf names) cs)"
      by auto
    show "distinct (PRooms p) \<and> hd (PRooms p) = sn \<and> last (PRooms p) = en
         \<and> int (length (PRooms p)) = Length p + 1 \<and> 2 \<le> length (PRooms p)"
      unfolding cs(2) path_of_def using d e rn(5) by simp
  qed
qed

text \<open>\<open>MultiPath\<close> reads the map \<open>g.Rooms\<close> through its sorted keys and through lookups
  only, so the order in which Go hands out its entries does not matter.\<close>

lemma MultiPath_rooms_order:
  assumes d: "distinct (map fst (Rooms g))" and d': "distinct (map fst (Rooms g'))"
    and s: "set (Rooms g') = set (Rooms g)"
    and se: "Start g' = Start g" "End g' = End g"
  shows "MultiPath g' maxPaths = MultiPath g maxPaths"
proof -
  have m: "map_of (Rooms g') = map_of (Rooms g)" using map_of_inject_set[OF d' d] s by simp
  then have lk: "links_of g' = links_of g" by (auto simp: links_of_def fun_eq_iff)
  have "mset (map fst (Rooms g')) = mset (map fst (Rooms g))"
  proof -
    from d d' have "distinct (Rooms g)" "distinct (Rooms g')" by (auto simp: distinct_map)
    with s have "mset (Rooms g') = mset (Rooms g)" by (simp add: set_eq_iff_mset_eq_distinct)
    then show ?thesis by (metis mset_map)
  qed
  then have "sort (map fst (Rooms g')) = sort (map fst (Rooms g))"
    by (intro properties_for_sort) simp_all
  then have nm: "room_names g' = room_names g" by (simp add: room_names_def)
  have e: "(Rooms g' = []) = (Rooms g = [])" using s by (metis set_empty)
  have al: "add_link_edges g' = add_link_edges g" by (simp add: add_link_edges_def lk fun_eq_iff)
  have br: "build_residual g' = build_residual g" by (simp add: build_residual_def al fun_eq_iff)
  have mf: "max_flow g' maxPaths = max_flow g maxPaths" unfolding max_flow_def se nm br ..
  show ?thesis unfolding MultiPath_def se nm e mf ..
qed

lemma sim_after_order:
  assumes v: "visits_all v" and v': "visits_all v'"
    and vp: "valid_paths sn en paths" and inv: "sim_inv sn en paths s0"
  shows "sim_after v sn en paths ants s0 k = sim_after v' sn en paths ants s0 k"
proof (induction k)
  case 0
  show ?case by simp
next
  case (Suc k)
  show ?case
  proof (cases "sim_after v sn en paths ants s0 k")
    case None
    with Suc show ?thesis by simp
  next
    case (Some s)
    from sim_after_inv[OF inv v Some] have "sim_inv sn en paths s" .
    from turn_order[OF this vp v v', of k] Some Suc show ?thesis by auto
  qed
qed

text \<open>\<open>Run\<close> on the paths of \<open>MultiPath\<close>, for two orders of visiting the map of ant
  states, and two graphs with the same start and end room.\<close>

lemma Run_order:
  assumes v: "valid_graph g" and se: "Start g = Some sn" "End g = Some en"
    and mp: "MultiPath g maxPaths = Some paths"
    and g': "Start g' = Start g" "End g' = End g"
    and vis: "visits_all visit" "visits_all visit'"
    and srt: "\<forall>ps. mset (sortSlice ps) = mset ps"
  shows "Run sortSlice visit' ants paths g' = Run sortSlice visit ants paths g"
    and "Run_after sortSlice visit' ants paths g' k = Run_after sortSlice visit ants paths g k"
proof -
  have vp: "valid_paths sn en paths" by (rule MultiPath_valid_paths[OF v se mp])
  have "set (sortSlice paths) = set paths" using srt by (metis mset_eq_setD)
  with vp have vps: "valid_paths sn en (sortSlice paths)" by (simp add: valid_paths_def)
  have stp: "Run_setup sortSlice ants paths g' = Run_setup sortSlice ants paths g"
    unfolding Run_setup_def g' ..
  show "Run sortSlice visit' ants paths g' = Run sortSlice visit ants paths g"
  proof (cases "Run_setup sortSlice ants paths g")
    case None
    then show ?thesis by (simp add: Run_def stp)
  next
    case (Some r)
    then obtain cs where r: "r = (sn, en, sortSlice paths, init_sim (materialise cs 1))"
      unfolding Run_setup_def se by (auto simp: Let_def split: option.splits)
    from run_loop_order[OF vis(2,1) vps init_sim_inv[where cs = cs],
           where ants = ants and t = 0 and out = "[]"] Some
    show ?thesis by (simp add: Run_def stp r)
  qed
  show "Run_after sortSlice visit' ants paths g' k = Run_after sortSlice visit ants paths g k"
  proof (cases "Run_setup sortSlice ants paths g")
    case None
    then show ?thesis by (simp add: Run_after_def stp)
  next
    case (Some r)
    then obtain cs where r: "r = (sn, en, sortSlice paths, init_sim (materialise cs 1))"
      unfolding Run_setup_def se by (auto simp: Let_def split: option.splits)
    from sim_after_order[OF vis(2,1) vps init_sim_inv[where cs = cs],
           where ants = ants and k = k] Some
    show ?thesis by (simp add: Run_after_def stp r)
  qed
qed

text \<open>C5: the pipeline gives the same result whatever Go does where it is free to choose:
  the order in which it hands out the entries of the map of rooms (\<open>g'\<close> is \<open>g\<close> with the
  entries in another order) and the order in which it visits the map of ant states, in
  each turn and for each path (\<open>visit\<close>, \<open>visit'\<close>). On a valid graph, which is what the
  parser yields, \<open>MultiPath\<close> returns the same list of paths, \<open>Run\<close> prints the same lines,
  and the two runs are in the same state, with the same moves made, at the end of every
  turn; and for every input, the program as a whole prints the same lines.\<close>

theorem pipeline_deterministic:
  assumes v: "valid_graph g" and se: "Start g = Some sn" "End g = Some en"
    and g': "set (Rooms g') = set (Rooms g)" "distinct (map fst (Rooms g'))"
      "Start g' = Start g" "End g' = End g"
    and vis: "visits_all visit" "visits_all visit'"
    and srt: "\<forall>ps. mset (sortSlice ps) = mset ps"
  shows "(\<exists>paths. MultiPath g maxPaths = Some paths \<and> MultiPath g' maxPaths = Some paths
     \<and> Run sortSlice visit' ants paths g' = Run sortSlice visit ants paths g
     \<and> (\<forall>k. Run_after sortSlice visit' ants paths g' k = Run_after sortSlice visit ants paths g k))
   \<and> (\<forall>input. main_prog sortSlice visit' input = main_prog sortSlice visit input)"
proof
  from MultiPath_structure[OF v se, of maxPaths] obtain paths where
    mp: "MultiPath g maxPaths = Some paths"
    by auto
  from v have d: "distinct (map fst (Rooms g))" by (simp add: valid_graph_def)
  have mp': "MultiPath g' maxPaths = Some paths"
    using MultiPath_rooms_order[OF d g'(2,1,3,4), of maxPaths] mp by simp
  note ro = Run_order[OF v se mp g'(3,4) vis srt]
  from mp mp' ro
  show "\<exists>paths. MultiPath g maxPaths = Some paths \<and> MultiPath g' maxPaths = Some paths
     \<and> Run sortSlice visit' ants paths g' = Run sortSlice visit ants paths g
     \<and> (\<forall>k. Run_after sortSlice visit' ants paths g' k = Run_after sortSlice visit ants paths g k)"
    by blast
  show "\<forall>input. main_prog sortSlice visit' input = main_prog sortSlice visit input"
  proof
    fix input
    show "main_prog sortSlice visit' input = main_prog sortSlice visit input"
    proof (cases "Parse input")
      case (Inl e)
      then show ?thesis by (simp add: main_prog_def)
    next
      case (Inr res)
      have vr: "valid_graph (RGraph res)" by (rule Parse_valid_graph[OF Inr])
      from Parse_start_end[OF Inr] obtain a b where
        ab: "Start (RGraph res) = Some a" "End (RGraph res) = Some b"
        by auto
      from MultiPath_structure[OF vr ab, of 0] obtain ps where
        ps: "MultiPath (RGraph res) 0 = Some ps"
        by auto
      have "Run sortSlice visit' (Ants res) ps (RGraph res)
              = Run sortSlice visit (Ants res) ps (RGraph res)"
        by (rule Run_order(1)[OF vr ab ps refl refl vis srt])
      then show ?thesis by (simp add: main_prog_def Inr ps cong: if_cong)
    qed
  qed
qed

theorem pipeline_deterministic_witness:
  "MultiPath \<lparr>Rooms = [(''start'', \<lparr>Name = ''start'', X = 0, Y = 0, Links = [''a'', ''b'']\<rparr>),
                     (''a'', \<lparr>Name = ''a'', X = 1, Y = 0, Links = [''start'', ''c'']\<rparr>),
                     (''c'', \<lparr>Name = ''c'', X = 2, Y = 0, Links = [''a'', ''end'']\<rparr>),
                     (''b'', \<lparr>Name = ''b'', X = 1, Y = 1, Links = [''start'', ''end'']\<rparr>),
                     (''end'', \<lparr>Name = ''end'', X = 3, Y = 0, Links = [''c'', ''b'']\<rparr>)],
             Start = Some ''start'', End = Some ''end''\<rparr> 0
     = Some [\<lparr>PRooms = [''start'', ''a'', ''c'', ''end''], Length = 3\<rparr>,
             \<lparr>PRooms = [''start'', ''b'', ''end''], Length = 2\<rparr>]
   \<and> MultiPath \<lparr>Rooms = [(''end'', \<lparr>Name = ''end'', X = 3, Y = 0, Links = [''c'', ''b'']\<rparr>),
                     (''b'', \<lparr>Name = ''b'', X = 1, Y = 1, Links = [''start'', ''end'']\<rparr>),
                     (''c'', \<lparr>Name = ''c'', X = 2, Y = 0, Links = [''a'', ''end'']\<rparr>),
                     (''a'', \<lparr>Name = ''a'', X = 1, Y = 0, Links = [''start'', ''c'']\<rparr>),
                     (''start'', \<lparr>Name = ''start'', X = 0, Y = 0, Links = [''a'', ''b'']\<rparr>)],
             Start = Some ''start'', End = Some ''end''\<rparr> 0
     = Some [\<lparr>PRooms = [''start'', ''a'', ''c'', ''end''], Length = 3\<rparr>,
             \<lparr>PRooms = [''start'', ''b'', ''end''], Length = 2\<rparr>]
   \<and> Run (sort_key Length) (\<lambda>t pi xs. rev xs) 5
          [\<lparr>PRooms = [''start'', ''a'', ''c'', ''end''], Length = 3\<rparr>,
           \<lparr>PRooms = [''start'', ''b'', ''end''], Length = 2\<rparr>]
          \<lparr>Rooms = [(''end'', \<lparr>Name = ''end'', X = 3, Y = 0, Links = [''c'', ''b'']\<rparr>),
                     (''b'', \<lparr>Name = ''b'', X = 1, Y = 1, Links = [''start'', ''end'']\<rparr>),
                     (''c'', \<lparr>Name = ''c'', X = 2, Y = 0, Links = [''a'', ''end'']\<rparr>),
                     (''a'', \<lparr>Name = ''a'', X = 1, Y = 0, Links = [''start'', ''c'']\<rparr>),
                     (''start'', \<lparr>Name = ''start'', X = 0, Y = 0, Links = [''a'', ''b'']\<rparr>)],
             Start = Some ''start'', End = Some ''end''\<rparr>
     = Some [''L1-b L4-a'', ''L1-end L4-c L2-b L5-a'', ''L2-end L4-end L5-c L3-b'',
             ''L3-end L5-end'']
   \<and> main_prog (sort_key Length) (\<lambda>t pi xs. rev xs)
        [''5'', ''##start'', ''start 0 0'', ''a 1 0'', ''c 2 0'', ''b 1 1'', ''##end'', ''end 3 0'',
         ''start-a'', ''start-b'', ''a-c'', ''c-end'', ''b-end'']
     = Some ([''5'', ''##start'', ''start 0 0'', ''a 1 0'', ''c 2 0'', ''b 1 1'', ''##end'', ''end 3 0'',
              ''start-a'', ''start-b'', ''a-c'', ''c-end'', ''b-end'', [],
              ''L1-b L4-a'', ''L1-end L4-c L2-b L5-a'', ''L2-end L4-end L5-c L3-b'',
              ''L3-end L5-end''], 0)"
proof -
  let ?g = "\<lparr>Rooms = [(''start'', \<lparr>Name = ''start'', X = 0, Y = 0, Links = [''a'', ''b'']\<rparr>),
                     (''a'', \<lparr>Name = ''a'', X = 1, Y = 0, Links = [''start'', ''c'']\<rparr>),
                     (''c'', \<lparr>Name = ''c'', X = 2, Y = 0, Links = [''a'', ''end'']\<rparr>),
                     (''b'', \<lparr>Name = ''b'', X = 1, Y = 1, Links = [''start'', ''end'']\<rparr>),
                     (''end'', \<lparr>Name = ''end'', X = 3, Y = 0, Links = [''c'', ''b'']\<rparr>)],
             Start = Some ''start'', End = Some ''end''\<rparr>"
  let ?g' = "\<lparr>Rooms = [(''end'', \<lparr>Name = ''end'', X = 3, Y = 0, Links = [''c'', ''b'']\<rparr>),
                     (''b'', \<lparr>Name = ''b'', X = 1, Y = 1, Links = [''start'', ''end'']\<rparr>),
                     (''c'', \<lparr>Name = ''c'', X = 2, Y = 0, Links = [''a'', ''end'']\<rparr>),
                     (''a'', \<lparr>Name = ''a'', X = 1, Y = 0, Links = [''start'', ''c'']\<rparr>),
                     (''start'', \<lparr>Name = ''start'', X = 0, Y = 0, Links = [''a'', ''b'']\<rparr>)],
             Start = Some ''start'', End = Some ''end''\<rparr>"
  let ?ps = "[\<lparr>PRooms = [''start'', ''a'', ''c'', ''end''], Length = 3\<rparr>,
              \<lparr>PRooms = [''start'', ''b'', ''end''], Length = 2\<rparr>]"
  let ?input = "[''5'', ''##start'', ''start 0 0'', ''a 1 0'', ''c 2 0'', ''b 1 1'', ''##end'', ''end 3 0'',
         ''start-a'', ''start-b'', ''a-c'', ''c-end'', ''b-end'']"
  have v: "valid_graph ?g" by code_simp
  have se: "Start ?g = Some ''start''" "End ?g = Some ''end''" by simp_all
  have g': "set (Rooms ?g') = set (Rooms ?g)" "distinct (map fst (Rooms ?g'))"
    "Start ?g' = Start ?g" "End ?g' = End ?g"
    by auto
  have vis: "visits_all (\<lambda>t pi xs. xs)" "visits_all (\<lambda>t pi xs. rev xs)"
    by (simp_all add: visits_all_def)
  have srt: "\<forall>ps. mset (sort_key Length ps) = mset ps" by simp
  have mp: "MultiPath ?g 0 = Some ?ps" by code_simp
  have run: "Run (sort_key Length) (\<lambda>t pi xs. xs) 5 ?ps ?g
               = Some [''L1-b L4-a'', ''L1-end L4-c L2-b L5-a'', ''L2-end L4-end L5-c L3-b'',
                       ''L3-end L5-end'']"
    by code_simp
  have prog: "main_prog (sort_key Length) (\<lambda>t pi xs. xs) ?input
     = Some (?input @ [[], ''L1-b L4-a'', ''L1-end L4-c L2-b L5-a'', ''L2-end L4-end L5-c L3-b'',
              ''L3-end L5-end''], 0)"
    by code_simp
  from pipeline_deterministic[OF v se g' vis srt, of 0 5] obtain paths where
    p: "MultiPath ?g 0 = Some paths" "MultiPath ?g' 0 = Some paths"
      "Run (sort_key Length) (\<lambda>t pi xs. rev xs) 5 paths ?g'
         = Run (sort_key Length) (\<lambda>t pi xs. xs) 5 paths ?g"
    and m: "\<forall>input. main_prog (sort_key Length) (\<lambda>t pi xs. rev xs) input
               = main_prog (sort_key Length) (\<lambda>t pi xs. xs) input"
    by (elim exE conjE)
  from p(1) mp have "paths = ?ps" by simp
  with p mp run m prog show ?thesis by simp
qed

section \<open>The number of paths is the largest possible\<close>

text \<open>The flow out of the source is the flow across any cut that has the source on its
  side and the sink on the other.\<close>

lemma cut_flow:
  assumes wf: "wf_graph gr" and fl: "flow_ok gr" and co: "conserved source sink gr"
    and S: "S \<subseteq> {..<length gr}" and s: "source \<in> S" and t: "sink \<notin> S"
  shows "excess gr source
           = (\<Sum>h \<in> {h \<in> half_edges gr. fst h \<in> S \<and> to (edge_at gr h) \<notin> S}. flow_at gr h)"
proof -
  let ?X = "{h \<in> half_edges gr. fst h \<in> S \<and> to (edge_at gr h) \<notin> S}"
  let ?A = "{h \<in> half_edges gr. fst h \<in> S \<and> to (edge_at gr h) \<in> S}"
  let ?H = "SIGMA x:S. {..<length (gr ! x)}"
  have fS: "finite S" using S by (rule finite_subset) simp
  have fin: "finite (half_edges gr)" by (rule finite_half_edges)
  have "(\<Sum>x \<in> S. excess gr x) = (\<Sum>x \<in> {source}. excess gr x)"
  proof (rule sum.mono_neutral_right[OF fS])
    show "{source} \<subseteq> S" using s by simp
    show "\<forall>x \<in> S - {source}. excess gr x = 0"
      using co S t unfolding conserved_def by auto
  qed
  then have e1: "(\<Sum>x \<in> S. excess gr x) = excess gr source" by simp
  have "(\<Sum>x \<in> S. excess gr x) = (\<Sum>x \<in> S. \<Sum>i < length (gr ! x). flow_at gr (x, i))"
    by (simp add: excess_eq_sum)
  also have "\<dots> = (\<Sum>h \<in> ?H. flow_at gr h)"
    by (subst sum.Sigma) (auto simp: fS)
  also have "?H = ?A \<union> ?X" using S by (auto simp: half_edges_def)
  also have "(\<Sum>h \<in> ?A \<union> ?X. flow_at gr h) = (\<Sum>h \<in> ?A. flow_at gr h) + (\<Sum>h \<in> ?X. flow_at gr h)"
    by (rule sum.union_disjoint) (auto intro: finite_subset[OF _ fin])
  also have "(\<Sum>h \<in> ?A. flow_at gr h) = 0"
  proof -
    have "(\<Sum>h \<in> ?A. flow_at gr h) = (\<Sum>h \<in> ?A. flow_at gr (partner gr h))"
    proof -
      have inv: "partner gr (partner gr h) = h \<and> partner gr h \<in> ?A" if "h \<in> ?A" for h
      proof -
        from that have h: "h \<in> half_edges gr" "fst h \<in> S" "to (edge_at gr h) \<in> S" by auto
        note p = wf_partner[OF wf h(1)]
        show ?thesis using p(1,2,3) h(2,3) by (simp add: partner_def)
      qed
      show ?thesis
        by (rule sum.reindex_bij_witness[of _ "partner gr" "partner gr"])
           (simp_all add: inv del: mem_Collect_eq)
    qed
    also have "\<dots> = (\<Sum>h \<in> ?A. - flow_at gr h)"
      by (rule sum.cong[OF refl]) (use flow_ok_partner(2)[OF fl] in auto)
    also have "\<dots> = - (\<Sum>h \<in> ?A. flow_at gr h)" by (rule sum_negf)
    finally show ?thesis by simp
  qed
  finally show ?thesis using e1 by simp
qed

text \<open>When the search has not reached the sink, the nodes it has reached form such a
  cut, every half-edge across which is full; so no more half-edges with capacity leave
  the cut than units of flow leave the source.\<close>

lemma saturated_cut:
  assumes inv: "ek_inv source sink gr" and ok: "tree_ok gr source sink par"
    and nf: "par ! sink = None" and cl: "closed_under_residual gr par"
  shows "int (card {h \<in> half_edges gr. par ! fst h \<noteq> None \<and> par ! to (edge_at gr h) = None
                      \<and> 0 < cap (edge_at gr h)}) \<le> excess gr source"
proof -
  from inv have net: "net_ok source sink gr" and fl: "flow_ok gr" and co: "conserved source sink gr"
    by (simp_all add: ek_inv_def)
  from net have wf: "wf_graph gr" and sl: "source < length gr" and tl: "sink < length gr"
    by (simp_all add: net_ok_def)
  define S where "S = {x. x < length gr \<and> par ! x \<noteq> None}"
  let ?X = "{h \<in> half_edges gr. fst h \<in> S \<and> to (edge_at gr h) \<notin> S}"
  let ?Xf = "{h \<in> half_edges gr. par ! fst h \<noteq> None \<and> par ! to (edge_at gr h) = None
                      \<and> 0 < cap (edge_at gr h)}"
  have fin: "finite (half_edges gr)" by (rule finite_half_edges)
  have fX: "finite ?X" by (rule finite_subset[OF _ fin]) auto
  have S: "S \<subseteq> {..<length gr}" by (auto simp: S_def)
  from ok have "par ! source \<noteq> None" by (simp add: tree_ok_def)
  with sl have s: "source \<in> S" by (simp add: S_def)
  from nf have t: "sink \<notin> S" by (simp add: S_def)
  have mem: "(to (edge_at gr h) \<in> S) = (par ! to (edge_at gr h) \<noteq> None)"
    "(fst h \<in> S) = (par ! fst h \<noteq> None)" if "h \<in> half_edges gr" for h
    using wf_to_less[OF wf that] that by (auto simp: S_def half_edges_def)
  have full: "flow_at gr h = cap (edge_at gr h)" if "h \<in> ?X" for h
  proof -
    from that have h0: "h \<in> half_edges gr" "fst h \<in> S" "to (edge_at gr h) \<notin> S" by simp_all
    with mem[OF h0(1)] have h: "h \<in> half_edges gr" "par ! fst h \<noteq> None"
      "par ! to (edge_at gr h) = None"
      by blast+
    with cl have "\<not> 0 < residual gr h" unfolding closed_under_residual_def by blast
    with flow_ok_partner(1)[OF fl h(1)] show ?thesis by (simp add: residual_def flow_at_def)
  qed
  have "excess gr source = (\<Sum>h \<in> ?X. flow_at gr h)" by (rule cut_flow[OF wf fl co S s t])
  also have "\<dots> = (\<Sum>h \<in> ?X. cap (edge_at gr h))" by (rule sum.cong[OF refl]) (rule full)
  finally have e: "excess gr source = (\<Sum>h \<in> ?X. cap (edge_at gr h))" .
  have sub: "?Xf \<subseteq> ?X"
  proof
    fix h assume "h \<in> ?Xf"
    then have h: "h \<in> half_edges gr" "par ! fst h \<noteq> None" "par ! to (edge_at gr h) = None"
      by simp_all
    with mem[OF h(1)] have "fst h \<in> S" "to (edge_at gr h) \<notin> S" by blast+
    with h(1) show "h \<in> ?X" by simp
  qed
  have "int (card ?Xf) = (\<Sum>h \<in> ?Xf. 1)" by simp
  also have "\<dots> \<le> (\<Sum>h \<in> ?Xf. cap (edge_at gr h))" by (rule sum_mono) auto
  also have "\<dots> \<le> (\<Sum>h \<in> ?X. cap (edge_at gr h))"
    by (rule sum_mono2[OF fX sub]) (use net_ok_edge(1)[OF net] in auto)
  finally show ?thesis using e by simp
qed

text \<open>The edges of the network built from a valid graph are the room edges and the link
  edges.\<close>

lemma filter_pos_ex:
  assumes "0 < length (filter P xs)"
  shows "\<exists>i < length xs. P (xs ! i)"
proof -
  from assms have "filter P xs \<noteq> []" by auto
  then obtain x where "x \<in> set xs" "P x" by (auto simp: filter_empty_conv)
  then show ?thesis by (auto simp: in_set_conv_nth)
qed

lemma built_linked:
  assumes b: "built_from T gr" and t: "(u, v, c) \<in> set T" and u: "u < length gr"
  shows "linked gr u v"
proof -
  from b u have "length (filter (\<lambda>e. to e = v \<and> 0 < cap e) (gr ! u))
      = length (filter (\<lambda>t. fst t = u \<and> fst (snd t) = v) T)"
    unfolding built_from_def by blast
  moreover have "(u, v, c) \<in> set (filter (\<lambda>t. fst t = u \<and> fst (snd t) = v) T)" using t by simp
  then have "0 < length (filter (\<lambda>t. fst t = u \<and> fst (snd t) = v) T)"
    by (cases "filter (\<lambda>t. fst t = u \<and> fst (snd t) = v) T") auto
  ultimately have "0 < length (filter (\<lambda>e. to e = v \<and> 0 < cap e) (gr ! u))" by simp
  from filter_pos_ex[OF this] obtain i where i: "i < length (gr ! u)"
    "to (gr ! u ! i) = v" "0 < cap (gr ! u ! i)"
    by auto
  with u have "(u, i) \<in> half_edges gr" by (simp add: half_edges_def)
  with i show ?thesis unfolding linked_def by (intro bexI[of _ "(u, i)"]) (simp_all add: edge_at_def)
qed

lemma linked_built:
  assumes b: "built_from T gr" and l: "linked gr u v"
  shows "\<exists>c. (u, v, c) \<in> set T"
proof -
  from l obtain h where h: "h \<in> half_edges gr" "fst h = u" "to (edge_at gr h) = v"
    "0 < cap (edge_at gr h)"
    unfolding linked_def by blast
  from b h(1) have "(0 < cap (edge_at gr h) \<and> cap (edge_at gr (partner gr h)) = 0
                 \<and> (fst h, to (edge_at gr h), cap (edge_at gr h)) \<in> set T)
                \<or> (cap (edge_at gr h) = 0 \<and> 0 < cap (edge_at gr (partner gr h))
                   \<and> (to (edge_at gr h), fst h, cap (edge_at gr (partner gr h))) \<in> set T)"
    unfolding built_from_def by blast
  with h show ?thesis by auto
qed

lemma network_edges:
  assumes v: "valid_graph g" and se: "Start g = Some sn" "End g = Some en"
  shows "\<And>r. r \<in> set (room_names g)
           \<Longrightarrow> linked (build_residual g (room_names g) sn en)
                 (inIdx (room_names g) r) (outIdx (room_names g) r)"
    and "\<And>a b. a \<in> set (room_names g) \<Longrightarrow> b \<in> set (links_of g a)
           \<Longrightarrow> linked (build_residual g (room_names g) sn en)
                 (outIdx (room_names g) a) (inIdx (room_names g) b)"
    and "\<And>u v. linked (build_residual g (room_names g) sn en) u v \<Longrightarrow> odd u
           \<Longrightarrow> \<exists>a \<in> set (room_names g). \<exists>b \<in> set (links_of g a).
                 u = outIdx (room_names g) a \<and> v = inIdx (room_names g) b"
proof -
  define names where "names = room_names g"
  define gr0 where "gr0 = build_residual g names sn en"
  note rn = room_names_props[OF v se, folded names_def]
  note bb = build_built[OF rn(1,3), where en = en and g = g, folded gr0_def]
  note il = idOf_less[OF rn(1,6)]
  show "linked (build_residual g (room_names g) sn en)
         (inIdx (room_names g) r) (outIdx (room_names g) r)" if "r \<in> set (room_names g)" for r
  proof -
    have "(inIdx names r, outIdx names r, if r = sn \<or> r = en then INF_cap else 1)
            \<in> set (room_triples names sn en @ link_triples g names)"
      using that by (auto simp: room_triples_def names_def)
    moreover have "inIdx names r < length gr0" using bb(2) il[of r] by (simp add: inIdx_def)
    ultimately show ?thesis
      unfolding names_def[symmetric] gr0_def[symmetric] by (rule built_linked[OF bb(1)])
  qed
  show "linked (build_residual g (room_names g) sn en)
         (outIdx (room_names g) a) (inIdx (room_names g) b)"
    if "a \<in> set (room_names g)" "b \<in> set (links_of g a)" for a b
  proof -
    have "(outIdx names a, inIdx names b, 1) \<in> set (room_triples names sn en @ link_triples g names)"
      using that by (auto simp: link_triples_def names_def)
    moreover have "outIdx names a < length gr0" using bb(2) il[of a] by (simp add: outIdx_def)
    ultimately show ?thesis
      unfolding names_def[symmetric] gr0_def[symmetric] by (rule built_linked[OF bb(1)])
  qed
  show "\<exists>a \<in> set (room_names g). \<exists>b \<in> set (links_of g a).
                 u = outIdx (room_names g) a \<and> v = inIdx (room_names g) b"
    if "linked (build_residual g (room_names g) sn en) u v" "odd u" for u v
  proof -
    from linked_built[OF bb(1)] that(1) obtain c where
      "(u, v, c) \<in> set (room_triples names sn en @ link_triples g names)"
      unfolding names_def[symmetric] gr0_def[symmetric] by blast
    with that(2) have "(u, v, c) \<in> set (link_triples g names)"
      by (auto simp: room_triples_def inIdx_def)
    then show ?thesis unfolding names_def[symmetric] by (auto simp: link_triples_def)
  qed
qed

lemma out_inj:
  assumes d: "distinct names" and a: "a \<in> set names" "b \<in> set names"
  shows "outIdx names a = outIdx names b \<Longrightarrow> a = b" "inIdx names a = inIdx names b \<Longrightarrow> a = b"
  using idOf_inj[OF d a] by (simp_all add: outIdx_def inIdx_def)

text \<open>The rooms of a path in a valid graph are rooms of the graph.\<close>

lemma links_of_key:
  assumes "b \<in> set (links_of g a)"
  shows "a \<in> set (room_names g)"
proof -
  from assms obtain r where "map_of (Rooms g) a = Some r"
    by (cases "map_of (Rooms g) a") (auto simp: links_of_def)
  from map_of_SomeD[OF this] show ?thesis by (force simp: room_names_def)
qed

lemma graph_path_pairs:
  assumes gp: "graph_path g sn en q" and v: "valid_graph g"
    and ab: "(a, b) \<in> set (zip q (tl q))"
  shows "b \<in> set (links_of g a)" "a \<in> set (room_names g)" "b \<in> set (room_names g)"
    "a \<in> set q" "b \<in> set q"
proof -
  from gp ab show l: "b \<in> set (links_of g a)" unfolding graph_path_def by blast
  from links_of_key[OF l] show a: "a \<in> set (room_names g)" .
  from links_in_names(2)[OF v a] l show "b \<in> set (room_names g)" by blast
  from set_zip_leftD[OF ab] show "a \<in> set q" .
  from set_zip_rightD[OF ab] show "b \<in> set q" by (cases q) auto
qed

lemma tl_pair:
  assumes "r \<in> set (tl q)"
  shows "\<exists>a. (a, r) \<in> set (zip q (tl q))"
proof -
  from assms obtain i where i: "i < length (tl q)" "tl q ! i = r" by (auto simp: in_set_conv_nth)
  then have "(q ! i, tl q ! i) \<in> set (zip q (tl q))"
    by (auto simp: in_set_zip intro!: exI[of _ i])
  with i(2) show ?thesis by blast
qed

text \<open>A pair of consecutive rooms of a path that are both ends of the path makes it the
  direct path.\<close>

lemma direct_pair:
  assumes d: "distinct q" and h: "hd q = sn" and l: "last q = en"
    and ab: "(a, b) \<in> set (zip q (tl q))" and a: "a \<in> {sn, en}" and b: "b \<in> {sn, en}"
  shows "q = [sn, en]"
proof -
  from ab obtain i where i: "i < length q" "i < length (tl q)" "q ! i = a" "tl q ! i = b"
    by (auto simp: in_set_zip)
  then have n: "Suc i < length q" by simp
  then have ne: "q \<noteq> []" by auto
  have b': "q ! Suc i = b" using i(4) n by (simp add: nth_tl)
  have e: "q ! 0 = sn" "q ! (length q - 1) = en"
    using h l ne by (simp_all add: hd_conv_nth last_conv_nth)
  have z: "0 < length q" "length q - 1 < length q" using n by auto
  have i0: "i = 0"
  proof -
    from a i(3) e consider "q ! i = q ! 0" | "q ! i = q ! (length q - 1)" by auto
    then show ?thesis
    proof cases
      case 1
      with nth_eq_iff_index_eq[OF d i(1) z(1)] show ?thesis by simp
    next
      case 2
      with nth_eq_iff_index_eq[OF d i(1) z(2)] n show ?thesis by simp
    qed
  qed
  have "length q = 2"
  proof -
    from b b' e consider "q ! Suc i = q ! 0" | "q ! Suc i = q ! (length q - 1)" by auto
    then show ?thesis
    proof cases
      case 1
      with nth_eq_iff_index_eq[OF d n z(1)] show ?thesis by simp
    next
      case 2
      with nth_eq_iff_index_eq[OF d n z(2)] i0 show ?thesis by simp
    qed
  qed
  then obtain x y where q: "q = [x, y]"
    by (cases q; cases "tl q") auto
  with h l show ?thesis by simp
qed

text \<open>Two paths that share no inner room cross the cut on different edges.\<close>

lemma crosses_inj:
  assumes v: "valid_graph g" and dn: "distinct (room_names g)"
    and gp: "graph_path g sn en q" and gp': "graph_path g sn en q'"
    and sub: "set q \<inter> set q' \<subseteq> {sn, en}"
    and c: "crosses (room_names g) gr q h" and c': "crosses (room_names g) gr q' h"
  shows "q = q'"
proof -
  let ?names = "room_names g"
  from gp have q: "distinct q" "hd q = sn" "last q = en" "2 \<le> length q" by (simp_all add: graph_path_def)
  from gp' have q': "distinct q'" "hd q' = sn" "last q' = en" "2 \<le> length q'"
    by (simp_all add: graph_path_def)
  have inner: "r \<in> set p \<and> r \<noteq> sn \<and> r \<noteq> en \<and> r \<in> set ?names"
    if p: "graph_path g sn en p" and r: "r \<in> set (butlast (tl p))" for p r
  proof -
    from p have pp: "distinct p" "hd p = sn" "last p = en" "2 \<le> length p"
      by (simp_all add: graph_path_def)
    then obtain x rest where pe: "p = x # rest" "rest \<noteq> []" by (cases p; cases "tl p") auto
    from r pe have rr: "r \<in> set (butlast rest)" by simp
    then have rt: "r \<in> set rest" by (rule in_set_butlastD)
    from pp(1) pe rt have "r \<noteq> x" by auto
    moreover have "r \<noteq> last rest"
    proof -
      from pp(1) pe have "distinct rest" by simp
      then have "distinct (butlast rest @ [last rest])" using pe(2) by simp
      with rr show ?thesis by auto
    qed
    moreover from tl_pair[of r p] rt pe obtain a where "(a, r) \<in> set (zip p (tl p))" by auto
    from graph_path_pairs(3)[OF p v this] have "r \<in> set ?names" .
    ultimately show ?thesis using pp(2,3) pe rt by auto
  qed
  from c consider (link) a b where "(a, b) \<in> set (zip q (tl q))"
      "fst h = outIdx ?names a" "to (edge_at gr h) = inIdx ?names b"
    | (room) r where "r \<in> set (butlast (tl q))"
      "fst h = inIdx ?names r" "to (edge_at gr h) = outIdx ?names r"
    unfolding crosses_def by blast
  then show ?thesis
  proof cases
    case link
    note pa = graph_path_pairs[OF gp v link(1)]
    from c' consider (link') a' b' where "(a', b') \<in> set (zip q' (tl q'))"
        "fst h = outIdx ?names a'" "to (edge_at gr h) = inIdx ?names b'"
      | (room') r where "r \<in> set (butlast (tl q'))"
        "fst h = inIdx ?names r" "to (edge_at gr h) = outIdx ?names r"
      unfolding crosses_def by blast
    then show ?thesis
    proof cases
      case link'
      note pa' = graph_path_pairs[OF gp' v link'(1)]
      have "a = a'" using out_inj(1)[OF dn pa(2) pa'(2)] link(2) link'(2) by simp
      moreover have "b = b'" using out_inj(2)[OF dn pa(3) pa'(3)] link(3) link'(3) by simp
      ultimately have "a \<in> {sn, en}" "b \<in> {sn, en}" using pa(4,5) pa'(4,5) sub by auto
      from direct_pair[OF q(1,2,3) link(1) this]
        direct_pair[OF q'(1,2,3) link'(1)[folded \<open>a = a'\<close> \<open>b = b'\<close>] this]
      show ?thesis by simp
    next
      case room'
      from link(2) room'(2) have False by (simp add: outIdx_def inIdx_def) presburger
      then show ?thesis ..
    qed
  next
    case room
    note i = inner[OF gp room(1)]
    from c' consider (link') a' b' where "(a', b') \<in> set (zip q' (tl q'))"
        "fst h = outIdx ?names a'" "to (edge_at gr h) = inIdx ?names b'"
      | (room') r' where "r' \<in> set (butlast (tl q'))"
        "fst h = inIdx ?names r'" "to (edge_at gr h) = outIdx ?names r'"
      unfolding crosses_def by blast
    then show ?thesis
    proof cases
      case link'
      from link'(2) room(2) have False by (simp add: outIdx_def inIdx_def) presburger
      then show ?thesis ..
    next
      case room'
      note i' = inner[OF gp' room'(1)]
      have "r = r'" using out_inj(2)[of ?names r r'] dn i i' room(2) room'(2) by simp
      with i i' sub have False by auto
      then show ?thesis ..
    qed
  qed
qed

text \<open>A path from a room whose out-node is on the near side of a cut to the end room,
  whose in-node is on the far side, crosses the cut: on a link, or inside a room.\<close>

lemma crossing:
  assumes "inS (outIdx names x)" "\<not> inS (inIdx names en)" "last (x # rest) = en" "rest \<noteq> []"
  shows "(\<exists>(a, b) \<in> set (zip (x # rest) rest). inS (outIdx names a) \<and> \<not> inS (inIdx names b))
       \<or> (\<exists>r \<in> set (butlast rest). inS (inIdx names r) \<and> \<not> inS (outIdx names r))"
  using assms
proof (induction rest arbitrary: x)
  case Nil
  then show ?case by simp
next
  case (Cons y rest)
  show ?case
  proof (cases "inS (inIdx names y)")
    case False
    with Cons.prems(1) show ?thesis by auto
  next
    case iny: True
    show ?thesis
    proof (cases "rest = []")
      case True
      with Cons.prems(3) have "y = en" by simp
      with iny Cons.prems(2) show ?thesis by simp
    next
      case ne: False
      show ?thesis
      proof (cases "inS (outIdx names y)")
        case False
        with iny ne show ?thesis by auto
      next
        case True
        from Cons.prems(3) have "last (y # rest) = en" by simp
        from Cons.IH[OF True Cons.prems(2) this ne] ne show ?thesis by auto
      qed
    qed
  qed
qed

text \<open>A walk of the network from the out-node of a room gives a chain of links of the
  graph.\<close>

lemma walk_links:
  assumes v: "valid_graph g" and se: "Start g = Some sn" "End g = Some en"
  shows "walk (build_residual g (room_names g) sn en) (outIdx (room_names g) a) cs
           (inIdx (room_names g) en)
     \<Longrightarrow> a \<in> set (room_names g)
     \<Longrightarrow> \<forall>(x, y) \<in> set (zip (a # map (roomNameOf (room_names g)) cs @ [en])
                             (map (roomNameOf (room_names g)) cs @ [en])).
           y \<in> set (links_of g x)"
proof (induction cs arbitrary: a)
  case Nil
  let ?names = "room_names g"
  note rn = room_names_props[OF v se]
  from Nil.prems(1) have "linked (build_residual g ?names sn en) (outIdx ?names a) (inIdx ?names en)"
    by simp
  from network_edges(3)[OF v se this] obtain a' b where
    ab: "a' \<in> set ?names" "b \<in> set (links_of g a')"
      "outIdx ?names a = outIdx ?names a'" "inIdx ?names en = inIdx ?names b"
    by (auto simp: outIdx_def)
  have "a = a'" by (rule out_inj(1)[OF rn(1) Nil.prems(2) ab(1) ab(3)])
  moreover have "b \<in> set ?names" using links_in_names(2)[OF v ab(1)] ab(2) by blast
  then have "en = b" by (rule out_inj(2)[OF rn(1) rn(4) _ ab(4)])
  ultimately show ?case using ab(2) by simp
next
  case (Cons c cs)
  let ?names = "room_names g"
  note rn = room_names_props[OF v se]
  from Cons.prems(1) have l: "linked (build_residual g ?names sn en) (outIdx ?names a) c"
    and w: "walk (build_residual g ?names sn en) (c + 1) cs (inIdx ?names en)"
    by simp_all
  from network_edges(3)[OF v se l] obtain a' b where
    ab: "a' \<in> set ?names" "b \<in> set (links_of g a')"
      "outIdx ?names a = outIdx ?names a'" "c = inIdx ?names b"
    by (auto simp: outIdx_def)
  have a: "a = a'" by (rule out_inj(1)[OF rn(1) Cons.prems(2) ab(1) ab(3)])
  have b: "b \<in> set ?names" using links_in_names(2)[OF v ab(1)] ab(2) by blast
  have nm: "roomNameOf ?names c = b"
    unfolding ab(4) roomNameOf_def inIdx_def using idOf_name[OF rn(1) b] by simp
  have c1: "c + 1 = outIdx ?names b" by (simp add: ab(4) inIdx_def outIdx_def)
  from Cons.IH[OF w[unfolded c1] b] ab(2) a show ?case by (simp add: nm)
qed

text \<open>The room lists of the paths read off the flow are different from each other and
  share nothing but the ends.\<close>

lemma css_rooms_apart:
  assumes d: "distinct names" and sn: "sn \<in> set names" and en: "en \<in> set names"
    and dc: "distinct (concat css)"
    and al: "\<forall>c \<in> set (concat css). even c \<and> c < 2 * length names
            \<and> c \<noteq> inIdx names sn \<and> c \<noteq> inIdx names en"
    and cnt: "length (filter (\<lambda>cs. cs = []) css) \<le> 1"
    and ij: "i < length css" "j < length css" "i \<noteq> j"
  shows "set (PRooms (path_of names sn en (css ! i))) \<inter> set (PRooms (path_of names sn en (css ! j)))
           \<subseteq> {sn, en}"
    and "PRooms (path_of names sn en (css ! i)) \<noteq> PRooms (path_of names sn en (css ! j))"
proof -
  let ?M = "\<lambda>cs. map (roomNameOf names) cs"
  have pr: "PRooms (path_of names sn en cs) = sn # ?M cs @ [en]" for cs by (simp add: path_of_def)
  have sub: "set (css ! i) \<subseteq> set (concat css)" "set (css ! j) \<subseteq> set (concat css)"
    using nth_mem[OF ij(1)] nth_mem[OF ij(2)] by auto
  have ends: "set (?M (css ! k)) \<inter> {sn, en} = {}" if "k < length css" for k
  proof -
    have "roomNameOf names c \<noteq> sn \<and> roomNameOf names c \<noteq> en" if "c \<in> set (css ! k)" for c
    proof -
      from that nth_mem[OF \<open>k < length css\<close>] have "c \<in> set (concat css)" by auto
      with al have "even c" "c < 2 * length names" "c \<noteq> inIdx names sn" "c \<noteq> inIdx names en"
        by auto
      with room_name_not[OF d sn, of c] room_name_not[OF d en, of c] show ?thesis by simp
    qed
    then show ?thesis by auto
  qed
  have inj: "inj_on (roomNameOf names) (set (concat css))"
    using al by (intro inj_onI room_name_inj[OF d]) auto
  have dj: "set (css ! i) \<inter> set (css ! j) = {}"
  proof (cases "i < j")
    case True then show ?thesis by (rule distinct_concat_nth[OF dc _ ij(2)])
  next
    case False
    with ij(3) have "j < i" by simp
    from distinct_concat_nth[OF dc this ij(1)] show ?thesis by auto
  qed
  have apart: "set (?M (css ! i)) \<inter> set (?M (css ! j)) = {}"
  proof (rule ccontr)
    assume "set (?M (css ! i)) \<inter> set (?M (css ! j)) \<noteq> {}"
    then obtain c c' where c: "c \<in> set (css ! i)" "c' \<in> set (css ! j)"
      "roomNameOf names c = roomNameOf names c'"
      by auto
    from inj_onD[OF inj c(3)] c(1,2) sub have "c = c'" by blast
    with c(1,2) dj show False by blast
  qed
  show "set (PRooms (path_of names sn en (css ! i))) \<inter> set (PRooms (path_of names sn en (css ! j)))
           \<subseteq> {sn, en}"
    unfolding pr using apart by auto
  show "PRooms (path_of names sn en (css ! i)) \<noteq> PRooms (path_of names sn en (css ! j))"
  proof
    assume "PRooms (path_of names sn en (css ! i)) = PRooms (path_of names sn en (css ! j))"
    then have e: "?M (css ! i) = ?M (css ! j)" unfolding pr by simp
    with apart have "?M (css ! i) = []" by auto
    with e have "css ! i = []" "css ! j = []" by simp_all
    from filter_le_one_unique[OF cnt ij(1,2) this] ij(3) show False by simp
  qed
qed

text \<open>C2: with \<open>maxPaths = 0\<close>, on a valid graph, the main loop ends with a total flow that is
  the number of paths \<open>MultiPath\<close> returns; these are different paths of the graph from the
  start room to the end room (each step a link, no room twice) that share no room but the
  two ends; and no family of such paths is larger.\<close>

theorem MultiPath_maximal:
  assumes v: "valid_graph g" and se: "Start g = Some sn" "End g = Some en"
  shows "\<exists>gr tot paths. max_flow g 0 = Some (gr, tot) \<and> MultiPath g 0 = Some paths
     \<and> int (length paths) = tot
     \<and> disjoint_paths g sn en (map PRooms paths)
     \<and> (\<forall>qs. disjoint_paths g sn en qs \<longrightarrow> length qs \<le> length paths)"
proof -
  define names where "names = room_names g"
  define s where "s = outIdx names sn"
  define t where "t = inIdx names en"
  define gr0 where "gr0 = build_residual g names sn en"
  note rn = room_names_props[OF v se, folded names_def]
  from MultiPath_structure[OF v se, of 0, folded names_def, folded s_def t_def gr0_def]
  obtain gr tot css where
    mf: "max_flow g 0 = Some (gr, tot)"
    and mp: "MultiPath g 0 = Some (map (path_of names sn en) css)"
    and inv: "ek_inv s t gr" and sh: "shape gr = shape gr0" and tot: "tot = excess gr s"
    and fin: "bfs gr s t = Some (gr, 0)" and len: "int (length css) = tot"
    and dc: "distinct (concat css)"
    and al0: "\<forall>c \<in> set (concat css). even c \<and> c < 2 * length names
            \<and> c \<noteq> inIdx names sn \<and> c \<noteq> t"
    and cnt: "length (filter (\<lambda>cs. cs = []) css) \<le> 1"
    and wk: "\<forall>cs \<in> set css. walk gr0 s cs t"
    by auto
  note al = al0[unfolded t_def]
  let ?P = "path_of names sn en"
  let ?paths = "map ?P css"
  have vp: "valid_paths sn en ?paths" by (rule MultiPath_valid_paths[OF v se mp])
  have gp: "graph_path g sn en (PRooms (?P cs))" if cs: "cs \<in> set css" for cs
  proof -
    from vp cs have "distinct (PRooms (?P cs))" "hd (PRooms (?P cs)) = sn"
      "last (PRooms (?P cs)) = en" "2 \<le> length (PRooms (?P cs))"
      unfolding valid_paths_def by auto
    moreover from wk cs have "walk gr0 s cs t" by blast
    from walk_links[OF v se this[unfolded gr0_def s_def t_def names_def]] rn(3)
    have "\<forall>(x, y) \<in> set (zip (PRooms (?P cs)) (tl (PRooms (?P cs)))). y \<in> set (links_of g x)"
      by (simp add: path_of_def names_def)
    ultimately show ?thesis by (simp add: graph_path_def)
  qed
  note ap = css_rooms_apart[OF rn(1,3,4) dc al cnt]
  have dp: "disjoint_paths g sn en (map PRooms ?paths)"
    unfolding disjoint_paths_def
  proof (intro conjI ballI impI)
    fix q assume "q \<in> set (map PRooms ?paths)"
    then show "graph_path g sn en q" using gp by auto
  next
    show "distinct (map PRooms ?paths)"
      unfolding distinct_conv_nth using ap(2) by simp
  next
    fix q q' assume "q \<in> set (map PRooms ?paths)" "q' \<in> set (map PRooms ?paths)" "q \<noteq> q'"
    then obtain i j where ij: "i < length css" "j < length css"
      "q = PRooms (?P (css ! i))" "q' = PRooms (?P (css ! j))"
      by (auto simp: in_set_conv_nth)
    with \<open>q \<noteq> q'\<close> have "i \<noteq> j" by auto
    with ap(1) ij show "set q \<inter> set q' \<subseteq> {sn, en}" by simp
  qed
  have mx: "length qs \<le> length ?paths" if qs: "disjoint_paths g sn en qs" for qs
  proof -
    from bfs_step[OF inv] obtain par where
      ok: "tree_ok gr s t par"
      and n: "par ! t = None \<longrightarrow> bfs gr s t = Some (gr, 0) \<and> closed_under_residual gr par"
      and f: "par ! t \<noteq> None \<longrightarrow> bneck_loop gr par s t INF_cap = Some 1
                \<and> (\<exists>gr'. bfs gr s t = Some (gr', 1) \<and> shape gr' = shape gr
                      \<and> ek_inv s t gr' \<and> excess gr' s = excess gr s + 1)"
      by (elim exE conjE)
    have nf: "par ! t = None"
    proof (rule ccontr)
      assume "par ! t \<noteq> None"
      with f obtain gr' where "bfs gr s t = Some (gr', 1)" by blast
      with fin show False by simp
    qed
    with n have cl: "closed_under_residual gr par" by simp
    define Xf where "Xf = {h \<in> half_edges gr. par ! fst h \<noteq> None
                      \<and> par ! to (edge_at gr h) = None \<and> 0 < cap (edge_at gr h)}"
    have fX: "finite Xf"
      unfolding Xf_def by (rule finite_subset[OF _ finite_half_edges]) auto
    from ok have ps: "par ! s \<noteq> None" by (simp add: tree_ok_def)
    have ex: "\<exists>h. h \<in> Xf \<and> crosses names gr q h" if q: "q \<in> set qs" for q
    proof -
      from qs q have gq: "graph_path g sn en q" by (simp add: disjoint_paths_def)
      then have "2 \<le> length q" "hd q = sn" "last q = en" by (simp_all add: graph_path_def)
      then obtain rest where qe: "q = sn # rest" "rest \<noteq> []" "last (sn # rest) = en"
        by (cases q; cases "tl q") auto
      have half: "\<exists>h. h \<in> Xf \<and> fst h = u \<and> to (edge_at gr h) = w"
        if "linked gr0 u w" "par ! u \<noteq> None" "par ! w = None" for u w
      proof -
        from that(1) have "linked gr u w" by (simp add: linked_shape[OF sh])
        then obtain h where "h \<in> half_edges gr" "fst h = u" "to (edge_at gr h) = w"
          "0 < cap (edge_at gr h)"
          unfolding linked_def by blast
        with that(2,3) show ?thesis by (intro exI[of _ h]) (simp add: Xf_def)
      qed
      define inS where "inS u = (par ! u \<noteq> None)" for u
      have a1: "inS (outIdx names sn)" "\<not> inS (inIdx names en)"
        using ps nf by (simp_all add: inS_def s_def t_def)
      from crossing[OF a1 qe(3) qe(2)]
      consider (link0) a b where "(a, b) \<in> set (zip (sn # rest) rest)"
          "inS (outIdx names a)" "\<not> inS (inIdx names b)"
        | (room0) r where "r \<in> set (butlast rest)"
          "inS (inIdx names r)" "\<not> inS (outIdx names r)"
        by blast
      then consider (link) a b where "(a, b) \<in> set (zip (sn # rest) rest)"
          "par ! outIdx names a \<noteq> None" "par ! inIdx names b = None"
        | (room) r where "r \<in> set (butlast rest)"
          "par ! inIdx names r \<noteq> None" "par ! outIdx names r = None"
        unfolding inS_def by cases blast+
      then show ?thesis
      proof cases
        case link
        from link(1) qe have z: "(a, b) \<in> set (zip q (tl q))" by simp
        note pa = graph_path_pairs[OF gq v z]
        from network_edges(2)[OF v se pa(2,1)] have "linked gr0 (outIdx names a) (inIdx names b)"
          by (simp add: gr0_def names_def)
        from half[OF this link(2,3)] obtain h where
          h: "h \<in> Xf" "fst h = outIdx names a" "to (edge_at gr h) = inIdx names b"
          by blast
        have "crosses names gr q h" unfolding crosses_def using z h(2,3) by blast
        with h(1) show ?thesis by blast
      next
        case room
        from room(1) qe have z: "r \<in> set (butlast (tl q))" by simp
        then have "r \<in> set (tl q)" by (rule in_set_butlastD)
        from tl_pair[OF this] obtain a where "(a, r) \<in> set (zip q (tl q))" by blast
        from graph_path_pairs(3)[OF gq v this] have rn': "r \<in> set (room_names g)" .
        from network_edges(1)[OF v se rn'] have "linked gr0 (inIdx names r) (outIdx names r)"
          by (simp add: gr0_def names_def)
        from half[OF this room(2,3)] obtain h where
          h: "h \<in> Xf" "fst h = inIdx names r" "to (edge_at gr h) = outIdx names r"
          by blast
        have "crosses names gr q h" unfolding crosses_def using z h(2,3) by blast
        with h(1) show ?thesis by blast
      qed
    qed
    then have "\<forall>q \<in> set qs. \<exists>h. h \<in> Xf \<and> crosses names gr q h" by blast
    from bchoice[OF this] obtain f where
      f: "\<forall>q \<in> set qs. f q \<in> Xf \<and> crosses names gr q (f q)"
      by blast
    have "inj_on f (set qs)"
    proof (rule inj_onI)
      fix q q' assume q: "q \<in> set qs" "q' \<in> set qs" and e: "f q = f q'"
      show "q = q'"
      proof (rule ccontr)
        assume ne: "q \<noteq> q'"
        from qs q have g: "graph_path g sn en q" "graph_path g sn en q'"
          by (simp_all add: disjoint_paths_def)
        from qs q ne have sub: "set q \<inter> set q' \<subseteq> {sn, en}" unfolding disjoint_paths_def by blast
        from f q e have "crosses names gr q (f q)" "crosses names gr q' (f q)" by auto
        from crosses_inj[OF v rn(1)[unfolded names_def] g sub this[unfolded names_def]] ne
        show False by simp
      qed
    qed
    moreover have "f ` set qs \<subseteq> Xf" using f by blast
    ultimately have "card (set qs) \<le> card Xf" by (rule card_inj_on_le[OF _ _ fX])
    moreover from qs have "distinct qs" by (simp add: disjoint_paths_def)
    then have "card (set qs) = length qs" by (rule distinct_card)
    moreover have "int (card Xf) \<le> excess gr s"
      unfolding Xf_def by (rule saturated_cut[OF inv ok nf cl])
    ultimately show ?thesis using tot len by simp
  qed
  from mf mp len dp mx show ?thesis by (intro exI[of _ gr] exI[of _ tot] exI[of _ ?paths]) simp
qed

theorem MultiPath_maximal_witness:
  "map_option snd
     (max_flow \<lparr>Rooms = [(''s'', \<lparr>Name = ''s'', X = 0, Y = 0, Links = [''a'', ''c'']\<rparr>),
                          (''a'', \<lparr>Name = ''a'', X = 1, Y = 0, Links = [''s'', ''d'', ''b'']\<rparr>),
                          (''b'', \<lparr>Name = ''b'', X = 2, Y = 0, Links = [''a'', ''t'']\<rparr>),
                          (''c'', \<lparr>Name = ''c'', X = 1, Y = 1, Links = [''s'', ''d'']\<rparr>),
                          (''d'', \<lparr>Name = ''d'', X = 2, Y = 1, Links = [''a'', ''t'', ''c'']\<rparr>),
                          (''t'', \<lparr>Name = ''t'', X = 3, Y = 0, Links = [''d'', ''b'']\<rparr>)],
                 Start = Some ''s'', End = Some ''t''\<rparr> 0) = Some 2
   \<and> MultiPath \<lparr>Rooms = [(''s'', \<lparr>Name = ''s'', X = 0, Y = 0, Links = [''a'', ''c'']\<rparr>),
                          (''a'', \<lparr>Name = ''a'', X = 1, Y = 0, Links = [''s'', ''d'', ''b'']\<rparr>),
                          (''b'', \<lparr>Name = ''b'', X = 2, Y = 0, Links = [''a'', ''t'']\<rparr>),
                          (''c'', \<lparr>Name = ''c'', X = 1, Y = 1, Links = [''s'', ''d'']\<rparr>),
                          (''d'', \<lparr>Name = ''d'', X = 2, Y = 1, Links = [''a'', ''t'', ''c'']\<rparr>),
                          (''t'', \<lparr>Name = ''t'', X = 3, Y = 0, Links = [''d'', ''b'']\<rparr>)],
                 Start = Some ''s'', End = Some ''t''\<rparr> 0
       = Some [\<lparr>PRooms = [''s'', ''a'', ''b'', ''t''], Length = 3\<rparr>,
               \<lparr>PRooms = [''s'', ''c'', ''d'', ''t''], Length = 3\<rparr>]
   \<and> disjoint_paths \<lparr>Rooms = [(''s'', \<lparr>Name = ''s'', X = 0, Y = 0, Links = [''a'', ''c'']\<rparr>),
                          (''a'', \<lparr>Name = ''a'', X = 1, Y = 0, Links = [''s'', ''d'', ''b'']\<rparr>),
                          (''b'', \<lparr>Name = ''b'', X = 2, Y = 0, Links = [''a'', ''t'']\<rparr>),
                          (''c'', \<lparr>Name = ''c'', X = 1, Y = 1, Links = [''s'', ''d'']\<rparr>),
                          (''d'', \<lparr>Name = ''d'', X = 2, Y = 1, Links = [''a'', ''t'', ''c'']\<rparr>),
                          (''t'', \<lparr>Name = ''t'', X = 3, Y = 0, Links = [''d'', ''b'']\<rparr>)],
                 Start = Some ''s'', End = Some ''t''\<rparr> ''s'' ''t''
        [[''s'', ''a'', ''d'', ''t'']]
   \<and> length [[''s'', ''a'', ''d'', ''t'']] \<le> (2 :: nat)"
proof -
  let ?g = "\<lparr>Rooms = [(''s'', \<lparr>Name = ''s'', X = 0, Y = 0, Links = [''a'', ''c'']\<rparr>),
                          (''a'', \<lparr>Name = ''a'', X = 1, Y = 0, Links = [''s'', ''d'', ''b'']\<rparr>),
                          (''b'', \<lparr>Name = ''b'', X = 2, Y = 0, Links = [''a'', ''t'']\<rparr>),
                          (''c'', \<lparr>Name = ''c'', X = 1, Y = 1, Links = [''s'', ''d'']\<rparr>),
                          (''d'', \<lparr>Name = ''d'', X = 2, Y = 1, Links = [''a'', ''t'', ''c'']\<rparr>),
                          (''t'', \<lparr>Name = ''t'', X = 3, Y = 0, Links = [''d'', ''b'']\<rparr>)],
                 Start = Some ''s'', End = Some ''t''\<rparr>"
  let ?ps = "[\<lparr>PRooms = [''s'', ''a'', ''b'', ''t''], Length = 3\<rparr>,
              \<lparr>PRooms = [''s'', ''c'', ''d'', ''t''], Length = 3\<rparr>]"
  have v: "valid_graph ?g" by code_simp
  have se: "Start ?g = Some ''s''" "End ?g = Some ''t''" by simp_all
  have run: "MultiPath ?g 0 = Some ?ps" by code_simp
  have dq: "disjoint_paths ?g ''s'' ''t'' [[''s'', ''a'', ''d'', ''t'']]" by code_simp
  from MultiPath_maximal[OF v se] obtain gr tot paths where
    r: "max_flow ?g 0 = Some (gr, tot)" "MultiPath ?g 0 = Some paths" "int (length paths) = tot"
      "\<forall>qs. disjoint_paths ?g ''s'' ''t'' qs \<longrightarrow> length qs \<le> length paths"
    by (elim exE conjE)
  from r(2) run have ps: "paths = ?ps" by simp
  from r(4) dq have "length [[''s'', ''a'', ''d'', ''t'']] \<le> length paths" by blast
  with r(1,3) run dq show ?thesis unfolding ps by simp
qed

end
